(* ===== verification/Prelude.thy ===== *)
theory Prelude
  imports Main "HOL-Library.Word"
begin

text \<open>
  Shared vocabulary of the development: the machine types of the C++ code, the failures a
  C++ function can end in, the generic lemmas on words and lists that the components share,
  and the named collections their proofs draw on.

  The target is the LP64 Linux ABI the Makefile builds for: \<open>size_t\<close>, \<open>uintptr_t\<close> are
  unsigned 64-bit words; \<open>off_t\<close>, \<open>ssize_t\<close> are 64-bit words read as two's complement
  (\<open>sint\<close>, compared with \<open><s\<close>), so that the conversions the code makes between
  them are the identity on the bits; \<open>int\<close> values that are only compared or passed
  on (descriptors, result codes) are HOL integers.
\<close>

section \<open>Machine types\<close>

type_synonym byte = "8 word"
type_synonym size_t = "64 word"
type_synonym off_t = "64 word"
type_synonym ssize_t = "64 word"
type_synonym uintptr = "64 word"
type_synonym ptr = nat  \<comment> \<open>addresses are compared, never computed with\<close>
type_synonym c_int = int

text \<open>
  How a call of the code can end other than by returning. Undefined behaviour of the C++
  code is a value too, so that its absence is a statement about the model.
\<close>

datatype cpp_error =
    Out_of_bounds            \<comment> \<open>an index outside an array, vector or span\<close>
  | Div_by_zero              \<comment> \<open>\<open>%\<close> or \<open>/\<close> by zero\<close>
  | Runtime_error string     \<comment> \<open>\<open>std::runtime_error\<close>\<close>
  | Null_deref               \<comment> \<open>a null pointer is dereferenced\<close>
  | Dangling_ref             \<comment> \<open>an object is used after its lifetime\<close>
  | System_error c_int       \<comment> \<open>\<open>std::system_error\<close> with its errno\<close>
  | Bad_alloc                \<comment> \<open>\<open>std::bad_alloc\<close>\<close>
  | Length_error             \<comment> \<open>\<open>std::length_error\<close>\<close>
  | Exit c_int               \<comment> \<open>the process ends by \<open>exit\<close>\<close>
  | Blocks                   \<comment> \<open>a call waits for something that never happens\<close>

definition ECANCELED :: c_int where "ECANCELED = 125"
definition EAGAIN :: c_int where "EAGAIN = 11"
definition EEXIST :: c_int where "EEXIST = 17"
definition EIO :: c_int where "EIO = 5"
definition EINVAL :: c_int where "EINVAL = 22"
definition EBADFD :: c_int where "EBADFD = 77"

lemmas errno_defs = ECANCELED_def EAGAIN_def EEXIST_def EIO_def EINVAL_def EBADFD_def

section \<open>Collections\<close>

named_theorems u64 \<comment> \<open>facts that move \<open>size_t\<close> arithmetic to \<open>nat\<close>\<close>
named_theorems unfolds \<comment> \<open>the constants of the code, as numbers\<close>

section \<open>Words\<close>

lemma unat_min [u64]: "unat (min a b) = min (unat a) (unat (b :: 'a::len word))"
  by (simp add: min_def word_le_nat_alt)

lemma unat_less64: "unat (a :: 64 word) < 18446744073709551616"
  using unsigned_less [of a, where 'a = nat] by simp

lemma unat_plus64:
  "unat a + unat b < 18446744073709551616 \<Longrightarrow> unat (a + b :: 64 word) = unat a + unat b"
  by (simp add: unat_word_ariths)

lemma unat_minus64: "b \<le> a \<Longrightarrow> unat (a - b :: 64 word) = unat a - unat b"
  by (rule unat_sub)

lemma word_less_unat [u64]: "(a < b) = (unat a < unat (b :: 64 word))"
  by (rule word_less_nat_alt)

lemma word_le_unat [u64]: "(a \<le> b) = (unat a \<le> unat (b :: 64 word))"
  by (rule word_le_nat_alt)

text \<open>
  A non-negative \<open>off_t\<close> is the same number as the \<open>size_t\<close> it is cast to, and signed and
  unsigned comparison agree on such values.
\<close>

lemma uint_eq_unat64: "uint (a :: 64 word) = int (unat a)"
  by (rule uint_nat)

lemma sint_cases64:
  "sint (a :: 64 word) =
     (if unat a < 9223372036854775808 then int (unat a) else int (unat a) - 18446744073709551616)"
proof -
  define u where "u = uint a"
  have u: "0 \<le> u" "u < 18446744073709551616"
    using uint_lt2p [of a] by (simp_all add: u_def)
  have "sint a = signed_take_bit 63 u"
    by (simp add: sint_uint u_def)
  also have "\<dots> = (u + 2 ^ 63) mod 2 ^ 64 - 2 ^ 63"
    unfolding signed_take_bit_eq_take_bit_shift take_bit_eq_mod by simp
  also have "\<dots> = (if u < 9223372036854775808 then u else u - 18446744073709551616)"
  proof (cases "u < 9223372036854775808")
    case True
    with u have "(u + 2 ^ 63) mod 2 ^ 64 = u + 2 ^ 63"
      by (intro mod_pos_pos_trivial) simp_all
    with True show ?thesis by simp
  next
    case False
    with u have "(u + 2 ^ 63 - 2 ^ 64) mod 2 ^ 64 = u + 2 ^ 63 - 2 ^ 64"
      by (intro mod_pos_pos_trivial) simp_all
    then have "(u + 2 ^ 63) mod 2 ^ 64 = u + 2 ^ 63 - 2 ^ 64"
      by (metis minus_mod_self2)
    with False show ?thesis by simp
  qed
  finally show ?thesis
    by (simp add: u_def uint_eq_unat64 del: of_nat_unat)
qed

lemma nonneg_iff_unat64: "((0 :: 64 word) \<le>s a) = (unat a < 9223372036854775808)"
  using unat_less64 [of a] by (simp add: word_sle_eq sint_cases64 del: of_nat_unat)

lemma sless_unat64: "(0 :: 64 word) \<le>s a \<Longrightarrow> 0 \<le>s b \<Longrightarrow> (a <s b) = (unat a < unat b)"
  by (simp add: word_sless_alt nonneg_iff_unat64 sint_cases64 del: of_nat_unat)

section \<open>Lists\<close>

text \<open>An index into a span or vector, which the code does not check.\<close>

definition index_at :: "'a list \<Rightarrow> nat \<Rightarrow> cpp_error + 'a" where
  "index_at xs i = (if i < length xs then Inr (xs ! i) else Inl Out_of_bounds)"

lemma index_at_simps [simp]:
  "i < length xs \<Longrightarrow> index_at xs i = Inr (xs ! i)"
  "length xs \<le> i \<Longrightarrow> index_at xs i = Inl Out_of_bounds"
  by (simp_all add: index_at_def)

text \<open>Overwriting a stretch of a file, as \<open>pwrite\<close> does: a gap is filled with zeros.\<close>

definition write_at :: "byte list \<Rightarrow> nat \<Rightarrow> byte list \<Rightarrow> byte list" where
  "write_at bs off d =
     (if d = [] then bs
      else take off bs @ replicate (off - length bs) 0 @ d @ drop (off + length d) bs)"

lemma write_at_Nil [simp]: "write_at bs off [] = bs"
  by (simp add: write_at_def)

lemma length_write_at:
  "d \<noteq> [] \<Longrightarrow> length (write_at bs off d) = max (length bs) (off + length d)"
  by (simp add: write_at_def)

text \<open>
  Appending the next piece of a source to a copy of its first \<open>k\<close> bytes gives a copy of the
  first \<open>k + n\<close> bytes.
\<close>

lemma write_at_overlay:
  assumes "k + length d \<le> length src" and "d = take (length d) (drop k src)"
  shows "write_at (take k src @ drop k old) k d = take (k + length d) src @ drop (k + length d) old"
proof (cases "d = []")
  case False
  have "length (take k src) = k" using assms(1) by simp
  then have "write_at (take k src @ drop k old) k d = take k src @ d @ drop (k + length d) old"
    using False by (simp add: write_at_def add.commute)
  moreover have "take k src @ d = take (k + length d) src"
    by (subst assms(2)) (simp add: take_add)
  ultimately show ?thesis by (simp only: append_assoc [symmetric])
qed simp

section \<open>Invariants of transition systems\<close>

text \<open>
  Several components are state machines. Each gives its initial states, its steps and an
  invariant, and discharges the two laws; reachability is \<open>step\<^sup>*\<^sup>*\<close>.
\<close>

locale invariant_system =
  fixes start :: "'s \<Rightarrow> bool" and step :: "'s \<Rightarrow> 's \<Rightarrow> bool" and inv :: "'s \<Rightarrow> bool"
  assumes start_inv: "start s \<Longrightarrow> inv s"
    and step_inv: "inv s \<Longrightarrow> step s s' \<Longrightarrow> inv s'"
begin

lemma steps_inv: "step\<^sup>*\<^sup>* s s' \<Longrightarrow> inv s \<Longrightarrow> inv s'"
  by (induction rule: rtranclp_induct) (auto intro: step_inv)

lemma reachable_inv: "start s \<Longrightarrow> step\<^sup>*\<^sup>* s s' \<Longrightarrow> inv s'"
  by (rule steps_inv) (auto intro: start_inv)

end

end
