(* ===== verification/Chunking.thy ===== *)
theory Chunking
  imports Prelude
begin

text \<open>
  The loop every transfer engine of the program shares: a file of \<open>file_sz\<close> bytes is cut
  into consecutive pieces, \<open>total_processed\<close> counts what has been dealt with, and the next
  piece is \<open>min C (file_sz - total_processed)\<close> bytes long. \<open>plan\<close> is that cutting over
  \<open>nat\<close>, independent of any engine; the locale \<open>chunk_loop\<close> is the contract between a
  piece-size expression of the code, on 64-bit words, and the cutting. Each engine's theory
  interprets it on its own expression.
\<close>

section \<open>Cutting a file\<close>

function plan :: "nat \<Rightarrow> nat \<Rightarrow> nat \<Rightarrow> (nat \<times> nat) list" where
  "plan C sz t =
     (if t < sz \<and> 0 < C
      then (t, min C (sz - t)) # plan C sz (t + min C (sz - t)) else [])"
  by pat_completeness auto
termination by (relation "measure (\<lambda>(C, sz, t). sz - t)") auto

declare plan.simps [simp del]

lemma plan_stop [simp]: "sz \<le> t \<Longrightarrow> plan C sz t = []"
  by (subst plan.simps) simp

lemma plan_step:
  "t < sz \<Longrightarrow> 0 < C \<Longrightarrow> plan C sz t = (t, min C (sz - t)) # plan C sz (t + min C (sz - t))"
  by (subst plan.simps) simp

lemma plan_sum: "0 < C \<Longrightarrow> sum_list (map snd (plan C sz t)) = sz - t"
proof (induction C sz t rule: plan.induct)
  case (1 C sz t)
  then show ?case by (cases "t < sz") (auto simp: plan_step)
qed

lemma plan_pieces:
  "(q, l) \<in> set (plan C sz t) \<Longrightarrow> 0 < l \<and> l \<le> C \<and> t \<le> q \<and> q + l \<le> sz"
proof (induction C sz t rule: plan.induct)
  case (1 C sz t)
  show ?case
  proof (cases "t < sz \<and> 0 < C")
    case True
    with 1 show ?thesis by (auto simp: plan_step)
  next
    case False
    with 1(2) show ?thesis by (simp add: plan.simps [of C sz t])
  qed
qed

text \<open>The number of pieces is the rounded-up quotient the code computes ahead of time.\<close>

lemma plan_length: "0 < C \<Longrightarrow> length (plan C sz t) = (sz - t + C - 1) div C"
proof (induction C sz t rule: plan.induct)
  case (1 C sz t)
  show ?case
  proof (cases "t < sz")
    case True
    then have "length (plan C sz t) = Suc ((sz - (t + min C (sz - t)) + C - 1) div C)"
      using 1 by (simp add: plan_step)
    also have "\<dots> = (sz - t + C - 1) div C"
    proof (cases "C \<le> sz - t")
      case le: True
      then have "sz - t + C - 1 = (sz - (t + C) + C - 1) + C"
        using \<open>0 < C\<close> by linarith
      then have "(sz - t + C - 1) div C = Suc ((sz - (t + C) + C - 1) div C)"
        using \<open>0 < C\<close> by (simp only: div_add_self2)
      with le show ?thesis by (simp only: min_absorb1)
    next
      case False
      then have "sz - t + C - 1 = (sz - t - 1) + C" using True by linarith
      then have "(sz - t + C - 1) div C = Suc ((sz - t - 1) div C)"
        using \<open>0 < C\<close> by (simp only: div_add_self2)
      moreover have "(sz - t - 1) div C = 0" using False by (intro div_less) linarith
      ultimately show ?thesis using False \<open>0 < C\<close> by (simp only: min_def) simp
    qed
    finally show ?thesis .
  next
    case False
    with \<open>0 < C\<close> show ?thesis by simp
  qed
qed

text \<open>The pieces, each by its number.\<close>

lemma plan_nth:
  "0 < C \<Longrightarrow>
   plan C sz t = map (\<lambda>i. (t + i * C, min C (sz - (t + i * C)))) [0..<(sz - t + C - 1) div C]"
proof (induction C sz t rule: plan.induct)
  case (1 C sz t)
  let ?f = "\<lambda>t i. (t + i * C, min C (sz - (t + i * C)))"
  show ?case
  proof (cases "t < sz")
    case True
    let ?t = "t + min C (sz - t)"
    let ?k = "(sz - ?t + C - 1) div C"
    have "length (plan C sz t) = Suc (length (plan C sz ?t))"
      using True \<open>0 < C\<close> by (simp add: plan_step)
    then have len: "(sz - t + C - 1) div C = Suc ?k"
      using \<open>0 < C\<close> by (simp only: plan_length)
    have "plan C sz t = ?f t 0 # map (?f ?t) [0..<?k]"
      using 1 True by (simp add: plan_step)
    also have "map (?f ?t) [0..<?k] = map (?f t) (map Suc [0..<?k])"
    proof (cases "C \<le> sz - t")
      case True
      then have "min C (sz - t) = C" by simp
      then show ?thesis by (simp only: map_map comp_def mult_Suc add.assoc)
    next
      case False
      then have "?k = 0" using \<open>0 < C\<close> by simp
      then show ?thesis by simp
    qed
    also have "?f t 0 # map (?f t) (map Suc [0..<?k]) = map (?f t) [0..<Suc ?k]"
      by (simp only: map_Suc_upt upt_conv_Cons [OF zero_less_Suc] list.map)
    finally show ?thesis by (simp only: len)
  next
    case False
    with \<open>0 < C\<close> show ?thesis by simp
  qed
qed

text \<open>Copying the pieces in order copies the file.\<close>

lemma plan_cover:
  "0 < C \<Longrightarrow> concat (map (\<lambda>(q, l). take l (drop q bs)) (plan C (length bs) t)) = drop t bs"
proof (induction C "length bs" t rule: plan.induct)
  case (1 C t)
  show ?case
  proof (cases "t < length bs")
    case True
    let ?l = "min C (length bs - t)"
    have "take ?l (drop t bs) @ drop (t + ?l) bs = drop t bs"
      by (metis append_take_drop_id add.commute drop_drop)
    with True 1 show ?thesis by (simp add: plan_step)
  qed simp
qed

section \<open>The contract of a piece-size expression\<close>

text \<open>Any positive advance that stays inside the file shrinks what remains, signed or not.\<close>

lemma advance_shrinks:
  fixes p t sz :: size_t
  assumes "0 < p" "p \<le> sz - t"
  shows "unat (sz - (t + p)) < unat (sz - t)"
proof -
  have eq: "sz - (t + p) = (sz - t) - p" by simp
  show ?thesis
    unfolding eq using assms by (simp add: unat_minus64 word_less_unat word_le_unat)
qed

locale chunk_loop =
  fixes step :: "size_t \<Rightarrow> size_t \<Rightarrow> size_t" and C :: nat
  assumes C_pos: "0 < C"
    and step: "unat t < unat sz \<Longrightarrow> unat (step sz t) = min C (unat sz - unat t)"
begin

lemma step_pos: "unat t < unat sz \<Longrightarrow> 0 < unat (step sz t)"
  using C_pos by (simp add: step)

lemma step_le: "unat t < unat sz \<Longrightarrow> unat (step sz t) \<le> C"
  by (simp add: step)

text \<open>Adding the piece never wraps around and never passes the end of the file.\<close>

lemma unat_advance:
  assumes "unat t < unat sz"
  shows "unat (t + step sz t) = unat t + min C (unat sz - unat t)"
proof -
  have "unat t + unat (step sz t) < 18446744073709551616"
    using assms unat_less64 [of sz] by (simp add: step)
  then show ?thesis by (simp add: unat_plus64 step [OF assms])
qed

lemma advance_le: "unat t < unat sz \<Longrightarrow> unat (t + step sz t) \<le> unat sz"
  by (simp add: unat_advance)

lemma advance_less: "unat t < unat sz \<Longrightarrow> unat sz - unat (t + step sz t) < unat sz - unat t"
  using C_pos by (simp add: unat_advance)

lemma plan_unfold:
  "unat t < unat sz \<Longrightarrow>
   plan C (unat sz) (unat t) =
     (unat t, unat (step sz t)) # plan C (unat sz) (unat (t + step sz t))"
  using C_pos by (simp add: plan_step step unat_advance)

end

end
