(* ===== verification/RingBuffer.thy ===== *)
theory RingBuffer
  imports Prelude
begin

text \<open>
  \<open>source/IOuring/RingBuffer.hpp\<close>: a fixed-capacity ring that overwrites its oldest element
  when it is full. The locale \<open>bounded_fifo\<close> is what a client may rely on; the model of the
  class interprets it through the list of its elements, oldest first.
\<close>

section \<open>The class\<close>

record 'a ring_buffer =
  rb_buffer :: "'a list"
  rb_capacity :: size_t
  rb_size :: size_t
  rb_head :: size_t
  rb_tail :: size_t

text \<open>
  \<open>make_unique<T[]>\<close> value-initialises: every cell is \<open>T()\<close>, here \<open>dflt\<close>. That the allocation may
  throw, which leaves no object, is not modelled.
\<close>

definition new_RingBuffer :: "'a \<Rightarrow> size_t \<Rightarrow> 'a ring_buffer" where
  "new_RingBuffer dflt maxSize =
     \<lparr>rb_buffer = replicate (unat maxSize) dflt, rb_capacity = maxSize,
      rb_size = 0, rb_head = 0, rb_tail = 0\<rparr>"

definition isFull :: "'a ring_buffer \<Rightarrow> bool" where
  "isFull r = (rb_size r = rb_capacity r)"

definition isEmpty :: "'a ring_buffer \<Rightarrow> bool" where
  "isEmpty r = (rb_size r = 0)"

definition put :: "'a \<Rightarrow> 'a ring_buffer \<Rightarrow> cpp_error + 'a ring_buffer" where
  "put item r =
     (if length (rb_buffer r) \<le> unat (rb_head r) then Inl Out_of_bounds
      else if rb_capacity r = 0 then Inl Div_by_zero
      else
        let r1 = r\<lparr>rb_buffer := (rb_buffer r)[unat (rb_head r) := item]\<rparr>;
            r2 = (if isFull r1
                  then r1\<lparr>rb_tail := (rb_tail r1 + 1) mod rb_capacity r1\<rparr>
                  else r1\<lparr>rb_size := rb_size r1 + 1\<rparr>)
        in Inr (r2\<lparr>rb_head := (rb_head r2 + 1) mod rb_capacity r2\<rparr>))"

definition get :: "'a ring_buffer \<Rightarrow> cpp_error + 'a \<times> 'a ring_buffer" where
  "get r =
     (if rb_size r = 0 then Inl (Runtime_error ''Buffer empty'')
      else if length (rb_buffer r) \<le> unat (rb_tail r) then Inl Out_of_bounds
      else if rb_capacity r = 0 then Inl Div_by_zero
      else Inr (rb_buffer r ! unat (rb_tail r),
                r\<lparr>rb_tail := (rb_tail r + 1) mod rb_capacity r, rb_size := rb_size r - 1\<rparr>))"

definition peek :: "'a ring_buffer \<Rightarrow> cpp_error + 'a" where
  "peek r =
     (if rb_size r = 0 then Inl (Runtime_error ''Buffer empty'')
      else if length (rb_buffer r) \<le> unat (rb_tail r) then Inl Out_of_bounds
      else Inr (rb_buffer r ! unat (rb_tail r)))"

section \<open>The interface\<close>

text \<open>Client code: several calls in a row, the first failure ending them.\<close>

fun put_all :: "('a \<Rightarrow> 'q \<Rightarrow> cpp_error + 'q) \<Rightarrow> 'a list \<Rightarrow> 'q \<Rightarrow> cpp_error + 'q" where
  "put_all p [] q = Inr q"
| "put_all p (x # xs) q = (case p x q of Inl e \<Rightarrow> Inl e | Inr q' \<Rightarrow> put_all p xs q')"

fun get_many :: "('q \<Rightarrow> cpp_error + 'a \<times> 'q) \<Rightarrow> nat \<Rightarrow> 'q \<Rightarrow> cpp_error + 'a list \<times> 'q" where
  "get_many g 0 q = Inr ([], q)"
| "get_many g (Suc n) q =
     (case g q of Inl e \<Rightarrow> Inl e
      | Inr (x, q') \<Rightarrow>
          (case get_many g n q' of Inl e \<Rightarrow> Inl e | Inr (xs, q'') \<Rightarrow> Inr (x # xs, q'')))"

datatype 'a fifo_call = Call_put 'a | Call_get | Call_peek

text \<open>
  A session of calls and what each answers: \<open>Inr None\<close> for a \<open>put\<close>, the element for a
  \<open>get\<close> or \<open>peek\<close>, the exception (after which the client goes on) for one that throws.
\<close>

fun fifo_run :: "('a \<Rightarrow> 'q \<Rightarrow> cpp_error + 'q) \<Rightarrow> ('q \<Rightarrow> cpp_error + 'a \<times> 'q) \<Rightarrow>
    ('q \<Rightarrow> cpp_error + 'a) \<Rightarrow> 'a fifo_call list \<Rightarrow> 'q \<Rightarrow> (cpp_error + 'a option) list" where
  "fifo_run p g k [] q = []"
| "fifo_run p g k (Call_put x # cs) q =
     (case p x q of Inl e \<Rightarrow> Inl e # fifo_run p g k cs q
      | Inr q' \<Rightarrow> Inr None # fifo_run p g k cs q')"
| "fifo_run p g k (Call_get # cs) q =
     (case g q of Inl e \<Rightarrow> Inl e # fifo_run p g k cs q
      | Inr (x, q') \<Rightarrow> Inr (Some x) # fifo_run p g k cs q')"
| "fifo_run p g k (Call_peek # cs) q = map_sum id Some (k q) # fifo_run p g k cs q"

definition last_n :: "nat \<Rightarrow> 'a list \<Rightarrow> 'a list" where
  "last_n n xs = drop (length xs - n) xs"

lemma last_n_all [simp]: "length xs \<le> n \<Longrightarrow> last_n n xs = xs"
  by (simp add: last_n_def)

text \<open>The specification: the same session on a list of at most \<open>n\<close> elements.\<close>

fun list_run :: "nat \<Rightarrow> 'a fifo_call list \<Rightarrow> 'a list \<Rightarrow> (cpp_error + 'a option) list" where
  "list_run n [] l = []"
| "list_run n (Call_put x # cs) l = Inr None # list_run n cs (last_n n (l @ [x]))"
| "list_run n (Call_get # cs) [] = Inl (Runtime_error ''Buffer empty'') # list_run n cs []"
| "list_run n (Call_get # cs) (x # l) = Inr (Some x) # list_run n cs l"
| "list_run n (Call_peek # cs) [] = Inl (Runtime_error ''Buffer empty'') # list_run n cs []"
| "list_run n (Call_peek # cs) (x # l) = Inr (Some x) # list_run n cs (x # l)"

lemma length_last_n [simp]: "length (last_n n xs) = min n (length xs)"
  by (simp add: last_n_def)

lemma last_n_drop_more: "k \<le> length xs - n \<Longrightarrow> last_n n (drop k xs) = last_n n xs"
proof -
  assume "k \<le> length xs - n"
  then have "length xs - k - n + k = length xs - n" by linarith
  then show ?thesis by (simp add: last_n_def)
qed

locale bounded_fifo =
  fixes insert_op :: "'a \<Rightarrow> 'q \<Rightarrow> cpp_error + 'q"
    and remove_op :: "'q \<Rightarrow> cpp_error + 'a \<times> 'q"
    and front_op :: "'q \<Rightarrow> cpp_error + 'a"
    and contents :: "'q \<Rightarrow> 'a list"
    and bound :: "'q \<Rightarrow> nat"
    and valid :: "'q \<Rightarrow> bool"
  assumes insert_law: "valid q \<Longrightarrow>
      \<exists>q'. insert_op x q = Inr q' \<and> valid q' \<and> bound q' = bound q \<and>
           contents q' = last_n (bound q) (contents q @ [x])"
    and remove_empty: "valid q \<Longrightarrow> contents q = [] \<Longrightarrow>
      remove_op q = Inl (Runtime_error ''Buffer empty'')"
    and remove_law: "valid q \<Longrightarrow> contents q = x # xs \<Longrightarrow>
      \<exists>q'. remove_op q = Inr (x, q') \<and> valid q' \<and> bound q' = bound q \<and> contents q' = xs"
    and front_law: "valid q \<Longrightarrow> contents q = x # xs \<Longrightarrow> front_op q = Inr x"
    and front_empty: "valid q \<Longrightarrow> contents q = [] \<Longrightarrow>
      front_op q = Inl (Runtime_error ''Buffer empty'')"
    and bounded: "valid q \<Longrightarrow> 0 < bound q \<and> length (contents q) \<le> bound q"
begin

text \<open>A burst of insertions keeps the newest \<open>bound q\<close> elements, in order.\<close>

lemma insert_burst:
  "valid q \<Longrightarrow> \<exists>q'. put_all insert_op xs q = Inr q' \<and> valid q' \<and> bound q' = bound q \<and>
     contents q' = last_n (bound q) (contents q @ xs)"
proof (induction xs arbitrary: q)
  case Nil
  with bounded show ?case by simp
next
  case (Cons x xs)
  from insert_law [OF Cons.prems, of x] obtain q1 where q1: "insert_op x q = Inr q1" "valid q1"
    "bound q1 = bound q" "contents q1 = last_n (bound q) (contents q @ [x])" by blast
  from Cons.IH [OF q1(2)] obtain q2 where q2: "put_all insert_op xs q1 = Inr q2" "valid q2"
    "bound q2 = bound q" "contents q2 = last_n (bound q) (contents q1 @ xs)"
    using q1(3) by auto
  let ?k = "length (contents q @ [x]) - bound q"
  have "contents q1 @ xs = drop ?k (contents q @ x # xs)"
    using q1(4) bounded [OF Cons.prems] by (simp add: last_n_def)
  then have "contents q2 = last_n (bound q) (drop ?k (contents q @ x # xs))"
    using q2(4) by (simp only:)
  also have "\<dots> = last_n (bound q) (contents q @ x # xs)"
    by (rule last_n_drop_more) simp
  finally have "contents q2 = last_n (bound q) (contents q @ x # xs)" .
  with q1 q2 show ?case by simp
qed

text \<open>Removing as many elements as there are returns them oldest first.\<close>

lemma drain:
  "valid q \<Longrightarrow> \<exists>q'. get_many remove_op (length (contents q)) q = Inr (contents q, q') \<and>
     valid q' \<and> bound q' = bound q \<and> contents q' = []"
proof (induction "contents q" arbitrary: q)
  case Nil
  then show ?case by simp
next
  case (Cons x xs)
  from remove_law [OF Cons.prems Cons.hyps(2) [symmetric]] obtain q1 where
    q1: "remove_op q = Inr (x, q1)" "valid q1" "bound q1 = bound q" "contents q1 = xs" by blast
  from Cons.hyps(1) [OF q1(4) [symmetric] q1(2)] obtain q2 where
    "get_many remove_op (length xs) q1 = Inr (xs, q2)" "valid q2" "bound q2 = bound q"
    "contents q2 = []" using q1 by auto
  with q1 Cons.hyps(2) [symmetric] show ?case by simp
qed

text \<open>
  Whatever sequence of calls a client makes, it sees the answers of the bounded list.
\<close>

lemma run_is_list_run:
  "valid q \<Longrightarrow> fifo_run insert_op remove_op front_op cs q = list_run (bound q) cs (contents q)"
proof (induction cs arbitrary: q)
  case Nil
  show ?case by simp
next
  case (Cons c cs)
  note prem = Cons.prems and IH = Cons.IH
  show ?case
  proof (cases c)
    case (Call_put x)
    from insert_law [OF Cons.prems, of x] obtain q1 where "insert_op x q = Inr q1" "valid q1"
      "bound q1 = bound q" "contents q1 = last_n (bound q) (contents q @ [x])" by blast
    with Cons.IH [of q1] Call_put show ?thesis by simp
  next
    case Call_get
    show ?thesis
    proof (cases "contents q")
      case Nil
      with Cons Call_get remove_empty show ?thesis by simp
    next
      case (Cons x xs)
      from remove_law [OF prem Cons] obtain q1 where "remove_op q = Inr (x, q1)" "valid q1"
        "bound q1 = bound q" "contents q1 = xs" by blast
      with IH [of q1] Cons Call_get show ?thesis by simp
    qed
  next
    case Call_peek
    with Cons front_law front_empty show ?thesis by (cases "contents q") auto
  qed
qed

lemma front_is_next:
  "valid q \<Longrightarrow> remove_op q = Inr (x, q') \<Longrightarrow> front_op q = Inr x"
  by (cases "contents q") (auto simp: remove_empty front_law dest: remove_law)

end


section \<open>The class implements the interface\<close>

definition rb_list :: "'a ring_buffer \<Rightarrow> 'a list" where
  "rb_list r =
     map (\<lambda>i. rb_buffer r ! ((unat (rb_tail r) + i) mod unat (rb_capacity r)))
       [0..<unat (rb_size r)]"

definition rb_inv :: "'a ring_buffer \<Rightarrow> bool" where
  "rb_inv r \<longleftrightarrow>
     0 < unat (rb_capacity r) \<and> length (rb_buffer r) = unat (rb_capacity r) \<and>
     unat (rb_size r) \<le> unat (rb_capacity r) \<and> unat (rb_tail r) < unat (rb_capacity r) \<and>
     unat (rb_head r) = (unat (rb_tail r) + unat (rb_size r)) mod unat (rb_capacity r)"

lemma length_rb_list [simp]: "length (rb_list r) = unat (rb_size r)"
  by (simp add: rb_list_def)

lemma new_RingBuffer_inv: "0 < maxSize \<Longrightarrow> rb_inv (new_RingBuffer d maxSize)"
  by (simp add: rb_inv_def new_RingBuffer_def word_less_unat)

lemma new_RingBuffer_list [simp]: "rb_list (new_RingBuffer d maxSize) = []"
  by (simp add: rb_list_def new_RingBuffer_def)

text \<open>The next index, as the code computes it on \<open>size_t\<close>, never wraps around at \<open>2 ^ 64\<close>.\<close>

lemma unat_next_index:
  "unat i < unat c \<Longrightarrow> unat ((i + 1) mod c :: size_t) = Suc (unat i) mod unat c"
  using unat_less64 [of c] by (simp add: unat_mod unat_plus64)

lemma mod_add_neq:
  fixes a i j n :: nat
  assumes "i < j" "j < n + i"
  shows "(a + i) mod n \<noteq> (a + j) mod n"
proof
  assume "(a + i) mod n = (a + j) mod n"
  then have "n dvd (a + j) - (a + i)"
    using assms(1) by (subst mod_eq_dvd_iff_nat [symmetric]) simp_all
  then have "n dvd j - i" by simp
  with assms show False by (auto dest: dvd_imp_le)
qed


lemma put_full_list:
  assumes "rb_inv r" "rb_size r = rb_capacity r"
  defines "n \<equiv> unat (rb_capacity r)" and "t \<equiv> unat (rb_tail r)"
  shows "map (\<lambda>i. (rb_buffer r)[t := x] ! ((Suc t mod n + i) mod n)) [0..<n]
         = tl (rb_list r) @ [x]"
proof (rule nth_equalityI)
  from assms have n: "0 < n" "length (rb_buffer r) = n" "t < n" "unat (rb_size r) = n"
    by (auto simp: rb_inv_def)
  then show "length (map (\<lambda>i. (rb_buffer r)[t := x] ! ((Suc t mod n + i) mod n)) [0..<n])
    = length (tl (rb_list r) @ [x])" by simp
  fix i assume "i < length (map (\<lambda>i. (rb_buffer r)[t := x] ! ((Suc t mod n + i) mod n)) [0..<n])"
  then have i: "i < n" by simp
  have idx: "(Suc t mod n + i) mod n = (t + Suc i) mod n" by (simp add: mod_simps)
  show "map (\<lambda>i. (rb_buffer r)[t := x] ! ((Suc t mod n + i) mod n)) [0..<n] ! i
        = (tl (rb_list r) @ [x]) ! i"
  proof (cases "Suc i = n")
    case True
    then have "(t + Suc i) mod n = t" using n by simp
    moreover have "length (tl (rb_list r)) = i" using True n by simp
    ultimately show ?thesis using n i idx by (simp add: nth_append)
  next
    case False
    with i have "Suc i < n" by simp
    then have "(t + 0) mod n \<noteq> (t + Suc i) mod n" by (intro mod_add_neq) simp_all
    then have "(t + Suc i) mod n \<noteq> t" using n by simp
    with \<open>Suc i < n\<close> n idx show ?thesis
      by (auto simp add: nth_append nth_tl rb_list_def n_def [symmetric] t_def [symmetric])
  qed
qed

lemma put_free_list:
  assumes "rb_inv r" "unat (rb_size r) < unat (rb_capacity r)"
  defines "n \<equiv> unat (rb_capacity r)" and "t \<equiv> unat (rb_tail r)" and "s \<equiv> unat (rb_size r)"
  shows "map (\<lambda>i. (rb_buffer r)[(t + s) mod n := x] ! ((t + i) mod n)) [0..<Suc s]
         = rb_list r @ [x]"
proof (rule nth_equalityI)
  from assms have n: "0 < n" "length (rb_buffer r) = n" "t < n" "s < n"
    by (auto simp: rb_inv_def)
  show "length (map (\<lambda>i. (rb_buffer r)[(t + s) mod n := x] ! ((t + i) mod n)) [0..<Suc s])
    = length (rb_list r @ [x])" by (simp add: s_def)
  fix i assume "i < length (map (\<lambda>i. (rb_buffer r)[(t + s) mod n := x] ! ((t + i) mod n)) [0..<Suc s])"
  then have i: "i < Suc s" by simp
  show "map (\<lambda>i. (rb_buffer r)[(t + s) mod n := x] ! ((t + i) mod n)) [0..<Suc s] ! i
        = (rb_list r @ [x]) ! i"
  proof (cases "i = s")
    case True
    with n show ?thesis by (simp add: nth_append s_def [symmetric] del: upt_Suc)
  next
    case False
    with i have "i < s" by simp
    with n have "(t + i) mod n \<noteq> (t + s) mod n" by (intro mod_add_neq) simp_all
    with \<open>i < s\<close> show ?thesis
      by (simp add: nth_append rb_list_def n_def [symmetric] t_def [symmetric] s_def [symmetric]
               del: upt_Suc)
  qed
qed

text \<open>Every operation keeps \<open>rb_inv\<close> and acts on \<open>rb_list\<close> as its specification says.\<close>

lemma put_correct:
  assumes inv: "rb_inv r"
  shows "\<exists>r'. put x r = Inr r' \<and> rb_inv r' \<and> rb_capacity r' = rb_capacity r \<and>
           rb_list r' = last_n (unat (rb_capacity r)) (rb_list r @ [x])"
proof -
  let ?n = "unat (rb_capacity r)" and ?t = "unat (rb_tail r)" and ?s = "unat (rb_size r)"
  from inv have i: "0 < ?n" "length (rb_buffer r) = ?n" "?s \<le> ?n" "?t < ?n"
    "unat (rb_head r) = (?t + ?s) mod ?n" by (auto simp: rb_inv_def)
  from i have h: "unat (rb_head r) < ?n" by simp
  have h': "unat ((rb_head r + 1) mod rb_capacity r) = (?t + Suc ?s) mod ?n"
    using h i(5) by (simp add: unat_next_index mod_simps)
  show ?thesis
  proof (cases "isFull r")
    case True
    then have full: "rb_size r = rb_capacity r" by (simp add: isFull_def)
    let ?r = "r\<lparr>rb_buffer := (rb_buffer r)[?t := x], rb_tail := (rb_tail r + 1) mod rb_capacity r,
               rb_head := (rb_head r + 1) mod rb_capacity r\<rparr>"
    have ht: "unat (rb_head r) = ?t" using i full by simp
    have "put x r = Inr ?r"
      using i(1,2,4) True ht by (auto simp: put_def isFull_def Let_def)
    moreover have "rb_inv ?r"
      using i full h' by (simp add: rb_inv_def unat_next_index mod_simps)
    moreover have "rb_list ?r = tl (rb_list r) @ [x]"
      using put_full_list [OF inv full, of x] i full
      by (simp add: rb_list_def [of ?r] unat_next_index)
    moreover have "tl (rb_list r) @ [x] = last_n ?n (rb_list r @ [x])"
      using i full by (simp add: last_n_def drop_Suc drop_tl)
    ultimately show ?thesis by auto
  next
    case False
    then have "?s \<noteq> ?n" by (simp add: isFull_def word_unat_eq_iff)
    with i have less: "?s < ?n" by simp
    let ?r = "r\<lparr>rb_buffer := (rb_buffer r)[unat (rb_head r) := x], rb_size := rb_size r + 1,
               rb_head := (rb_head r + 1) mod rb_capacity r\<rparr>"
    have s': "unat (rb_size r + 1) = Suc ?s"
      using less unat_less64 [of "rb_capacity r"] by (simp add: unat_plus64)
    have "put x r = Inr ?r"
      using i(1,2) h False by (auto simp: put_def isFull_def Let_def)
    moreover have "rb_inv ?r"
      using i h' less s' by (simp add: rb_inv_def)
    moreover have "rb_list ?r = rb_list r @ [x]"
      using put_free_list [OF inv less, of x] i s'
      by (simp add: rb_list_def del: upt_Suc)
    moreover have "rb_list r @ [x] = last_n ?n (rb_list r @ [x])"
      using less by simp
    ultimately show ?thesis by auto
  qed
qed

lemma rb_list_Cons:
  assumes "rb_inv r" "rb_list r = y # ys"
  shows "y = rb_buffer r ! unat (rb_tail r)" and "0 < unat (rb_size r)"
    and "unat (rb_tail r) < length (rb_buffer r)"
proof -
  from assms(2) have len: "unat (rb_size r) = Suc (length ys)"
    by (metis length_Cons length_rb_list)
  then show "0 < unat (rb_size r)" by simp
  have "y = rb_list r ! 0" using assms(2) by simp
  then show "y = rb_buffer r ! unat (rb_tail r)"
    using assms(1) len by (simp add: rb_list_def rb_inv_def del: upt_Suc)
  show "unat (rb_tail r) < length (rb_buffer r)" using assms(1) by (simp add: rb_inv_def)
qed

lemma get_correct:
  assumes inv: "rb_inv r" and l: "rb_list r = y # ys"
  shows "\<exists>r'. get r = Inr (y, r') \<and> rb_inv r' \<and> rb_capacity r' = rb_capacity r \<and> rb_list r' = ys"
proof -
  let ?n = "unat (rb_capacity r)" and ?t = "unat (rb_tail r)" and ?s = "unat (rb_size r)"
  let ?r = "r\<lparr>rb_tail := (rb_tail r + 1) mod rb_capacity r, rb_size := rb_size r - 1\<rparr>"
  from inv have i: "0 < ?n" "length (rb_buffer r) = ?n" "?s \<le> ?n" "?t < ?n"
    "unat (rb_head r) = (?t + ?s) mod ?n" by (auto simp: rb_inv_def)
  note c = rb_list_Cons [OF inv l]
  have s': "unat (rb_size r - 1) = ?s - 1"
    using c(2) by (simp add: unat_minus64 word_le_unat)
  have "get r = Inr (y, ?r)"
    using c i by (auto simp: get_def)
  moreover have "rb_inv ?r"
  proof -
    have "(Suc ?t mod ?n + (?s - 1)) mod ?n = (?t + ?s) mod ?n"
      using c(2) by (cases ?s) (simp_all only: mod_add_left_eq diff_Suc_1, simp_all)
    with i s' show ?thesis by (simp add: rb_inv_def unat_next_index)
  qed
  moreover have "rb_list ?r = ys"
  proof -
    have "rb_list ?r = map (\<lambda>k. rb_buffer r ! ((?t + k) mod ?n)) (map Suc [0..<?s - 1])"
      using i s' by (simp add: rb_list_def unat_next_index mod_simps)
    also have "map Suc [0..<?s - 1] = tl [0..<?s]"
      using c(2) by (simp add: map_Suc_upt upt_conv_Cons)
    also have "map (\<lambda>k. rb_buffer r ! ((?t + k) mod ?n)) (tl [0..<?s]) = tl (rb_list r)"
      by (simp only: rb_list_def map_tl)
    finally show ?thesis using l by simp
  qed
  ultimately show ?thesis by auto
qed

lemma rb_list_empty: "(rb_list r = []) = isEmpty r"
  by (simp add: rb_list_def isEmpty_def word_unat_eq_iff)

lemma isFull_list: "isFull r = (length (rb_list r) = unat (rb_capacity r))"
  by (simp add: isFull_def word_unat_eq_iff)

lemma get_empty: "isEmpty r \<Longrightarrow> get r = Inl (Runtime_error ''Buffer empty'')"
  by (simp add: get_def isEmpty_def)

lemma peek_empty: "isEmpty r \<Longrightarrow> peek r = Inl (Runtime_error ''Buffer empty'')"
  by (simp add: peek_def isEmpty_def)

lemma peek_correct: "rb_inv r \<Longrightarrow> rb_list r = y # ys \<Longrightarrow> peek r = Inr y"
  using rb_list_Cons [of r y ys] by (auto simp: peek_def)

interpretation rb: bounded_fifo put get peek rb_list "\<lambda>r. unat (rb_capacity r)" rb_inv
proof
  fix r :: "'a ring_buffer" and x xs
  assume inv: "rb_inv r"
  from put_correct [OF inv, of x]
  show "\<exists>q'. put x r = Inr q' \<and> rb_inv q' \<and> unat (rb_capacity q') = unat (rb_capacity r) \<and>
      rb_list q' = last_n (unat (rb_capacity r)) (rb_list r @ [x])" by auto
  show "rb_list r = [] \<Longrightarrow> get r = Inl (Runtime_error ''Buffer empty'')"
    by (simp add: rb_list_empty get_empty)
  show "\<exists>q'. get r = Inr (x, q') \<and> rb_inv q' \<and> unat (rb_capacity q') = unat (rb_capacity r) \<and>
      rb_list q' = xs" if "rb_list r = x # xs"
    using get_correct [OF inv that] by auto
  show "peek r = Inr x" if "rb_list r = x # xs"
    using peek_correct [OF inv that] .
  show "rb_list r = [] \<Longrightarrow> peek r = Inl (Runtime_error ''Buffer empty'')"
    by (simp add: rb_list_empty peek_empty)
  show "0 < unat (rb_capacity r) \<and> length (rb_list r) \<le> unat (rb_capacity r)"
    using inv by (simp add: rb_inv_def)
qed

section \<open>Properties\<close>

text \<open>
  C32: the buffer stays well-formed. The constructor gives a well-formed buffer for every
  positive capacity; on a well-formed buffer no operation indexes outside the array: \<open>put\<close>
  always returns, \<open>get\<close> and \<open>peek\<close> return exactly when the buffer is not empty and otherwise
  throw \<open>Buffer empty\<close>; and what \<open>put\<close> and \<open>get\<close> leave is well-formed, of the same capacity.
\<close>

theorem ring_well_formed:
  assumes "0 < maxSize" and "rb_inv r"
  shows "rb_inv (new_RingBuffer d maxSize) \<and>
    (\<exists>r'. put x r = Inr r' \<and> rb_inv r' \<and> rb_capacity r' = rb_capacity r) \<and>
    (if isEmpty r
     then get r = Inl (Runtime_error ''Buffer empty'') \<and> peek r = Inl (Runtime_error ''Buffer empty'')
     else \<exists>y r'. peek r = Inr y \<and> get r = Inr (y, r') \<and> rb_inv r' \<and> rb_capacity r' = rb_capacity r)"
proof (cases "rb_list r")
  case Nil
  then have "isEmpty r" by (simp add: rb_list_empty [symmetric])
  then show ?thesis
    using new_RingBuffer_inv [OF assms(1)] put_correct [OF assms(2), of x] by (auto simp: get_empty peek_empty)
next
  case (Cons y ys)
  then have "\<not> isEmpty r" by (simp add: rb_list_empty [symmetric])
  then show ?thesis
    using new_RingBuffer_inv [OF assms(1)] put_correct [OF assms(2), of x]
      get_correct [OF assms(2) Cons] peek_correct [OF assms(2) Cons] by auto
qed

theorem ring_well_formed_witness:
  "rb_inv (new_RingBuffer (0 :: nat) 2) \<and> \<not> isEmpty (new_RingBuffer (0 :: nat) 2\<lparr>rb_size := 2\<rparr>) \<and>
   (\<exists>y r'. get (new_RingBuffer (0 :: nat) 2\<lparr>rb_size := 2\<rparr>) = Inr (y, r') \<and> rb_inv r' \<and> rb_capacity r' = 2)"
proof -
  let ?r = "new_RingBuffer (0 :: nat) 2\<lparr>rb_size := 2\<rparr>"
  have "rb_inv ?r" by (simp add: rb_inv_def new_RingBuffer_def)
  moreover have "\<not> isEmpty ?r" "rb_capacity ?r = 2" by (simp_all add: isEmpty_def new_RingBuffer_def)
  ultimately show ?thesis using ring_well_formed [of 2 ?r 0 7] by auto
qed

text \<open>
  C16: a ring buffer of positive capacity is a bounded FIFO. Whatever sequence of \<open>put\<close>,
  \<open>get\<close> and \<open>peek\<close> calls is made on a freshly built buffer, every answer, the
  \<open>Buffer empty\<close> exceptions included, is the one of a list of at most \<open>maxSize\<close>
  elements that drops its oldest element when it overflows.
\<close>

theorem ring_session_refines_list:
  assumes "0 < maxSize"
  shows "fifo_run put get peek cs (new_RingBuffer d maxSize) = list_run (unat maxSize) cs []"
  using rb.run_is_list_run [OF new_RingBuffer_inv [OF assms, of d], of cs]
  by (simp add: new_RingBuffer_def rb_list_def)

theorem ring_session_refines_list_witness:
  "fifo_run put get peek [Call_put 1, Call_put 2, Call_put 3, Call_get, Call_peek, Call_get, Call_get]
     (new_RingBuffer (0::nat) 2) =
   [Inr None, Inr None, Inr None, Inr (Some 2), Inr (Some 3), Inr (Some 3),
    Inl (Runtime_error ''Buffer empty'')]"
  using ring_session_refines_list [of 2 "[Call_put 1, Call_put 2, Call_put 3, Call_get, Call_peek,
    Call_get, Call_get]" "0::nat"] by (simp add: last_n_def)

text \<open>
  Filling a fresh buffer with any number of elements and reading it until it is empty
  returns the newest \<open>maxSize\<close> of them, oldest first, and leaves the buffer empty.
\<close>

lemma ring_keeps_newest:
  assumes "0 < maxSize"
  shows "\<exists>r r'. put_all put xs (new_RingBuffer d maxSize) = Inr r \<and>
    get_many get (min (unat maxSize) (length xs)) r = Inr (last_n (unat maxSize) xs, r') \<and>
    isEmpty r' \<and> \<not> isFull r'"
proof -
  from rb.insert_burst [OF new_RingBuffer_inv [OF assms, of d], of xs] obtain r where
    r: "put_all put xs (new_RingBuffer d maxSize) = Inr r" "rb_inv r"
      "unat (rb_capacity r) = unat maxSize" "rb_list r = last_n (unat maxSize) xs"
    by (auto simp: new_RingBuffer_def rb_list_def)
  from rb.drain [OF r(2)] obtain r' where
    r': "get_many get (length (rb_list r)) r = Inr (rb_list r, r')" "rb_inv r'" "rb_list r' = []"
    by auto
  from rb.bounded [OF r'(2)] r'(3) have "isEmpty r'" "\<not> isFull r'"
    by (auto simp: rb_list_empty isFull_list isEmpty_def)
  moreover have "length (rb_list r) = min (unat maxSize) (length xs)"
    unfolding r(4) by simp
  ultimately show ?thesis using r r' by auto
qed

lemma ring_keeps_newest_witness:
  "\<exists>r r'. put_all put [7, 8, 9] (new_RingBuffer (0::int) 2) = Inr r \<and>
     get_many get 2 r = Inr ([8, 9], r') \<and> isEmpty r' \<and> \<not> isFull r'"
proof -
  have h: "(0 :: size_t) < 2" by simp
  have n: "min (unat (2 :: size_t)) (length [7, 8, 9 :: int]) = 2"
    and l: "last_n (unat (2 :: size_t)) [7, 8, 9 :: int] = [8, 9]" by (simp_all add: last_n_def)
  show ?thesis using ring_keeps_newest [OF h, of "[7, 8, 9]" "0::int"] by (simp only: n l)
qed

text \<open>
  The constructor accepts capacity 0, but such a buffer cannot be used: it is full and
  empty at once, and the first \<open>put\<close> writes outside the (empty) array.
\<close>

lemma ring_zero_capacity:
  "isFull (new_RingBuffer d 0) \<and> isEmpty (new_RingBuffer d 0) \<and>
   put x (new_RingBuffer d 0) = Inl Out_of_bounds"
  by (simp add: new_RingBuffer_def isFull_def isEmpty_def put_def)

end
