(* ===== verification/IO_Handle.thy ===== *)
theory IO_Handle
  imports Prelude
begin

text \<open>
  \<open>source/file_system/IO_Handle.hpp\<close> and \<open>IO_Handle.cpp\<close>: the move-only owner of a file
  descriptor. The object's \<open>file_name\<close> is a reference (\<open>std::string &\<close>), so the model keeps
  an explicit store: objects live at addresses, and \<open>file_name\<close> is the address of the object
  whose \<open>default_name\<close> it is bound to (every binding in the class is to a \<open>default_name\<close>).
  \<open>fd_log\<close> is the history of descriptors the kernel handed out and of \<open>::close\<close> calls.
\<close>

section \<open>State\<close>

datatype OpType =
    Read | Write | Splice | Tee
  | SRC_SPLICE_PIPE | PIPE_TEE_PIPE | PIPE_SPLICE_PIPE | PIPE_SPLICE_DEST

type_synonym addr = nat

record io_handle =
  default_name :: string
  h_fd :: c_int
  file_name :: addr

datatype fd_event = Opened c_int | Closed c_int

record store =
  handles :: "addr \<Rightarrow> io_handle option"
  fd_log :: "fd_event list"

definition unassigned_fd :: c_int where "unassigned_fd = -1"

definition empty_store :: store where
  "empty_store = \<lparr>handles = Map.empty, fd_log = []\<rparr>"

abbreviation log_event :: "fd_event \<Rightarrow> store \<Rightarrow> store" where
  "log_event e w \<equiv> w\<lparr>fd_log := fd_log w @ [e]\<rparr>"

abbreviation set_handle :: "addr \<Rightarrow> io_handle \<Rightarrow> store \<Rightarrow> store" where
  "set_handle a h w \<equiv> w\<lparr>handles := (handles w)(a \<mapsto> h)\<rparr>"

text \<open>Reading and assigning the string a reference is bound to.\<close>

definition str_get :: "addr \<Rightarrow> store \<Rightarrow> cpp_error + string" where
  "str_get a w = (case handles w a of None \<Rightarrow> Inl Dangling_ref | Some h \<Rightarrow> Inr (default_name h))"

definition str_set :: "addr \<Rightarrow> string \<Rightarrow> store \<Rightarrow> cpp_error + store" where
  "str_set a s w =
     (case handles w a of None \<Rightarrow> Inl Dangling_ref
      | Some h \<Rightarrow> Inr (set_handle a (h\<lparr>default_name := s\<rparr>) w))"

section \<open>Operations\<close>

text \<open>\<open>IO_Handle()\<close> and \<open>IO_Handle(native_handle_type)\<close>, with the default member initialisers.\<close>

definition ctor_default :: "addr \<Rightarrow> store \<Rightarrow> store" where
  "ctor_default a w =
     set_handle a \<lparr>default_name = '''', h_fd = unassigned_fd, file_name = a\<rparr> w"

definition ctor_fd :: "addr \<Rightarrow> c_int \<Rightarrow> store \<Rightarrow> store" where
  "ctor_fd a val w = set_handle a \<lparr>default_name = '''', h_fd = val, file_name = a\<rparr> w"

definition operator_bool :: "addr \<Rightarrow> store \<Rightarrow> cpp_error + bool" where
  "operator_bool a w =
     (case handles w a of None \<Rightarrow> Inl Dangling_ref
      | Some h \<Rightarrow> Inr (\<not> (h_fd h = unassigned_fd)))"

definition native_handle :: "addr \<Rightarrow> store \<Rightarrow> cpp_error + c_int" where
  "native_handle a w =
     (case handles w a of None \<Rightarrow> Inl Dangling_ref | Some h \<Rightarrow> Inr (h_fd h))"

definition close_handle :: "addr \<Rightarrow> store \<Rightarrow> cpp_error + store" where
  "close_handle a w =
     (case handles w a of None \<Rightarrow> Inl Dangling_ref
      | Some h \<Rightarrow> Inr (log_event (Closed (h_fd h)) w))"

text \<open>
  The move constructor takes the descriptor and binds the new object's \<open>file_name\<close> to
  whatever \<open>other.file_name\<close> is bound to.
\<close>

definition move_ctor :: "addr \<Rightarrow> addr \<Rightarrow> store \<Rightarrow> cpp_error + store" where
  "move_ctor a other w =
     (case handles w other of None \<Rightarrow> Inl Dangling_ref
      | Some h \<Rightarrow>
          Inr (set_handle a \<lparr>default_name = '''', h_fd = h_fd h, file_name = file_name h\<rparr>
                 (set_handle other (h\<lparr>h_fd := unassigned_fd\<rparr>) w)))"

text \<open>
  \<open>std::exchange(obj, nv)\<close> moves the old string out (which leaves \<open>obj\<close> empty), then assigns
  \<open>nv\<close>, here the \<open>default_name\<close> of the object at \<open>a\<close>, read after the move.
\<close>

definition exchange_name :: "addr \<Rightarrow> addr \<Rightarrow> store \<Rightarrow> cpp_error + string \<times> store" where
  "exchange_name obj a w =
     (case str_get obj w of Inl e \<Rightarrow> Inl e
      | Inr old \<Rightarrow>
          (case str_set obj '''' w of Inl e \<Rightarrow> Inl e
           | Inr w1 \<Rightarrow>
               (case str_get a w1 of Inl e \<Rightarrow> Inl e
                | Inr nv \<Rightarrow>
                    (case str_set obj nv w1 of Inl e \<Rightarrow> Inl e | Inr w2 \<Rightarrow> Inr (old, w2)))))"

definition move_assign :: "addr \<Rightarrow> addr \<Rightarrow> store \<Rightarrow> cpp_error + store" where
  "move_assign a other w =
     (case (handles w a, handles w other) of
        (Some h, Some ho) \<Rightarrow>
          (let w1 = (if a \<noteq> other
                     then set_handle a (h\<lparr>h_fd := h_fd ho\<rparr>)
                            (set_handle other (ho\<lparr>h_fd := unassigned_fd\<rparr>)
                              (if h_fd h \<noteq> unassigned_fd then log_event (Closed (h_fd h)) w else w))
                     else w)
           in case exchange_name (file_name ho) a w1 of Inl e \<Rightarrow> Inl e
              | Inr (old, w2) \<Rightarrow> str_set (file_name h) old w2)
      | _ \<Rightarrow> Inl Dangling_ref)"

definition dtor :: "addr \<Rightarrow> store \<Rightarrow> cpp_error + store" where
  "dtor a w =
     (case handles w a of None \<Rightarrow> Inl Dangling_ref
      | Some h \<Rightarrow>
          (let w1 = (if h_fd h \<noteq> unassigned_fd then log_event (Closed (h_fd h)) w else w)
           in Inr (w1\<lparr>handles := (handles w1)(a := None)\<rparr>)))"

definition set_name :: "addr \<Rightarrow> string \<Rightarrow> store \<Rightarrow> cpp_error + store" where
  "set_name a file w =
     (case handles w a of None \<Rightarrow> Inl Dangling_ref | Some h \<Rightarrow> str_set (file_name h) file w)"

definition get_name :: "addr \<Rightarrow> store \<Rightarrow> cpp_error + string" where
  "get_name a w =
     (case handles w a of None \<Rightarrow> Inl Dangling_ref | Some h \<Rightarrow> str_get (file_name h) w)"

text \<open>
  \<open>get_file_size\<close> asks the kernel: \<open>fstat\<close> and, for block devices, the \<open>BLKGETSIZE64\<close>
  ioctl, which are parameters (\<open>None\<close> is their failure).
\<close>

datatype file_mode = Regular | Block_device | Other_file

record stat =
  st_mode :: file_mode
  st_size :: off_t

definition get_file_size ::
    "(c_int \<Rightarrow> stat option) \<Rightarrow> (c_int \<Rightarrow> 64 word option) \<Rightarrow> c_int \<Rightarrow> off_t" where
  "get_file_size fstat blkgetsize64 fd =
     (case fstat fd of
        None \<Rightarrow> -1
      | Some st \<Rightarrow>
          if st_mode st = Block_device
          then (case blkgetsize64 fd of None \<Rightarrow> -1 | Some bytes \<Rightarrow> bytes)
          else if st_mode st = Regular then st_size st
          else -1)"

section \<open>Ownership of descriptors\<close>

text \<open>
  The descriptors open after a history, and the histories in which every descriptor handed
  out is new and every \<open>::close\<close> is of an open one (no double close).
\<close>

fun apply_event :: "c_int set \<Rightarrow> fd_event \<Rightarrow> c_int set" where
  "apply_event S (Opened f) = insert f S"
| "apply_event S (Closed f) = S - {f}"

fun event_ok :: "c_int set \<Rightarrow> fd_event \<Rightarrow> bool" where
  "event_ok S (Opened f) = (f \<notin> S)"
| "event_ok S (Closed f) = (f \<in> S)"

fun log_ok :: "c_int set \<Rightarrow> fd_event list \<Rightarrow> bool" where
  "log_ok S [] = True"
| "log_ok S (e # es) = (event_ok S e \<and> log_ok (apply_event S e) es)"

definition open_after :: "fd_event list \<Rightarrow> c_int set" where
  "open_after es = foldl apply_event {} es"

lemma log_ok_snoc: "log_ok S (es @ [e]) = (log_ok S es \<and> event_ok (foldl apply_event S es) e)"
  by (induction es arbitrary: S) auto

lemma open_after_snoc [simp]: "open_after (es @ [e]) = apply_event (open_after es) e"
  by (simp add: open_after_def)

lemma log_ok_empty_snoc [simp]:
  "log_ok {} (es @ [e]) = (log_ok {} es \<and> event_ok (open_after es) e)"
  by (simp add: log_ok_snoc open_after_def)

text \<open>
  Which descriptor an address holds: \<open>unassigned_fd\<close> where there is no object. The
  ownership invariant relates it to the history: open descriptors are exactly the held
  ones, and each is held by one object.
\<close>

definition fds :: "(addr \<Rightarrow> io_handle option) \<Rightarrow> addr \<Rightarrow> c_int" where
  "fds m a = (case m a of None \<Rightarrow> unassigned_fd | Some h \<Rightarrow> h_fd h)"

abbreviation fd_of :: "store \<Rightarrow> addr \<Rightarrow> c_int" where
  "fd_of w \<equiv> fds (handles w)"

lemma fds_Some [simp]: "fds (m(a \<mapsto> h)) = (fds m)(a := h_fd h)"
  by (auto simp: fds_def)

lemma fds_None [simp]: "fds (m(a := None)) = (fds m)(a := unassigned_fd)"
  by (auto simp: fds_def)

lemma fds_dead: "m a = None \<Longrightarrow> fds m a = unassigned_fd"
  by (simp add: fds_def)

lemma fds_live: "m a = Some h \<Longrightarrow> fds m a = h_fd h"
  by (simp add: fds_def)

definition owned_ok :: "(addr \<Rightarrow> c_int) \<Rightarrow> fd_event list \<Rightarrow> bool" where
  "owned_ok g es \<longleftrightarrow>
     log_ok {} es \<and>
     (\<forall>f. f \<in> open_after es \<longleftrightarrow> f \<noteq> unassigned_fd \<and> (\<exists>a. g a = f)) \<and>
     (\<forall>a b. g a = g b \<and> g a \<noteq> unassigned_fd \<longrightarrow> a = b)"

lemma owned_start: "owned_ok (\<lambda>_. unassigned_fd) []"
  by (auto simp: owned_ok_def open_after_def)

lemma owned_open:
  assumes ok: "owned_ok g es" and a: "g a = unassigned_fd"
    and f: "f \<noteq> unassigned_fd" "f \<notin> open_after es"
  shows "owned_ok (g(a := f)) (es @ [Opened f])"
proof -
  from ok f have new: "g c \<noteq> f" for c by (auto simp: owned_ok_def)
  show ?thesis
    using ok a f new unfolding owned_ok_def by (auto split: if_splits) metis
qed

lemma owned_close:
  "owned_ok g es \<Longrightarrow> g a \<noteq> unassigned_fd \<Longrightarrow>
   owned_ok (g(a := unassigned_fd)) (es @ [Closed (g a)])"
  unfolding owned_ok_def by (auto split: if_splits)

lemma owned_transfer:
  assumes ok: "owned_ok g es" and a: "g a = unassigned_fd"
  shows "owned_ok (g(b := unassigned_fd, a := g b)) es"
proof (cases "a = b")
  case True
  with ok a show ?thesis by (simp add: fun_upd_idem)
next
  case False
  let ?g = "g(b := unassigned_fd, a := g b)"
  have ex: "(\<exists>c. ?g c = f) = (\<exists>c. g c = f)" if "f \<noteq> unassigned_fd" for f
  proof
    assume "\<exists>c. g c = f"
    then obtain c where "g c = f" by blast
    with that a have "?g (if c = b then a else c) = f" by auto
    then show "\<exists>c. ?g c = f" by blast
  qed (use that in \<open>auto split: if_splits\<close>)
  have one: "c = d" if "?g c = ?g d" "?g c \<noteq> unassigned_fd" for c d
  proof -
    have inj: "x = y" if "g x = g y" "g x \<noteq> unassigned_fd" for x y
      using ok that unfolding owned_ok_def by blast
    show ?thesis using that inj [of c d] inj [of b d] inj [of c b] by (auto split: if_splits)
  qed
  show ?thesis
    unfolding owned_ok_def
  proof (intro conjI allI impI)
    show "log_ok {} es" using ok by (simp add: owned_ok_def)
    show "f \<in> open_after es \<longleftrightarrow> f \<noteq> unassigned_fd \<and> (\<exists>c. ?g c = f)" for f
      using ok ex [of f] unfolding owned_ok_def by blast
    show "c = d" if "?g c = ?g d \<and> ?g c \<noteq> unassigned_fd" for c d
      using that one by blast
  qed
qed

lemma owned_release_none:
  "owned_ok g es \<Longrightarrow> g a = unassigned_fd \<Longrightarrow> owned_ok (g(a := unassigned_fd)) es"
  by (simp add: fun_upd_idem)

text \<open>Assigning strings moves no descriptor.\<close>

lemma str_set_frame:
  "str_set a s w = Inr w' \<Longrightarrow> fd_of w' = fd_of w \<and> fd_log w' = fd_log w"
  by (auto simp: str_set_def fds_live split: option.splits)

lemma exchange_name_frame:
  "exchange_name obj a w = Inr (old, w') \<Longrightarrow> fd_of w' = fd_of w \<and> fd_log w' = fd_log w"
  by (auto simp: exchange_name_def split: sum.splits dest!: str_set_frame)

text \<open>
  What the program does with handles: default construction, adopting the result of a
  successful \<open>open\<close> or \<open>dup\<close> (a descriptor not open yet) or of a failed one (-1), moves,
  destruction and naming. The public \<open>close()\<close> is not among them; no code of the program
  calls it, and \<open>close_then_destroy\<close> below shows why it must not.
\<close>

inductive handle_step :: "store \<Rightarrow> store \<Rightarrow> bool" where
  step_default: "handles w a = None \<Longrightarrow> handle_step w (ctor_default a w)"
| step_adopt: "handles w a = None \<Longrightarrow> 0 \<le> f \<Longrightarrow> f \<notin> open_after (fd_log w) \<Longrightarrow>
     handle_step w (ctor_fd a f (log_event (Opened f) w))"
| step_adopt_failed: "handles w a = None \<Longrightarrow> handle_step w (ctor_fd a unassigned_fd w)"
| step_move_ctor: "handles w a = None \<Longrightarrow> move_ctor a b w = Inr w' \<Longrightarrow> handle_step w w'"
| step_move_assign: "move_assign a b w = Inr w' \<Longrightarrow> handle_step w w'"
| step_dtor: "dtor a w = Inr w' \<Longrightarrow> handle_step w w'"
| step_set_name: "set_name a s w = Inr w' \<Longrightarrow> handle_step w w'"

definition own_inv :: "store \<Rightarrow> bool" where
  "own_inv w \<longleftrightarrow> owned_ok (fd_of w) (fd_log w)"

lemma own_inv_ctor_default:
  "own_inv w \<Longrightarrow> handles w a = None \<Longrightarrow> own_inv (ctor_default a w)"
  by (simp add: own_inv_def ctor_default_def owned_release_none fds_dead)

lemma own_inv_adopt:
  "own_inv w \<Longrightarrow> handles w a = None \<Longrightarrow> 0 \<le> f \<Longrightarrow> f \<notin> open_after (fd_log w) \<Longrightarrow>
   own_inv (ctor_fd a f (log_event (Opened f) w))"
  by (simp add: own_inv_def ctor_fd_def owned_open fds_dead unassigned_fd_def)

lemma own_inv_move_ctor:
  assumes "own_inv w" "handles w a = None" "move_ctor a b w = Inr w'"
  shows "own_inv w'"
proof -
  from assms(3) obtain h where h: "handles w b = Some h"
    and w': "w' = set_handle a \<lparr>default_name = '''', h_fd = h_fd h, file_name = file_name h\<rparr>
                    (set_handle b (h\<lparr>h_fd := unassigned_fd\<rparr>) w)"
    by (auto simp: move_ctor_def split: option.splits)
  have "fd_of w' = (fd_of w)(b := unassigned_fd, a := fd_of w b)"
    using h by (simp add: w' fds_def)
  moreover have "fd_log w' = fd_log w" by (simp add: w')
  ultimately show ?thesis
    using assms(1,2) by (simp add: own_inv_def owned_transfer fds_dead)
qed

lemma own_inv_release:
  assumes "own_inv w" "handles w a = Some h"
  shows "owned_ok ((fd_of w)(a := unassigned_fd))
           (fd_log (if h_fd h \<noteq> unassigned_fd then log_event (Closed (h_fd h)) w else w))"
  using assms owned_close [of "fd_of w" "fd_log w" a]
  by (auto simp: own_inv_def fds_live owned_release_none)

lemma own_inv_move_assign:
  assumes inv: "own_inv w" and ma: "move_assign a b w = Inr w'"
  shows "own_inv w'"
proof -
  from ma obtain h ho where h: "handles w a = Some h" "handles w b = Some ho"
    by (auto simp: move_assign_def split: option.splits)
  define w1 where "w1 =
    (if a \<noteq> b then set_handle a (h\<lparr>h_fd := h_fd ho\<rparr>) (set_handle b (ho\<lparr>h_fd := unassigned_fd\<rparr>)
       (if h_fd h \<noteq> unassigned_fd then log_event (Closed (h_fd h)) w else w)) else w)"
  from ma h obtain old w2 where "exchange_name (file_name ho) a w1 = Inr (old, w2)"
    "str_set (file_name h) old w2 = Inr w'"
    by (auto simp: move_assign_def w1_def Let_def split: sum.splits)
  then have same: "fd_of w' = fd_of w1" "fd_log w' = fd_log w1"
    by (auto dest!: exchange_name_frame str_set_frame)
  have "owned_ok (fd_of w1) (fd_log w1)"
  proof (cases "a = b")
    case True
    with inv show ?thesis by (simp add: w1_def own_inv_def)
  next
    case False
    let ?g = "(fd_of w)(a := unassigned_fd)"
    have "owned_ok (?g(b := unassigned_fd, a := ?g b)) (fd_log w1)"
      using own_inv_release [OF inv h(1)] False by (intro owned_transfer) (simp_all add: w1_def)
    moreover have "fd_of w1 = ?g(b := unassigned_fd, a := ?g b)"
      using False h by (simp add: w1_def fds_def)
    ultimately show ?thesis by simp
  qed
  then show ?thesis by (simp add: own_inv_def same)
qed

lemma own_inv_dtor:
  assumes "own_inv w" "dtor a w = Inr w'"
  shows "own_inv w'"
proof -
  from assms(2) obtain h where h: "handles w a = Some h"
    by (auto simp: dtor_def split: option.splits)
  have "fd_of w' = (fd_of w)(a := unassigned_fd)"
    using assms(2) h by (auto simp: dtor_def Let_def)
  moreover have "fd_log w' =
      fd_log (if h_fd h \<noteq> unassigned_fd then log_event (Closed (h_fd h)) w else w)"
    using assms(2) h by (auto simp: dtor_def Let_def)
  ultimately show ?thesis using own_inv_release [OF assms(1) h] by (simp add: own_inv_def)
qed

lemma own_inv_set_name: "own_inv w \<Longrightarrow> set_name a s w = Inr w' \<Longrightarrow> own_inv w'"
  by (auto simp: own_inv_def set_name_def split: option.splits dest!: str_set_frame)

lemmas own_inv_intros = own_inv_ctor_default own_inv_adopt own_inv_move_ctor
  own_inv_move_assign own_inv_dtor own_inv_set_name

lemma handle_step_inv: "handle_step w w' \<Longrightarrow> own_inv w \<Longrightarrow> own_inv w'"
proof (induction rule: handle_step.induct)
  case (step_adopt_failed w a)
  then show ?case by (simp add: own_inv_def ctor_fd_def owned_release_none fds_dead)
qed (blast intro: own_inv_intros)+

interpretation handle_system: invariant_system "\<lambda>w. w = empty_store" handle_step own_inv
proof
  fix w assume "w = empty_store"
  moreover have "fd_of empty_store = (\<lambda>_. unassigned_fd)"
    by (auto simp: fds_def empty_store_def)
  ultimately show "own_inv w"
    using owned_start by (simp add: own_inv_def empty_store_def)
qed (rule handle_step_inv)

section \<open>Properties\<close>

text \<open>
  C28: no double close and no shared descriptor. From the empty store, whatever sequence of
  constructions, moves, move assignments, namings and destructions the program performs,
  every \<open>::close\<close> in the history is of a descriptor open at that moment, and no two live
  objects hold the same descriptor.
\<close>

theorem handles_single_owner:
  assumes "handle_step\<^sup>*\<^sup>* empty_store w"
  shows "log_ok {} (fd_log w) \<and>
    (\<forall>a b. fd_of w a = fd_of w b \<and> fd_of w a \<noteq> unassigned_fd \<longrightarrow> a = b)"
  using handle_system.reachable_inv [OF refl assms] by (simp add: own_inv_def owned_ok_def)

text \<open>
  No leak. When all the objects of such a run have been destroyed, every descriptor
  that was opened has been closed.
\<close>

lemma handles_no_leak:
  assumes "handle_step\<^sup>*\<^sup>* empty_store w" and "handles w = Map.empty"
  shows "open_after (fd_log w) = {}"
proof -
  have "fd_of w c = unassigned_fd" for c using assms(2) by (simp add: fds_def)
  moreover have "f \<in> open_after (fd_log w) \<longleftrightarrow> f \<noteq> unassigned_fd \<and> (\<exists>c. fd_of w c = f)" for f
    using handle_system.reachable_inv [OF refl assms(1)] by (simp add: own_inv_def owned_ok_def)
  ultimately show ?thesis by auto
qed

text \<open>A run for the witnesses: adopt 3, move it into a second object, destroy both.\<close>

definition demo_adopted :: store where
  "demo_adopted = ctor_fd 0 3 (log_event (Opened 3) empty_store)"

definition demo_moved :: store where
  "demo_moved = (case move_ctor 1 0 demo_adopted of Inl _ \<Rightarrow> empty_store | Inr w \<Rightarrow> w)"

definition demo_end :: store where
  "demo_end = (case dtor 0 demo_moved of Inl _ \<Rightarrow> empty_store
     | Inr w \<Rightarrow> (case dtor 1 w of Inl _ \<Rightarrow> empty_store | Inr w' \<Rightarrow> w'))"

lemmas demo_defs = demo_adopted_def demo_moved_def demo_end_def empty_store_def ctor_fd_def
  move_ctor_def dtor_def unassigned_fd_def

lemma demo_run_moved: "handle_step\<^sup>*\<^sup>* empty_store demo_moved"
proof -
  have "handle_step empty_store demo_adopted"
    unfolding demo_adopted_def
    by (rule step_adopt) (simp_all add: empty_store_def open_after_def)
  moreover have "handle_step demo_adopted demo_moved"
    by (rule step_move_ctor [of _ 1 0]) (simp_all add: demo_defs)
  ultimately show ?thesis by (rule converse_rtranclp_into_rtranclp [OF _ r_into_rtranclp])
qed

lemma demo_run_end: "handle_step\<^sup>*\<^sup>* empty_store demo_end"
proof -
  obtain w where w: "dtor 0 demo_moved = Inr w" "dtor 1 w = Inr demo_end"
    by (simp add: demo_defs)
  from demo_run_moved have "handle_step\<^sup>*\<^sup>* empty_store w"
    using step_dtor [OF w(1)] by (rule rtranclp.rtrancl_into_rtrancl)
  then show ?thesis using step_dtor [OF w(2)] by (rule rtranclp.rtrancl_into_rtrancl)
qed

theorem handles_single_owner_witness:
  "fd_of demo_moved 0 = -1 \<and> fd_of demo_moved 1 = 3 \<and> log_ok {} (fd_log demo_moved)"
  using handles_single_owner [OF demo_run_moved] by (simp add: demo_defs fds_def)

lemma handles_no_leak_witness:
  "fd_log demo_end = [Opened 3, Closed 3] \<and> open_after (fd_log demo_end) = {}"
  using handles_no_leak [OF demo_run_end] by (simp add: demo_defs)

text \<open>
  \<open>close()\<close> does not reset the descriptor it closes, so the destructor closes it a
  second time: a history the kernel accepted up to the explicit close is no longer
  accepted after the destruction.
\<close>

lemma close_then_destroy:
  assumes "handles w a = Some h" and "h_fd h \<noteq> unassigned_fd"
  shows "\<exists>w' w''. close_handle a w = Inr w' \<and> dtor a w' = Inr w'' \<and>
    fd_log w'' = fd_log w @ [Closed (h_fd h), Closed (h_fd h)] \<and> \<not> log_ok {} (fd_log w'')"
proof -
  have "\<not> log_ok {} ((fd_log w @ [Closed (h_fd h)]) @ [Closed (h_fd h)])"
    unfolding log_ok_empty_snoc open_after_snoc by simp
  with assms show ?thesis by (simp add: close_handle_def dtor_def Let_def)
qed

lemma close_then_destroy_witness:
  "\<exists>w' w''. close_handle 0 demo_adopted = Inr w' \<and> dtor 0 w' = Inr w'' \<and>
     fd_log w'' = [Opened 3, Closed 3, Closed 3] \<and> \<not> log_ok {} (fd_log w'')"
proof -
  have h: "handles demo_adopted 0 = Some \<lparr>default_name = '''', h_fd = 3, file_name = 0\<rparr>"
    "fd_log demo_adopted = [Opened 3]" by (simp_all add: demo_defs)
  show ?thesis using close_then_destroy [OF h(1)] h(2) by (simp add: unassigned_fd_def)
qed

text \<open>
  A moved handle's name dies with the object it was moved from. This is what
  \<open>destination_fds.push_back(std::move(file))\<close> does in \<open>main\<close>: a local object is built on
  a descriptor, named, moved into the vector's element and destroyed. The element owns the
  descriptor, but its \<open>file_name\<close> is bound to the destroyed local's string.
\<close>

lemma moved_name_dangles:
  assumes "a \<noteq> b" and "handles w b = None"
  shows "\<exists>w1 w2 w3. set_name a name (ctor_fd a fd w) = Inr w1 \<and> move_ctor b a w1 = Inr w2 \<and>
    get_name b w2 = Inr name \<and> dtor a w2 = Inr w3 \<and>
    native_handle b w3 = Inr fd \<and> fd_log w3 = fd_log w \<and> get_name b w3 = Inl Dangling_ref"
  using assms by (simp add: ctor_fd_def set_name_def str_set_def move_ctor_def dtor_def
      native_handle_def get_name_def str_get_def)

lemma moved_name_dangles_witness:
  "\<exists>w1 w2 w3. set_name 0 ''out'' (ctor_fd 0 5 empty_store) = Inr w1 \<and> move_ctor 9 0 w1 = Inr w2 \<and>
    get_name 9 w2 = Inr ''out'' \<and> dtor 0 w2 = Inr w3 \<and>
    native_handle 9 w3 = Inr 5 \<and> fd_log w3 = [] \<and> get_name 9 w3 = Inl Dangling_ref"
  using moved_name_dangles [of 0 9 empty_store "''out''" 5] by (simp add: empty_store_def)

text \<open>
  \<open>get_file_size\<close> is the size \<open>fstat\<close> reports for a regular file, the
  \<open>BLKGETSIZE64\<close> value for a block device, and -1 for everything else and for every
  failure of the two calls.
\<close>

lemma get_file_size_cases:
  "get_file_size fstat blk fd =
     (if \<exists>st. fstat fd = Some st \<and> st_mode st = Regular then st_size (the (fstat fd))
      else if (\<exists>st. fstat fd = Some st \<and> st_mode st = Block_device) \<and> blk fd \<noteq> None
      then the (blk fd)
      else -1)"
  by (auto simp: get_file_size_def split: option.splits)

end
