(* ===== verification/Request.thy ===== *)
theory Request
  imports IO_Handle
begin

text \<open>
  \<open>source/Network/Request.hpp\<close> and \<open>Request.cpp\<close>: one queued read or write. \<open>file\<close> is a
  reference to an \<open>IO_Handle\<close>, here the address of the handle.
\<close>

record request =
  req_type :: OpType
  req_buffer :: "byte list"
  req_file :: addr
  bytes_to_write :: size_t

definition new_Request :: "OpType \<Rightarrow> byte list \<Rightarrow> addr \<Rightarrow> size_t \<Rightarrow> request" where
  "new_Request inType data fd write_size =
     \<lparr>req_type = inType, req_buffer = data, req_file = fd, bytes_to_write = write_size\<rparr>"

text \<open>
  \<open>getFile\<close> returns \<open>file\<close> itself as an \<open>int\<close>. The only conversion of an \<open>IO_Handle\<close> to an
  arithmetic type is its non-explicit \<open>operator bool\<close>, whose result is promoted to \<open>int\<close>.
\<close>

definition getFile :: "request \<Rightarrow> store \<Rightarrow> cpp_error + c_int" where
  "getFile q w =
     (case operator_bool (req_file q) w of Inl e \<Rightarrow> Inl e | Inr b \<Rightarrow> Inr (if b then 1 else 0))"

definition getData :: "request \<Rightarrow> byte list" where
  "getData q = req_buffer q"

definition request_bytes :: "request \<Rightarrow> size_t" where
  "request_bytes q = bytes_to_write q"

definition getType :: "request \<Rightarrow> OpType" where
  "getType q = req_type q"

definition getSharedBuffer :: "request \<Rightarrow> byte list" where
  "getSharedBuffer q = req_buffer q"

definition setType :: "OpType \<Rightarrow> request \<Rightarrow> request" where
  "setType new_Type q = q\<lparr>req_type := new_Type\<rparr>"

definition request_name :: "request \<Rightarrow> store \<Rightarrow> cpp_error + string" where
  "request_name q w = get_name (req_file q) w"

section \<open>Properties\<close>

text \<open>
  \<open>Request::getFile\<close> does not return the descriptor of its file. On a live handle it
  returns 1 when a descriptor is assigned and 0 otherwise, so it agrees with
  \<open>native_handle()\<close> exactly when the descriptor happens to be 1 (standard output).
\<close>

lemma getFile_is_not_the_descriptor:
  assumes "handles w (req_file q) = Some h"
  shows "getFile q w = Inr (if h_fd h = unassigned_fd then 0 else 1) \<and>
    (getFile q w = native_handle (req_file q) w) = (h_fd h = 1)"
  using assms by (auto simp: getFile_def operator_bool_def native_handle_def unassigned_fd_def)

lemma getFile_is_not_the_descriptor_witness:
  "getFile (new_Request Write [1, 2] 0 2) (ctor_fd 0 7 empty_store) = Inr 1 \<and>
   getFile (new_Request Write [1, 2] 0 2) (ctor_fd 0 7 empty_store)
     \<noteq> native_handle 0 (ctor_fd 0 7 empty_store)"
  using getFile_is_not_the_descriptor
    [of "ctor_fd 0 7 empty_store" "new_Request Write [1, 2] 0 2"
        "\<lparr>default_name = '''', h_fd = 7, file_name = 0\<rparr>"]
  by (simp add: new_Request_def ctor_fd_def unassigned_fd_def native_handle_def)

end
