(* ===== verification/Manage_Pipe.thy ===== *)
theory Manage_Pipe
  imports Prelude
begin

text \<open>
  \<open>source/file_system/Manage_Pipe.hpp\<close>: a named pipe that exists as long as its object.
  \<open>mkfifo\<close> and \<open>unlink\<close> are the kernel's: parameters over an abstract state, \<open>mkfifo\<close>
  answering \<open>None\<close> for success and \<open>Some errno\<close> for -1.
\<close>

section \<open>Decimal rendering, as \<open>std::format("{}", int)\<close>\<close>

fun show_nat :: "nat \<Rightarrow> string" where
  "show_nat n =
     (if n < 10 then [char_of (48 + n)] else show_nat (n div 10) @ [char_of (48 + n mod 10)])"

declare show_nat.simps [simp del]

definition show_int :: "int \<Rightarrow> string" where
  "show_int i = (if i < 0 then CHR ''-'' # show_nat (nat (- i)) else show_nat (nat i))"

definition read_nat :: "string \<Rightarrow> nat" where
  "read_nat s = foldl (\<lambda>acc c. 10 * acc + (of_char c - 48)) 0 s"

lemma of_char_digit: "d < 10 \<Longrightarrow> of_char (char_of (48 + d) :: char) = (48 + d :: nat)"
  by (simp add: of_char_of)

lemma read_show_nat: "read_nat (show_nat n) = n"
proof (induction n rule: show_nat.induct)
  case (1 n)
  show ?case
  proof (cases "n < 10")
    case True
    then show ?thesis
      by (subst show_nat.simps) (simp add: read_nat_def of_char_digit)
  next
    case False
    with 1 have "read_nat (show_nat (n div 10)) = n div 10" by simp
    with False show ?thesis
      by (subst show_nat.simps) (simp add: read_nat_def of_char_digit)
  qed
qed

lemma show_nat_digits: "c \<in> set (show_nat n) \<Longrightarrow> c \<noteq> CHR ''-''"
proof (induction n rule: show_nat.induct)
  case (1 n)
  have digit: "char_of (48 + d) \<noteq> CHR ''-''" if "d < 10" for d :: nat
  proof
    assume "char_of (48 + d) = CHR ''-''"
    then have "(of_char (char_of (48 + d) :: char) :: nat) = 45" by simp
    with that show False by (simp add: of_char_digit)
  qed
  show ?case
  proof (cases "n < 10")
    case True
    with 1(2) digit [of n] show ?thesis by (subst (asm) show_nat.simps) simp
  next
    case False
    with 1 digit [of "n mod 10"] show ?thesis by (subst (asm) (2) show_nat.simps) auto
  qed
qed

lemma show_nat_inj: "show_nat m = show_nat n \<Longrightarrow> m = n"
  by (metis read_show_nat)

lemma show_nat_not_minus [simp]: "show_nat m \<noteq> CHR ''-'' # s"
proof
  assume "show_nat m = CHR ''-'' # s"
  then have "CHR ''-'' \<in> set (show_nat m)" by simp
  then show False using show_nat_digits by blast
qed

lemmas minus_not_show_nat [simp] = show_nat_not_minus [symmetric]

lemma show_int_inj: "show_int i = show_int j \<Longrightarrow> i = j"
  by (auto simp: show_int_def split: if_splits dest: show_nat_inj)

section \<open>The class\<close>

definition pipe_path :: "string \<Rightarrow> int \<Rightarrow> string" where
  "pipe_path base_path suffix = base_path @ ''_'' @ show_int suffix @ ''.fifo''"

definition new_ManagedPipe ::
    "(string \<Rightarrow> 's \<Rightarrow> c_int option \<times> 's) \<Rightarrow> string \<Rightarrow> int \<Rightarrow> 's \<Rightarrow> (cpp_error + string) \<times> 's" where
  "new_ManagedPipe mkfifo base_path suffix s =
     (case mkfifo (pipe_path base_path suffix) s of
        (None, s') \<Rightarrow> (Inr (pipe_path base_path suffix), s')
      | (Some errno, s') \<Rightarrow>
          if errno \<noteq> EEXIST then (Inl (System_error errno), s')
          else (Inr (pipe_path base_path suffix), s'))"

definition destroy_ManagedPipe :: "(string \<Rightarrow> 's \<Rightarrow> 's) \<Rightarrow> string \<Rightarrow> 's \<Rightarrow> 's" where
  "destroy_ManagedPipe unlink path s = unlink path s"

section \<open>Properties\<close>

text \<open>
  Pipes built from one base path with different suffixes have different names, so the
  \<open>COPIES + 1\<close> pipes \<open>main\<close> numbers 0, 1, 2, ... never share a FIFO.
\<close>

lemma pipe_paths_distinct:
  "pipe_path base i = pipe_path base j \<longleftrightarrow> i = j"
  by (auto simp: pipe_path_def dest: show_int_inj)

text \<open>
  A \<open>ManagedPipe\<close> destroys a file it did not create. \<open>exists\<close> says whether a name is
  taken; the documented behaviour of the two calls is that \<open>mkfifo\<close> on a taken name fails
  with \<open>EEXIST\<close> and changes nothing, and that a name is free after \<open>unlink\<close>. Then
  constructing a \<open>ManagedPipe\<close> on the name of an existing file succeeds without having made
  anything, and destroying it removes that file.
\<close>

lemma managed_pipe_unlinks_existing:
  assumes mkfifo_law: "\<And>p s. exists s p \<Longrightarrow> mkfifo p s = (Some EEXIST, s)"
    and unlink_law: "\<And>p s. \<not> exists (unlink p s) p"
    and taken: "exists s (pipe_path base n)"
  shows "new_ManagedPipe mkfifo base n s = (Inr (pipe_path base n), s) \<and>
    \<not> exists (destroy_ManagedPipe unlink (pipe_path base n) s) (pipe_path base n)"
  using assms by (simp add: new_ManagedPipe_def destroy_ManagedPipe_def)

text \<open>A directory as a map from names to contents, for the witness.\<close>

definition dir_mkfifo ::
    "string \<Rightarrow> (string \<Rightarrow> byte list option) \<Rightarrow> c_int option \<times> (string \<Rightarrow> byte list option)" where
  "dir_mkfifo p d = (if d p \<noteq> None then (Some EEXIST, d) else (None, d(p \<mapsto> [])))"

definition dir_unlink :: "string \<Rightarrow> (string \<Rightarrow> byte list option) \<Rightarrow> (string \<Rightarrow> byte list option)" where
  "dir_unlink p d = d(p := None)"

lemma managed_pipe_unlinks_existing_witness:
  "new_ManagedPipe dir_mkfifo ''out'' 0 [''out_0.fifo'' \<mapsto> [42]]
     = (Inr ''out_0.fifo'', [''out_0.fifo'' \<mapsto> [42]]) \<and>
   destroy_ManagedPipe dir_unlink ''out_0.fifo'' [''out_0.fifo'' \<mapsto> [42]] ''out_0.fifo'' = None"
proof -
  have p: "pipe_path ''out'' 0 = ''out_0.fifo''" by code_simp
  have "dir_mkfifo q d = (Some EEXIST, d)" if "d q \<noteq> None" for q d
    using that by (simp add: dir_mkfifo_def)
  then show ?thesis
    using managed_pipe_unlinks_existing [of "\<lambda>d q. d q \<noteq> None" dir_mkfifo dir_unlink
        "[''out_0.fifo'' \<mapsto> [42]]" "''out''" 0]
    by (simp add: p dir_unlink_def)
qed

end
