(* ===== verification/Posix.thy ===== *)
theory Posix
  imports IO_Handle
begin

text \<open>
  The system calls the read/write engine is written against. They are the kernel's and the C
  library's, not the program's: a record of functions over an abstract state \<open>'s\<close>, which the
  model of the engine takes as an argument. \<open>posix_laws\<close> states the documented behaviour the
  proofs rely on, in terms of what a state means: the contents of the files, the contents of
  the allocated blocks and the set of live blocks. \<open>mem_os\<close> is one concrete implementation,
  on which the laws are proved and the witnesses run.
\<close>

section \<open>The calls\<close>

record iovec =
  iov_base :: ptr
  iov_len :: size_t

text \<open>
  \<open>px_memalign\<close> takes the alignment and the size; the transfers take the descriptor, the
  vector and the file offset, and answer the byte count or a negative error.
\<close>

record 's posix =
  px_fstat :: "'s \<Rightarrow> c_int \<Rightarrow> stat option"
  px_blksize :: "'s \<Rightarrow> c_int \<Rightarrow> 64 word option"
  px_memalign :: "size_t \<Rightarrow> size_t \<Rightarrow> 's \<Rightarrow> ptr option \<times> 's"
  px_free :: "ptr \<Rightarrow> 's \<Rightarrow> 's"
  px_preadv :: "c_int \<Rightarrow> iovec list \<Rightarrow> off_t \<Rightarrow> 's \<Rightarrow> int \<times> 's"
  px_pwritev :: "c_int \<Rightarrow> iovec list \<Rightarrow> off_t \<Rightarrow> 's \<Rightarrow> int \<times> 's"

section \<open>Scatter and gather\<close>

definition iov_total :: "iovec list \<Rightarrow> nat" where
  "iov_total vs = sum_list (map (\<lambda>v. unat (iov_len v)) vs)"

definition gather :: "(ptr \<Rightarrow> byte list) \<Rightarrow> iovec list \<Rightarrow> byte list" where
  "gather m vs = concat (map (\<lambda>v. take (unat (iov_len v)) (m (iov_base v))) vs)"

fun scatter :: "byte list \<Rightarrow> iovec list \<Rightarrow> (ptr \<Rightarrow> byte list) \<Rightarrow> (ptr \<Rightarrow> byte list)" where
  "scatter d [] m = m"
| "scatter d (v # vs) m =
     scatter (drop (unat (iov_len v)) d) vs
       (m(iov_base v := write_at (m (iov_base v)) 0 (take (unat (iov_len v)) d)))"

definition iov_ok :: "(ptr \<Rightarrow> byte list) \<Rightarrow> ptr set \<Rightarrow> iovec list \<Rightarrow> bool" where
  "iov_ok m L vs \<longleftrightarrow>
     distinct (map iov_base vs) \<and>
     (\<forall>v \<in> set vs. iov_base v \<in> L \<and> unat (iov_len v) \<le> length (m (iov_base v)))"

lemma iov_total_simps [simp]:
  "iov_total [] = 0" "iov_total (v # vs) = unat (iov_len v) + iov_total vs"
  by (simp_all add: iov_total_def)

lemma gather_simps [simp]:
  "gather m [] = []" "gather m (v # vs) = take (unat (iov_len v)) (m (iov_base v)) @ gather m vs"
  by (simp_all add: gather_def)

lemma scatter_other: "p \<notin> iov_base ` set vs \<Longrightarrow> scatter d vs m p = m p"
  by (induction vs arbitrary: d m) auto

lemma write_at_0: "length d \<le> length bs \<Longrightarrow> length (write_at bs 0 d) = length bs"
  by (simp add: write_at_def)

text \<open>What was scattered over a vector it fits in is what is gathered from it.\<close>

lemma gather_scatter:
  "iov_ok m L vs \<Longrightarrow> length d = iov_total vs \<Longrightarrow> gather (scatter d vs m) vs = d"
proof (induction vs arbitrary: d m)
  case (Cons v vs)
  let ?n = "unat (iov_len v)"
  let ?m = "m(iov_base v := write_at (m (iov_base v)) 0 (take ?n d))"
  have fresh: "iov_base v \<notin> iov_base ` set vs" using Cons.prems(1) by (auto simp: iov_ok_def)
  have "iov_ok ?m L vs" using Cons.prems(1) fresh by (auto simp: iov_ok_def image_iff)
  then have "gather (scatter (drop ?n d) vs ?m) vs = drop ?n d"
    by (rule Cons.IH) (simp add: Cons.prems(2))
  moreover have "take ?n (write_at (m (iov_base v)) 0 (take ?n d)) = take ?n d"
    using Cons.prems by (auto simp: write_at_def iov_ok_def)
  ultimately show ?case using fresh by (simp add: scatter_other)
qed simp

lemma length_gather: "iov_ok m L vs \<Longrightarrow> length (gather m vs) = iov_total vs"
  by (induction vs) (auto simp: iov_ok_def)

section \<open>Documented behaviour\<close>

text \<open>
  For descriptors of \<open>F\<close>, which name different regular files: \<open>fstat\<close> reports the size;
  an allocation is a fresh block of the size asked for, or a failure that changes nothing;
  \<open>free\<close> ends the life of one block; a transfer moves \<open>n\<close> bytes at the offset, \<open>n\<close> at most
  what was asked for (and, for a read, what the file holds), or fails. A failed transfer
  leaves every other file alone.
\<close>

definition fstat_law :: "'s posix \<Rightarrow> c_int set \<Rightarrow> ('s \<Rightarrow> c_int \<Rightarrow> byte list) \<Rightarrow> bool" where
  "fstat_law px F files \<longleftrightarrow>
     (\<forall>s. \<forall>fd \<in> F. px_fstat px s fd =
        Some \<lparr>st_mode = Regular, st_size = of_nat (length (files s fd))\<rparr>)"

definition memalign_law :: "'s posix \<Rightarrow> ('s \<Rightarrow> c_int \<Rightarrow> byte list) \<Rightarrow>
    ('s \<Rightarrow> ptr \<Rightarrow> byte list) \<Rightarrow> ('s \<Rightarrow> ptr set) \<Rightarrow> bool" where
  "memalign_law px files mem live \<longleftrightarrow>
     (\<forall>al n s r s'. px_memalign px al n s = (r, s') \<longrightarrow>
        files s' = files s \<and>
        (case r of
           None \<Rightarrow> live s' = live s \<and> mem s' = mem s
         | Some p \<Rightarrow> p \<notin> live s \<and> live s' = insert p (live s) \<and> length (mem s' p) = unat n \<and>
             (\<forall>q. q \<noteq> p \<longrightarrow> mem s' q = mem s q)))"

definition free_law :: "'s posix \<Rightarrow> ('s \<Rightarrow> c_int \<Rightarrow> byte list) \<Rightarrow> ('s \<Rightarrow> ptr set) \<Rightarrow> bool" where
  "free_law px files live \<longleftrightarrow>
     (\<forall>p s. p \<in> live s \<longrightarrow>
        files (px_free px p s) = files s \<and> live (px_free px p s) = live s - {p})"

text \<open>\<open>free\<close> leaves the contents of the other blocks alone; only runs side by side need it.\<close>

definition free_frame_law :: "'s posix \<Rightarrow> ('s \<Rightarrow> ptr \<Rightarrow> byte list) \<Rightarrow> ('s \<Rightarrow> ptr set) \<Rightarrow> bool" where
  "free_frame_law px mem live \<longleftrightarrow>
     (\<forall>p s. p \<in> live s \<longrightarrow> (\<forall>q \<in> live s - {p}. mem (px_free px p s) q = mem s q))"

definition preadv_law :: "'s posix \<Rightarrow> c_int set \<Rightarrow> ('s \<Rightarrow> c_int \<Rightarrow> byte list) \<Rightarrow>
    ('s \<Rightarrow> ptr \<Rightarrow> byte list) \<Rightarrow> ('s \<Rightarrow> ptr set) \<Rightarrow> bool" where
  "preadv_law px F files mem live \<longleftrightarrow>
     (\<forall>fd vs off s r s'. fd \<in> F \<longrightarrow> iov_ok (mem s) (live s) vs \<longrightarrow>
        px_preadv px fd vs off s = (r, s') \<longrightarrow>
        files s' = files s \<and> live s' = live s \<and>
        (0 \<le> r \<longrightarrow>
           nat r \<le> min (iov_total vs) (length (files s fd) - unat off) \<and>
           mem s' = scatter (take (nat r) (drop (unat off) (files s fd))) vs (mem s)))"

definition pwritev_law :: "'s posix \<Rightarrow> c_int set \<Rightarrow> ('s \<Rightarrow> c_int \<Rightarrow> byte list) \<Rightarrow>
    ('s \<Rightarrow> ptr \<Rightarrow> byte list) \<Rightarrow> ('s \<Rightarrow> ptr set) \<Rightarrow> bool" where
  "pwritev_law px F files mem live \<longleftrightarrow>
     (\<forall>fd vs off s r s'. fd \<in> F \<longrightarrow> iov_ok (mem s) (live s) vs \<longrightarrow>
        px_pwritev px fd vs off s = (r, s') \<longrightarrow>
        live s' = live s \<and> mem s' = mem s \<and>
        (\<forall>g. g \<noteq> fd \<longrightarrow> files s' g = files s g) \<and>
        (0 \<le> r \<longrightarrow>
           nat r \<le> iov_total vs \<and>
           files s' fd = write_at (files s fd) (unat off) (take (nat r) (gather (mem s) vs))))"

definition posix_laws :: "'s posix \<Rightarrow> c_int set \<Rightarrow> ('s \<Rightarrow> c_int \<Rightarrow> byte list) \<Rightarrow>
    ('s \<Rightarrow> ptr \<Rightarrow> byte list) \<Rightarrow> ('s \<Rightarrow> ptr set) \<Rightarrow> bool" where
  "posix_laws px F files mem live \<longleftrightarrow>
     fstat_law px F files \<and> memalign_law px files mem live \<and> free_law px files live \<and>
     preadv_law px F files mem live \<and> pwritev_law px F files mem live"

text \<open>
  Named assumptions about a run: allocations succeed; transfers do not fail; transfers are
  complete, a read giving all the file holds up to what was asked for and a write taking
  everything.
\<close>

definition alloc_succeeds :: "'s posix \<Rightarrow> bool" where
  "alloc_succeeds px \<longleftrightarrow> (\<forall>al n s. fst (px_memalign px al n s) \<noteq> None)"

definition transfers_succeed :: "'s posix \<Rightarrow> bool" where
  "transfers_succeed px \<longleftrightarrow>
     (\<forall>fd vs off s. 0 \<le> fst (px_preadv px fd vs off s) \<and> 0 \<le> fst (px_pwritev px fd vs off s))"

definition transfers_complete :: "'s posix \<Rightarrow> c_int set \<Rightarrow> ('s \<Rightarrow> c_int \<Rightarrow> byte list) \<Rightarrow> bool" where
  "transfers_complete px F files \<longleftrightarrow>
     (\<forall>fd vs off s. fd \<in> F \<longrightarrow>
        fst (px_preadv px fd vs off s) = int (min (iov_total vs) (length (files s fd) - unat off)) \<and>
        fst (px_pwritev px fd vs off s) = int (iov_total vs))"

text \<open>One allocation, on each of its answers.\<close>

lemma memalign_SomeD:
  assumes "memalign_law px files mem live" "px_memalign px al n s = (Some p, s')"
  shows "files s' = files s \<and> p \<notin> live s \<and> live s' = insert p (live s) \<and>
    length (mem s' p) = unat n \<and> (\<forall>q. q \<noteq> p \<longrightarrow> mem s' q = mem s q)"
  using assms(1) [unfolded memalign_law_def, rule_format, OF assms(2)] by simp

lemma memalign_NoneD:
  assumes "memalign_law px files mem live" "px_memalign px al n s = (None, s')"
  shows "files s' = files s \<and> live s' = live s"
  using assms(1) [unfolded memalign_law_def, rule_format, OF assms(2)] by simp

section \<open>A concrete implementation\<close>

text \<open>Files and blocks as byte lists; every call succeeds and every transfer is complete.\<close>

record mem_state =
  ms_files :: "c_int \<Rightarrow> byte list"
  ms_mem :: "ptr \<Rightarrow> byte list"
  ms_live :: "ptr list"

definition mem_os :: "mem_state posix" where
  "mem_os =
     \<lparr>px_fstat = (\<lambda>s fd. Some \<lparr>st_mode = Regular, st_size = of_nat (length (ms_files s fd))\<rparr>),
      px_blksize = (\<lambda>s fd. None),
      px_memalign = (\<lambda>al n s. let p = Suc (sum_list (ms_live s)) in
         (Some p, s\<lparr>ms_mem := (ms_mem s)(p := replicate (unat n) 0), ms_live := p # ms_live s\<rparr>)),
      px_free = (\<lambda>p s. s\<lparr>ms_live := filter (\<lambda>q. q \<noteq> p) (ms_live s)\<rparr>),
      px_preadv = (\<lambda>fd vs off s.
         let n = min (iov_total vs) (length (ms_files s fd) - unat off) in
         (int n, s\<lparr>ms_mem := scatter (take n (drop (unat off) (ms_files s fd))) vs (ms_mem s)\<rparr>)),
      px_pwritev = (\<lambda>fd vs off s.
         (int (iov_total vs), s\<lparr>ms_files := (ms_files s)(fd :=
            write_at (ms_files s fd) (unat off) (take (iov_total vs) (gather (ms_mem s) vs)))\<rparr>))\<rparr>"

abbreviation mem_live :: "mem_state \<Rightarrow> ptr set" where
  "mem_live s \<equiv> set (ms_live s)"

lemma mem_os_laws: "posix_laws mem_os F ms_files ms_mem mem_live"
proof -
  have fresh: "Suc (sum_list (ps :: nat list)) \<notin> set ps" for ps
    using member_le_sum_list [of "Suc (sum_list ps)" ps] by auto
  have "fstat_law mem_os F ms_files" by (simp add: fstat_law_def mem_os_def)
  moreover have "memalign_law mem_os ms_files ms_mem mem_live"
    using fresh by (auto simp: memalign_law_def mem_os_def Let_def)
  moreover have "free_law mem_os ms_files mem_live"
    by (auto simp: free_law_def mem_os_def)
  moreover have "preadv_law mem_os F ms_files ms_mem mem_live"
    by (auto simp: preadv_law_def mem_os_def Let_def)
  moreover have "pwritev_law mem_os F ms_files ms_mem mem_live"
    by (auto simp: pwritev_law_def mem_os_def Let_def)
  ultimately show ?thesis by (simp add: posix_laws_def)
qed

lemma mem_os_free_frame: "free_frame_law mem_os ms_mem mem_live"
  by (simp add: free_frame_law_def mem_os_def)

lemma mem_os_alloc: "alloc_succeeds mem_os"
  by (simp add: alloc_succeeds_def mem_os_def Let_def)

lemma mem_os_succeed: "transfers_succeed mem_os"
  by (simp add: transfers_succeed_def mem_os_def Let_def)

lemma mem_os_complete: "transfers_complete mem_os F ms_files"
  by (simp add: transfers_complete_def mem_os_def Let_def)

end
