(* ===== verification/Readv_Copy.thy ===== *)
theory Readv_Copy
  imports Posix Chunking
begin

text \<open>
  \<open>submit_read_write\<close> of \<open>source/IOuring/readv_broadcaster.hpp\<close>: copying one file to another
  with \<open>preadv\<close>/\<open>pwritev\<close>, in windows of at most 1024 blocks of 64 KiB.
\<close>

section \<open>The copy loop\<close>

definition CHUNK_SIZE :: size_t where [unfolds]: "CHUNK_SIZE = 64 * 1024"
definition MAX_BLOCKS :: size_t where [unfolds]: "MAX_BLOCKS = 1024"
definition READV_WINDOW :: size_t where [unfolds]: "READV_WINDOW = MAX_BLOCKS * CHUNK_SIZE"

text \<open>\<open>current_window\<close>, \<open>blocks\<close> and \<open>bytes_to_read\<close> of the loop body.\<close>

definition readv_window :: "off_t \<Rightarrow> off_t \<Rightarrow> size_t" where
  "readv_window file_sz total_processed = min READV_WINDOW (file_sz - total_processed)"

definition readv_blocks :: "size_t \<Rightarrow> size_t" where
  "readv_blocks current_window = (current_window + CHUNK_SIZE - 1) div CHUNK_SIZE"

definition block_len :: "size_t \<Rightarrow> nat \<Rightarrow> size_t" where
  "block_len current_window i = min CHUNK_SIZE (current_window - of_nat i * CHUNK_SIZE)"

text \<open>
  The allocation phase, from block \<open>i\<close> on with \<open>n\<close> blocks to go. A failed
  \<open>posix_memalign\<close> returns at once; the blocks allocated before it stay allocated.
\<close>

fun alloc_iovecs :: "'s posix \<Rightarrow> size_t \<Rightarrow> nat \<Rightarrow> nat \<Rightarrow> 's \<Rightarrow> iovec list option \<times> 's" where
  "alloc_iovecs px cw i 0 s = (Some [], s)"
| "alloc_iovecs px cw i (Suc n) s =
     (case px_memalign px 4096 CHUNK_SIZE s of
        (None, s1) \<Rightarrow> (None, s1)
      | (Some p, s1) \<Rightarrow>
          (case alloc_iovecs px cw (Suc i) n s1 of
             (None, s2) \<Rightarrow> (None, s2)
           | (Some vs, s2) \<Rightarrow> (Some (\<lparr>iov_base = p, iov_len = block_len cw i\<rparr> # vs), s2)))"

fun free_iovecs :: "'s posix \<Rightarrow> iovec list \<Rightarrow> 's \<Rightarrow> 's" where
  "free_iovecs px [] s = s"
| "free_iovecs px (v # vs) s = free_iovecs px vs (px_free px (iov_base v) s)"

function readv_loop ::
    "'s posix \<Rightarrow> c_int \<Rightarrow> c_int \<Rightarrow> off_t \<Rightarrow> off_t \<Rightarrow> off_t \<Rightarrow> 's \<Rightarrow> ssize_t \<times> 's" where
  "readv_loop px ifd ofd start_offset file_sz total_processed s =
     (if total_processed <s file_sz then
        (let current_window = readv_window file_sz total_processed;
             blocks = unat (readv_blocks current_window)
         in case alloc_iovecs px current_window 0 blocks s of
              (None, s1) \<Rightarrow> (-1, s1)
            | (Some iovecs, s1) \<Rightarrow>
                (case px_preadv px ifd iovecs (start_offset + total_processed) s1 of
                   (r, s2) \<Rightarrow>
                     if r < 0 then (-1, free_iovecs px iovecs s2)
                     else
                       (case px_pwritev px ofd iovecs (start_offset + total_processed) s2 of
                          (w, s3) \<Rightarrow>
                            if w < 0 then (-1, free_iovecs px iovecs s3)
                            else readv_loop px ifd ofd start_offset file_sz
                                   (total_processed + current_window)
                                   (free_iovecs px iovecs s3))))
      else (total_processed, s))"
  by pat_completeness auto

text \<open>
  The loop stops on every input, whatever the calls answer: the unsigned distance to
  \<open>file_sz\<close> shrinks by the window.
\<close>

lemma readv_window_progress:
  assumes "t <s sz"
  shows "unat (sz - (t + readv_window sz t)) < unat (sz - t)"
proof -
  have "sz - t \<noteq> 0" using assms by auto
  then have pos: "0 < readv_window sz t"
    by (simp add: readv_window_def unfolds word_gt_0)
  then show ?thesis by (rule advance_shrinks) (simp add: readv_window_def)
qed

termination readv_loop
  by (relation "measure (\<lambda>(px, ifd, ofd, st, sz, t, s). unat (sz - t))")
     (auto simp: readv_window_progress)

declare readv_loop.simps [simp del]

definition submit_read_write :: "'s posix \<Rightarrow> c_int \<Rightarrow> c_int \<Rightarrow> off_t \<Rightarrow> 's \<Rightarrow> ssize_t \<times> 's" where
  "submit_read_write px input output start_offset s =
     (let file_sz = get_file_size (px_fstat px s) (px_blksize px s) input in
      if file_sz \<le>s 0 then (0, s)
      else readv_loop px input output start_offset file_sz 0 s)"

section \<open>Windows and blocks\<close>

lemma unat_consts [u64]:
  "unat CHUNK_SIZE = 65536" "unat READV_WINDOW = 67108864"
  by (simp_all add: unfolds)

interpretation rw: chunk_loop readv_window 67108864
proof
  show "unat (readv_window sz t) = min 67108864 (unat sz - unat t)" if "unat t < unat sz" for t sz
    using that by (simp add: readv_window_def u64 unat_minus64)
qed simp

lemma unat_readv_blocks:
  "unat cw \<le> 67108864 \<Longrightarrow> unat (readv_blocks cw) = (unat cw + 65536 - 1) div 65536"
proof -
  assume a: "unat cw \<le> 67108864"
  then have "unat (cw + CHUNK_SIZE) = unat cw + 65536"
    by (simp add: unat_plus64 unat_consts)
  then have "unat (cw + CHUNK_SIZE - 1) = unat cw + 65536 - 1"
    by (simp add: unat_minus64 word_le_unat)
  then show ?thesis by (simp add: readv_blocks_def unat_div unat_consts)
qed

lemma unat_block_len:
  assumes "unat cw \<le> 67108864" "i * 65536 \<le> unat cw"
  shows "unat (block_len cw i) = min 65536 (unat cw - i * 65536)"
proof -
  have "unat (of_nat i * CHUNK_SIZE :: size_t) = i * 65536"
    using assms by (simp add: unfolds unat_word_ariths unat_of_nat take_bit_eq_mod)
  with assms(2) show ?thesis
    by (simp add: block_len_def u64 unat_minus64)
qed

text \<open>The block lengths of a window are the pieces \<open>Chunking.plan\<close> cuts it into.\<close>

lemma block_lens_plan:
  assumes "unat cw \<le> 67108864"
  shows "map (\<lambda>i. unat (block_len cw i)) [0..<unat (readv_blocks cw)] = map snd (plan 65536 (unat cw) 0)"
proof -
  have "unat (block_len cw i) = min 65536 (unat cw - i * 65536)"
    if "i \<in> set [0..<(unat cw + 65536 - 1) div 65536]" for i
  proof (rule unat_block_len [OF assms])
    from that have "Suc i \<le> (unat cw + 65536 - 1) div 65536" by simp
    then have "Suc i * 65536 \<le> unat cw + 65536 - 1"
      by (simp add: less_eq_div_iff_mult_less_eq)
    then show "i * 65536 \<le> unat cw" by simp
  qed
  then show ?thesis
    by (simp add: plan_nth [of 65536 "unat cw" 0] unat_readv_blocks [OF assms] comp_def)
qed

section \<open>One window\<close>

lemma length_scatter:
  "iov_ok m L vs \<Longrightarrow> length (scatter d vs m p) = length (m p)"
proof (induction vs arbitrary: d m)
  case (Cons v vs)
  let ?m = "m(iov_base v := write_at (m (iov_base v)) 0 (take (unat (iov_len v)) d))"
  have len: "length (?m q) = length (m q)" for q
    using Cons.prems by (auto simp: iov_ok_def intro!: write_at_0)
  then have "iov_ok ?m L vs" using Cons.prems by (simp add: iov_ok_def)
  then have "length (scatter (drop (unat (iov_len v)) d) vs ?m p) = length (?m p)"
    by (rule Cons.IH)
  then show ?case by (simp only: scatter.simps len)
qed simp

lemma iov_ok_scatter: "iov_ok m L vs \<Longrightarrow> iov_ok (scatter d vs m) L vs"
  using length_scatter [of m L vs d] by (simp add: iov_ok_def)

lemma alloc_iovecs_Some:
  assumes "memalign_law px files mem live" "alloc_iovecs px cw i n s = (Some vs, s')"
  shows "files s' = files s \<and> live s' = live s \<union> iov_base ` set vs \<and>
    iov_base ` set vs \<inter> live s = {} \<and> distinct (map iov_base vs) \<and>
    map iov_len vs = map (block_len cw) [i..<i + n] \<and>
    (\<forall>v \<in> set vs. length (mem s' (iov_base v)) = 65536) \<and>
    (\<forall>p \<in> live s. mem s' p = mem s p)"
  using assms(2)
proof (induction n arbitrary: i s vs)
  case (Suc n)
  from Suc.prems obtain p s1 vs' where
    p: "px_memalign px 4096 CHUNK_SIZE s = (Some p, s1)"
    and vs': "alloc_iovecs px cw (Suc i) n s1 = (Some vs', s')"
    and vs: "vs = \<lparr>iov_base = p, iov_len = block_len cw i\<rparr> # vs'"
    by (auto split: prod.splits option.splits)
  note m = memalign_SomeD [OF assms(1) p]
  note IH = Suc.IH [OF vs']
  have "map (block_len cw) [i..<i + Suc n] = block_len cw i # map (block_len cw) [Suc i..<Suc i + n]"
    by (simp add: upt_conv_Cons del: upt_Suc)
  with m IH show ?case by (auto simp: vs unat_consts)
qed simp

lemma alloc_iovecs_None:
  assumes "memalign_law px files mem live" "alloc_iovecs px cw i n s = (None, s')"
  shows "files s' = files s \<and> live s \<subseteq> live s'"
  using assms(2)
proof (induction n arbitrary: i s)
  case (Suc n)
  then show ?case
    by (fastforce split: prod.splits option.splits
        dest: memalign_SomeD [OF assms(1)] memalign_NoneD [OF assms(1)])
qed simp

lemma alloc_iovecs_succeeds:
  "alloc_succeeds px \<Longrightarrow> fst (alloc_iovecs px cw i n s) \<noteq> None"
proof (induction n arbitrary: i s)
  case (Suc n)
  obtain r s1 where r: "px_memalign px 4096 CHUNK_SIZE s = (r, s1)" by fastforce
  with Suc.prems have "r \<noteq> None" by (metis alloc_succeeds_def fst_conv)
  moreover obtain r' s2 where r': "alloc_iovecs px cw (Suc i) n s1 = (r', s2)" by fastforce
  with Suc.IH [OF Suc.prems, of "Suc i" s1] have "r' \<noteq> None" by simp
  ultimately show ?case using r r' by auto
qed simp

lemma free_iovecs_live:
  assumes "free_law px files live"
  shows "distinct (map iov_base vs) \<Longrightarrow> iov_base ` set vs \<subseteq> live s \<Longrightarrow>
    files (free_iovecs px vs s) = files s \<and>
    live (free_iovecs px vs s) = live s - iov_base ` set vs"
proof (induction vs arbitrary: s)
  case (Cons v vs)
  let ?s = "px_free px (iov_base v) s"
  have s1: "files ?s = files s" "live ?s = live s - {iov_base v}"
    using assms Cons.prems(2) by (simp_all add: free_law_def)
  have "files (free_iovecs px vs ?s) = files ?s \<and>
      live (free_iovecs px vs ?s) = live ?s - iov_base ` set vs"
    by (rule Cons.IH) (use Cons.prems s1 in \<open>auto simp: image_iff\<close>)
  with s1 show ?case by auto
qed simp

text \<open>A window's vector is well formed and holds exactly the window.\<close>

lemma iovs_window:
  assumes lens: "map iov_len vs = map (block_len cw) [0..<unat (readv_blocks cw)]"
    and blocks: "distinct (map iov_base vs)" "\<forall>v \<in> set vs. length (m (iov_base v)) = 65536"
      "iov_base ` set vs \<subseteq> L"
    and cw: "unat cw \<le> 67108864"
  shows "iov_ok m L vs" and "iov_total vs = unat cw"
proof -
  have "unat (iov_len v) \<le> 65536" if "v \<in> set vs" for v
  proof -
    have "iov_len v \<in> set (map (block_len cw) [0..<unat (readv_blocks cw)])"
      using lens that by (metis image_eqI list.set_map)
    then show ?thesis by (auto simp: block_len_def u64 unat_consts)
  qed
  with blocks show "iov_ok m L vs" by (auto simp: iov_ok_def)
  have "map (\<lambda>v. unat (iov_len v)) vs = map unat (map iov_len vs)" by (simp add: comp_def)
  also have "\<dots> = map snd (plan 65536 (unat cw) 0)"
    unfolding lens using block_lens_plan [OF cw] by (simp add: comp_def)
  finally show "iov_total vs = unat cw" by (simp add: iov_total_def plan_sum)
qed

lemma window_iov:
  assumes "memalign_law px files mem live"
    and "alloc_iovecs px cw 0 (unat (readv_blocks cw)) s = (Some vs, s1)"
    and "unat cw \<le> 67108864"
  shows "iov_ok (mem s1) (live s1) vs" and "iov_total vs = unat cw"
proof -
  note a = alloc_iovecs_Some [OF assms(1,2)]
  have "map iov_len vs = map (block_len cw) [0..<unat (readv_blocks cw)]" "distinct (map iov_base vs)"
    "\<forall>v \<in> set vs. length (mem s1 (iov_base v)) = 65536" "iov_base ` set vs \<subseteq> live s1" using a by auto
  from iovs_window [OF this assms(3)] show "iov_ok (mem s1) (live s1) vs" "iov_total vs = unat cw" .
qed

text \<open>
  One pass through the loop body with both transfers successful: the window is freed again
  and only the output changes.
\<close>

lemma window_pass:
  assumes laws: "posix_laws px F files mem live" and fds: "ifd \<in> F" "ofd \<in> F"
    and cw: "unat cw \<le> 67108864"
    and a: "alloc_iovecs px cw 0 (unat (readv_blocks cw)) s = (Some vs, s1)"
    and r: "px_preadv px ifd vs off s1 = (r, s2)" "0 \<le> r"
    and w: "px_pwritev px ofd vs off s2 = (w, s3)"
  shows "live (free_iovecs px vs s3) = live s"
    and "g \<noteq> ofd \<Longrightarrow> files (free_iovecs px vs s3) g = files s g"
    and "nat r = unat cw \<Longrightarrow> w = int (unat cw) \<Longrightarrow>
      files (free_iovecs px vs s3) ofd =
        write_at (files s ofd) (unat off) (take (unat cw) (drop (unat off) (files s ifd)))"
    and "nat r = unat cw \<Longrightarrow> unat cw \<le> length (files s ifd) - unat off"
proof -
  have l: "memalign_law px files mem live" "free_law px files live"
    "preadv_law px F files mem live" "pwritev_law px F files mem live"
    using laws by (auto simp: posix_laws_def)
  note al = alloc_iovecs_Some [OF l(1) a]
  note ok = window_iov [OF l(1) a cw]
  have p: "files s2 = files s1" "live s2 = live s1"
    "nat r \<le> min (iov_total vs) (length (files s1 ifd) - unat off)"
    "mem s2 = scatter (take (nat r) (drop (unat off) (files s1 ifd))) vs (mem s1)"
    using l(3) [unfolded preadv_law_def, rule_format, OF fds(1) ok(1) r(1)] r(2) by simp_all
  have ok2: "iov_ok (mem s2) (live s2) vs"
    using iov_ok_scatter [OF ok(1)] p(2,4) by simp
  have q: "live s3 = live s2" "\<And>g. g \<noteq> ofd \<Longrightarrow> files s3 g = files s2 g"
    "0 \<le> w \<Longrightarrow> files s3 ofd = write_at (files s2 ofd) (unat off) (take (nat w) (gather (mem s2) vs))"
    using l(4) [unfolded pwritev_law_def, rule_format, OF fds(2) ok2 w] by simp_all
  have "iov_base ` set vs \<subseteq> live s3" using al p(2) q(1) by auto
  then have f: "files (free_iovecs px vs s3) = files s3"
    "live (free_iovecs px vs s3) = live s3 - iov_base ` set vs"
    using al free_iovecs_live [OF l(2), of vs s3] by simp_all
  have "live s1 = live s \<union> iov_base ` set vs" "iov_base ` set vs \<inter> live s = {}"
    using al by simp_all
  then show "live (free_iovecs px vs s3) = live s" unfolding f(2) q(1) p(2) by auto
  show "files (free_iovecs px vs s3) g = files s g" if "g \<noteq> ofd"
    using f(1) q(2) [OF that] p(1) al by simp
  show "unat cw \<le> length (files s ifd) - unat off" if "nat r = unat cw"
    using p(3) that al by simp
  show "files (free_iovecs px vs s3) ofd =
        write_at (files s ofd) (unat off) (take (unat cw) (drop (unat off) (files s ifd)))"
    if n: "nat r = unat cw" "w = int (unat cw)"
  proof -
    have "gather (mem s2) vs = take (nat r) (drop (unat off) (files s1 ifd))"
      unfolding p(4) using ok p(3) n by (intro gather_scatter) simp_all
    then show ?thesis using f(1) q(3) n p(1) al by simp
  qed
qed

text \<open>A failed read: the window is freed and no file has changed.\<close>

lemma failed_read:
  assumes laws: "posix_laws px F files mem live" and fd: "ifd \<in> F"
    and cw: "unat cw \<le> 67108864"
    and a: "alloc_iovecs px cw 0 (unat (readv_blocks cw)) s = (Some vs, s1)"
    and r: "px_preadv px ifd vs off s1 = (r, s2)"
  shows "live (free_iovecs px vs s2) = live s \<and> files (free_iovecs px vs s2) = files s"
proof -
  have l: "memalign_law px files mem live" "free_law px files live" "preadv_law px F files mem live"
    using laws by (auto simp: posix_laws_def)
  note al = alloc_iovecs_Some [OF l(1) a]
  note ok = window_iov [OF l(1) a cw]
  have p: "files s2 = files s1" "live s2 = live s1"
    using l(3) [unfolded preadv_law_def, rule_format, OF fd ok(1) r] by simp_all
  have "iov_base ` set vs \<subseteq> live s2" using al p(2) by auto
  then have f: "files (free_iovecs px vs s2) = files s2"
    "live (free_iovecs px vs s2) = live s2 - iov_base ` set vs"
    using al free_iovecs_live [OF l(2), of vs s2] by simp_all
  have "live s1 = live s \<union> iov_base ` set vs" "iov_base ` set vs \<inter> live s = {}"
    using al by simp_all
  then have "live (free_iovecs px vs s2) = live s" unfolding f(2) p(2) by auto
  with f(1) p(1) al show ?thesis by simp
qed

section \<open>The whole loop\<close>

text \<open>
  The loop unfolded once, for a file size that is not negative and an offset inside it; the
  comparison is then between \<open>nat\<close>s.
\<close>

lemma readv_loop_done: "\<not> t <s sz \<Longrightarrow> readv_loop px ifd ofd st sz t s = (t, s)"
  by (subst readv_loop.simps) simp

lemma readv_loop_step:
  assumes "t <s sz" "alloc_iovecs px (readv_window sz t) 0 (unat (readv_blocks (readv_window sz t))) s = (Some vs, s1)"
    "px_preadv px ifd vs (st + t) s1 = (r, s2)" "0 \<le> r"
    "px_pwritev px ofd vs (st + t) s2 = (w, s3)" "0 \<le> w"
  shows "readv_loop px ifd ofd st sz t s =
    readv_loop px ifd ofd st sz (t + readv_window sz t) (free_iovecs px vs s3)"
  using assms by (subst readv_loop.simps) (simp add: Let_def)

lemma alloc_obtain:
  assumes "alloc_succeeds px"
  obtains vs s1 where "alloc_iovecs px cw i n s = (Some vs, s1)"
  using alloc_iovecs_succeeds [OF assms, of cw i n s] by (metis not_None_eq prod.collapse)

text \<open>
  Whatever the transfers move or answer, only the output file changes, and with successful
  allocations every block is freed on every path out of the loop.
\<close>

lemma readv_loop_frame:
  assumes laws: "posix_laws px F files mem live" and fds: "ifd \<in> F" "ofd \<in> F"
    and alloc: "alloc_succeeds px" and sz: "0 \<le>s sz"
  shows "0 \<le>s t \<Longrightarrow> readv_loop px ifd ofd st sz t s = (ret, s') \<Longrightarrow>
    live s' = live s \<and> (\<forall>g. g \<noteq> ofd \<longrightarrow> files s' g = files s g)"
proof (induction "unat (sz - t)" arbitrary: t s rule: less_induct)
  case less
  show ?case
  proof (cases "t <s sz")
    case False
    with less.prems show ?thesis by (simp add: readv_loop_done)
  next
    case True
    let ?cw = "readv_window sz t"
    from True sz less.prems(1) have lt: "unat t < unat sz" by (simp add: sless_unat64)
    have cw: "unat ?cw \<le> 67108864" using rw.step_le [OF lt] .
    obtain vs s1 where a: "alloc_iovecs px ?cw 0 (unat (readv_blocks ?cw)) s = (Some vs, s1)"
      using alloc by (rule alloc_obtain)
    obtain r s2 where r: "px_preadv px ifd vs (st + t) s1 = (r, s2)" by fastforce
    obtain w s3 where w: "px_pwritev px ofd vs (st + t) s2 = (w, s3)" by fastforce
    show ?thesis
    proof (cases "r < 0")
      case True
      have s': "s' = free_iovecs px vs s2"
        using less.prems(2) \<open>t <s sz\<close> a r True by (subst (asm) readv_loop.simps) (simp add: Let_def)
      show ?thesis unfolding s' using failed_read [OF laws fds(1) cw a r] by simp
    next
      case False
      note pass = window_pass [OF laws fds cw a r _ w]
      from False have s: "live (free_iovecs px vs s3) = live s"
        "\<And>g. g \<noteq> ofd \<Longrightarrow> files (free_iovecs px vs s3) g = files s g"
        using pass(1,2) by simp_all
      show ?thesis
      proof (cases "w < 0")
        case True
        have "s' = free_iovecs px vs s3"
          using less.prems(2) \<open>t <s sz\<close> a r False w True
          by (subst (asm) readv_loop.simps) (simp add: Let_def)
        with s show ?thesis by simp
      next
        case False
        have "0 \<le>s t + ?cw"
          using rw.advance_le [OF lt] sz by (simp add: nonneg_iff_unat64)
        moreover have "readv_loop px ifd ofd st sz (t + ?cw) (free_iovecs px vs s3) = (ret, s')"
          using less.prems(2) readv_loop_step [OF \<open>t <s sz\<close> a r _ w] \<open>\<not> r < 0\<close> False by simp
        ultimately have "live s' = live (free_iovecs px vs s3) \<and>
          (\<forall>g. g \<noteq> ofd \<longrightarrow> files s' g = files (free_iovecs px vs s3) g)"
          by (intro less.hyps) (simp_all add: readv_window_progress [OF \<open>t <s sz\<close>])
        with s show ?thesis by simp
      qed
    qed
  qed
qed

text \<open>With complete transfers the loop copies the rest of the file and returns its size.\<close>

lemma readv_loop_copies:
  assumes laws: "posix_laws px F files mem live" and fds: "ifd \<in> F" "ofd \<in> F" "ifd \<noteq> ofd"
    and alloc: "alloc_succeeds px" and full: "transfers_complete px F files"
    and sz: "0 \<le>s sz" and len: "length src = unat sz"
  shows "unat t \<le> unat sz \<Longrightarrow> files s ifd = src \<Longrightarrow>
    files s ofd = take (unat t) src @ drop (unat t) old \<Longrightarrow>
    \<exists>s'. readv_loop px ifd ofd 0 sz t s = (sz, s') \<and>
      files s' ofd = src @ drop (length src) old \<and> live s' = live s \<and>
      (\<forall>g. g \<noteq> ofd \<longrightarrow> files s' g = files s g)"
proof (induction "unat (sz - t)" arbitrary: t s rule: less_induct)
  case less
  have t0: "0 \<le>s t" using less.prems(1) sz by (simp add: nonneg_iff_unat64)
  show ?case
  proof (cases "t <s sz")
    case False
    with t0 sz less.prems(1) have "t = sz" by (simp add: sless_unat64 word_unat_eq_iff)
    with False less.prems len show ?thesis by (simp add: readv_loop_done)
  next
    case True
    let ?cw = "readv_window sz t"
    from True sz t0 have lt: "unat t < unat sz" by (simp add: sless_unat64)
    have cw: "unat ?cw \<le> 67108864" using rw.step_le [OF lt] .
    obtain vs s1 where a: "alloc_iovecs px ?cw 0 (unat (readv_blocks ?cw)) s = (Some vs, s1)"
      using alloc by (rule alloc_obtain)
    have l: "memalign_law px files mem live" using laws by (simp add: posix_laws_def)
    have tot: "iov_total vs = unat ?cw" using window_iov [OF l a cw] by simp
    have fit: "unat ?cw \<le> length src - unat t" using len by (simp add: rw.step [OF lt])
    obtain r s2 where r: "px_preadv px ifd vs (0 + t) s1 = (r, s2)" by fastforce
    obtain w s3 where w: "px_pwritev px ofd vs (0 + t) s2 = (w, s3)" by fastforce
    have "files s1 ifd = src" using alloc_iovecs_Some [OF l a] less.prems(2) by simp
    then have r': "r = int (unat ?cw)"
      using full fds(1) r tot fit unfolding transfers_complete_def
      by (metis add_0 fst_conv min_absorb1)
    have w': "w = int (unat ?cw)"
      using full fds(2) w tot unfolding transfers_complete_def by (metis fst_conv)
    let ?s = "free_iovecs px vs s3"
    note pass = window_pass [OF laws fds(1,2) cw a r _ w]
    have adv: "unat (t + ?cw) = unat t + unat ?cw"
      using rw.unat_advance [OF lt] rw.step [OF lt] by simp
    let ?d = "take (unat ?cw) (drop (unat t) src)"
    have "files ?s ofd = write_at (files s ofd) (unat t) ?d"
      using pass(3) r' w' less.prems(2) by simp
    also have "\<dots> = take (unat t + length ?d) src @ drop (unat t + length ?d) old"
      unfolding less.prems(3) using fit lt len by (intro write_at_overlay) simp_all
    finally have out: "files ?s ofd = take (unat (t + ?cw)) src @ drop (unat (t + ?cw)) old"
      using fit by (simp add: adv)
    have "files ?s ifd = src" using pass(2) r' fds(3) less.prems(2) by simp
    moreover have "unat (t + ?cw) \<le> unat sz" using rw.advance_le [OF lt] .
    ultimately obtain s' where "readv_loop px ifd ofd 0 sz (t + ?cw) ?s = (sz, s')"
      "files s' ofd = src @ drop (length src) old" "live s' = live ?s"
      "\<forall>g. g \<noteq> ofd \<longrightarrow> files s' g = files ?s g"
      using less.hyps [of "t + ?cw" ?s] readv_window_progress [OF True] out by blast
    moreover have "readv_loop px ifd ofd 0 sz t s = readv_loop px ifd ofd 0 sz (t + ?cw) ?s"
      using readv_loop_step [OF True a r _ w] r' w' by simp
    ultimately show ?thesis using pass(1,2) r' by simp
  qed
qed

text \<open>What the loop returns, whatever the calls do.\<close>

lemma readv_loop_result:
  assumes sz: "0 \<le>s sz"
  shows "unat t \<le> unat sz \<Longrightarrow>
    fst (readv_loop px ifd ofd st sz t s) = sz \<or>
    (fst (readv_loop px ifd ofd st sz t s) = -1 \<and>
     \<not> (alloc_succeeds px \<and> transfers_succeed px))"
proof (induction "unat (sz - t)" arbitrary: t s rule: less_induct)
  case less
  have t0: "0 \<le>s t" using less.prems(1) sz by (simp add: nonneg_iff_unat64)
  show ?case
  proof (cases "t <s sz")
    case False
    with t0 sz less.prems(1) have "t = sz" by (simp add: sless_unat64 word_unat_eq_iff)
    with False show ?thesis by (simp add: readv_loop_done)
  next
    case True
    let ?cw = "readv_window sz t"
    from True sz t0 have lt: "unat t < unat sz" by (simp add: sless_unat64)
    obtain v s1 where a: "alloc_iovecs px ?cw 0 (unat (readv_blocks ?cw)) s = (v, s1)" by fastforce
    show ?thesis
    proof (cases v)
      case None
      then have "\<not> alloc_succeeds px"
        using a alloc_iovecs_succeeds [of px ?cw 0 "unat (readv_blocks ?cw)" s] by auto
      with True a None show ?thesis by (subst (1 2) readv_loop.simps) (simp add: Let_def)
    next
      case (Some vs)
      obtain r s2 where r: "px_preadv px ifd vs (st + t) s1 = (r, s2)" by fastforce
      obtain w s3 where w: "px_pwritev px ofd vs (st + t) s2 = (w, s3)" by fastforce
      show ?thesis
      proof (cases "0 \<le> r \<and> 0 \<le> w")
        case True
        then have "readv_loop px ifd ofd st sz t s =
          readv_loop px ifd ofd st sz (t + ?cw) (free_iovecs px vs s3)"
          using readv_loop_step [OF \<open>t <s sz\<close> a [unfolded Some] r _ w] by simp
        then show ?thesis
          using less.hyps [of "t + ?cw" "free_iovecs px vs s3"] rw.advance_le [OF lt]
            readv_window_progress [OF \<open>t <s sz\<close>] by simp
      next
        case False
        then have "\<not> transfers_succeed px"
          using r w unfolding transfers_succeed_def by (metis fst_conv)
        with False \<open>t <s sz\<close> a r w Some show ?thesis
          by (subst (1 2) readv_loop.simps) (auto simp: Let_def)
      qed
    qed
  qed
qed

text \<open>The whole function, in the form the tree broadcast uses.\<close>

lemma submit_read_write_correct:
  assumes "posix_laws px F files mem live" and "input \<in> F" "output \<in> F" "input \<noteq> output"
    and "alloc_succeeds px" and "transfers_complete px F files"
    and size: "length (files s input) < 9223372036854775808"
  shows "\<exists>s'. submit_read_write px input output 0 s = (of_nat (length (files s input)), s') \<and>
    files s' output = files s input @ drop (length (files s input)) (files s output) \<and>
    live s' = live s \<and> (\<forall>g. g \<noteq> output \<longrightarrow> files s' g = files s g)"
proof -
  let ?sz = "of_nat (length (files s input)) :: off_t"
  have gfs: "get_file_size (px_fstat px s) (px_blksize px s) input = ?sz"
    using assms(1,2) by (simp add: posix_laws_def fstat_law_def get_file_size_def)
  have u: "unat ?sz = length (files s input)"
    using size by (simp add: unat_of_nat take_bit_eq_mod)
  have nn: "0 \<le>s ?sz" using size by (simp add: nonneg_iff_unat64 u)
  show ?thesis
  proof (cases "?sz \<le>s 0")
    case True
    with nn have "unat ?sz = 0"
      using sless_unat64 [of 0 ?sz] by (simp add: signed.not_less [symmetric])
    with u True show ?thesis by (simp add: submit_read_write_def gfs)
  next
    case False
    then show ?thesis
      using readv_loop_copies [OF assms(1-6) nn u [symmetric], of 0 s "files s output"]
      by (simp add: submit_read_write_def gfs)
  qed
qed

text \<open>On every path, the other files are left alone and what was allocated is freed.\<close>

lemma submit_read_write_keeps:
  assumes "posix_laws px F files mem live" and "input \<in> F" "output \<in> F"
    and "alloc_succeeds px"
  shows "live (snd (submit_read_write px input output start_offset s)) = live s \<and>
    (\<forall>g. g \<noteq> output \<longrightarrow>
       files (snd (submit_read_write px input output start_offset s)) g = files s g)"
proof (cases "get_file_size (px_fstat px s) (px_blksize px s) input \<le>s 0")
  case True
  then show ?thesis by (simp add: submit_read_write_def)
next
  case False
  then have "0 \<le>s get_file_size (px_fstat px s) (px_blksize px s) input"
    by (simp add: signed.not_le signed.less_imp_le)
  then have "let r = readv_loop px input output start_offset
        (get_file_size (px_fstat px s) (px_blksize px s) input) 0 s
      in live (snd r) = live s \<and> (\<forall>g. g \<noteq> output \<longrightarrow> files (snd r) g = files s g)"
    unfolding Let_def
    by (rule readv_loop_frame [OF assms(1-4) _ signed.order_refl prod.collapse [symmetric]])
  with False show ?thesis by (simp add: submit_read_write_def Let_def)
qed

section \<open>Properties\<close>

text \<open>
  C33: every window fits one vectored call. At any point of the loop the window ends inside
  the file, is cut into 1 to 1024 blocks (IOV_MAX), each of 1 to \<open>CHUNK_SIZE\<close> bytes, and the
  blocks add up to the window.
\<close>

theorem readv_window_fits:
  assumes "0 \<le>s t" and "t <s sz"
  defines "cw \<equiv> readv_window sz t"
  shows "unat t + unat cw \<le> unat sz \<and>
    1 \<le> unat (readv_blocks cw) \<and> unat (readv_blocks cw) \<le> 1024 \<and>
    (\<forall>i < unat (readv_blocks cw). 0 < unat (block_len cw i) \<and> block_len cw i \<le> CHUNK_SIZE) \<and>
    (\<Sum>i \<leftarrow> [0..<unat (readv_blocks cw)]. unat (block_len cw i)) = unat cw"
proof -
  have "0 \<le>s sz" using assms(1,2) by (meson signed.less_imp_le signed.order_trans)
  with assms have lt: "unat t < unat sz" by (simp add: sless_unat64)
  have cw: "unat cw \<le> 67108864" "0 < unat cw"
    unfolding cw_def using rw.step_le [OF lt] rw.step_pos [OF lt] by simp_all
  have lens: "map (\<lambda>i. unat (block_len cw i)) [0..<unat (readv_blocks cw)] =
      map snd (plan 65536 (unat cw) 0)" by (rule block_lens_plan [OF cw(1)])
  have "0 < unat (block_len cw i) \<and> unat (block_len cw i) \<le> 65536"
    if "i < unat (readv_blocks cw)" for i
  proof -
    from that have "unat (block_len cw i) \<in> set (map snd (plan 65536 (unat cw) 0))"
      unfolding lens [symmetric] by auto
    then show ?thesis using plan_pieces [of _ _ 65536 "unat cw" 0] by force
  qed
  moreover have "1 \<le> unat (readv_blocks cw)" "unat (readv_blocks cw) \<le> 1024"
    unfolding unat_readv_blocks [OF cw(1)] using cw by simp_all
  moreover have "(\<Sum>i \<leftarrow> [0..<unat (readv_blocks cw)]. unat (block_len cw i)) = unat cw"
    unfolding lens by (simp add: plan_sum)
  moreover have "unat t + unat cw \<le> unat sz"
    unfolding cw_def using rw.advance_le [OF lt] rw.unat_advance [OF lt] rw.step [OF lt] by simp
  ultimately show ?thesis by (simp add: word_le_unat unat_consts)
qed

theorem readv_window_fits_witness:
  "unat (readv_blocks (readv_window 200000 0)) = 4 \<and>
   (\<Sum>i \<leftarrow> [0..<unat (readv_blocks (readv_window 200000 0))].
      unat (block_len (readv_window 200000 0) i)) = 200000"
proof -
  have w: "readv_window 200000 0 = 200000" by (simp add: readv_window_def unfolds)
  have "(0 :: off_t) \<le>s 0" "(0 :: off_t) <s 200000" by code_simp+
  from readv_window_fits [OF this] show ?thesis
    unfolding w using unat_readv_blocks [of 200000] by simp
qed

definition demo_os :: mem_state where
  "demo_os = \<lparr>ms_files = (\<lambda>_. [])(3 := [1, 2, 3], 4 := [9, 9, 9, 9, 9]), ms_mem = (\<lambda>_. []), ms_live = []\<rparr>"

lemma submit_read_write_correct_witness:
  "\<exists>s'. submit_read_write mem_os 3 4 0 demo_os = (3, s') \<and>
     ms_files s' 4 = [1, 2, 3, 9, 9] \<and> mem_live s' = {}"
  using submit_read_write_correct [OF mem_os_laws [of UNIV] _ _ _ mem_os_alloc mem_os_complete,
      of 3 4 demo_os] by (auto simp: demo_os_def)

text \<open>An implementation whose writes report 0 bytes, and one with room for a single block.\<close>

definition lazy_os :: "mem_state posix" where
  "lazy_os = mem_os\<lparr>px_pwritev := (\<lambda>fd vs off s. (0, s))\<rparr>"

definition scarce_os :: "mem_state posix" where
  "scarce_os = mem_os\<lparr>px_memalign := (\<lambda>al n s.
     if ms_live s = [] then px_memalign mem_os al n s else (None, s))\<rparr>"

lemma lazy_os_laws: "posix_laws lazy_os F ms_files ms_mem mem_live"
proof -
  have "fstat_law lazy_os F ms_files = fstat_law mem_os F ms_files"
    "memalign_law lazy_os ms_files ms_mem mem_live = memalign_law mem_os ms_files ms_mem mem_live"
    "free_law lazy_os ms_files mem_live = free_law mem_os ms_files mem_live"
    "preadv_law lazy_os F ms_files ms_mem mem_live = preadv_law mem_os F ms_files ms_mem mem_live"
    by (simp_all add: fstat_law_def memalign_law_def free_law_def preadv_law_def lazy_os_def)
  moreover have "pwritev_law lazy_os F ms_files ms_mem mem_live"
    by (auto simp: pwritev_law_def lazy_os_def)
  ultimately show ?thesis using mem_os_laws [of F] by (simp add: posix_laws_def)
qed

lemma lazy_os_succeeds: "alloc_succeeds lazy_os" "transfers_succeed lazy_os"
  using mem_os_alloc mem_os_succeed
  by (simp_all add: alloc_succeeds_def transfers_succeed_def lazy_os_def)

lemma scarce_os_laws: "memalign_law scarce_os ms_files ms_mem mem_live" "fstat_law scarce_os F ms_files"
  using mem_os_laws [of F]
  by (auto simp: posix_laws_def fstat_law_def memalign_law_def scarce_os_def split: if_splits)

lemma submit_read_write_keeps_witness:
  "mem_live (snd (submit_read_write lazy_os 3 4 0 demo_os)) = {} \<and>
   ms_files (snd (submit_read_write lazy_os 3 4 0 demo_os)) 3 = [1, 2, 3]"
  using submit_read_write_keeps [OF lazy_os_laws [of UNIV] _ _ lazy_os_succeeds(1), of 3 4 0 demo_os]
  by (simp add: demo_os_def)

text \<open>
  The result says whether a call failed, not how much was copied. For a non-empty file
  the function returns the file size or -1, and -1 only if an allocation or a transfer can
  fail; for an empty file, or one whose size is unknown, it returns 0.
\<close>

lemma submit_read_write_result:
  "let sz = get_file_size (px_fstat px s) (px_blksize px s) input;
       ret = fst (submit_read_write px input output start_offset s)
   in (sz \<le>s 0 \<and> ret = 0) \<or> (0 <s sz \<and> ret = sz) \<or>
      (0 <s sz \<and> ret = -1 \<and> \<not> (alloc_succeeds px \<and> transfers_succeed px))"
  using readv_loop_result [of "get_file_size (px_fstat px s) (px_blksize px s) input" 0 px]
  by (auto simp: submit_read_write_def Let_def signed.not_le signed.less_imp_le)

text \<open>
  Short transfers go unnoticed. On an implementation that meets the documented behaviour
  and whose \<open>pwritev\<close> accepts no bytes (it reports 0, not an error), copying a 3-byte file
  reports 3 bytes copied and leaves the output as it was.
\<close>

lemma short_write_unnoticed:
  "posix_laws lazy_os UNIV ms_files ms_mem mem_live \<and>
   fst (submit_read_write lazy_os 3 4 0 demo_os) = 3 \<and>
   ms_files (snd (submit_read_write lazy_os 3 4 0 demo_os)) 4 = ms_files demo_os 4"
proof -
  have g: "get_file_size (px_fstat lazy_os demo_os) (px_blksize lazy_os demo_os) 3 = 3"
    by (simp add: get_file_size_def lazy_os_def mem_os_def demo_os_def)
  have s: "(0 :: off_t) <s 3" "\<not> (3 :: off_t) \<le>s 0" by code_simp+
  have w: "readv_window 3 0 = 3" by (simp add: readv_window_def unfolds)
  have b: "unat (readv_blocks 3) = Suc 0" using unat_readv_blocks [of 3] by simp
  have "submit_read_write lazy_os 3 4 0 demo_os = readv_loop lazy_os 3 4 0 3 0 demo_os"
    using s by (simp add: submit_read_write_def g)
  also have "\<exists>s'. readv_loop lazy_os 3 4 0 3 0 demo_os = (3, s') \<and> ms_files s' 4 = ms_files demo_os 4"
    by (subst readv_loop.simps)
       (simp add: s w b readv_loop_done lazy_os_def mem_os_def Let_def)
  finally show ?thesis using lazy_os_laws by auto
qed

text \<open>
  A failed allocation leaks. When the file needs more than one block and the second
  \<open>posix_memalign\<close> of the first window fails, the function returns -1 and the first block
  is still allocated.
\<close>

lemma failed_allocation_leaks:
  assumes "memalign_law px files mem live" and "fstat_law px F files" "ifd \<in> F"
    and first: "px_memalign px 4096 CHUNK_SIZE s = (Some p, s1)"
    and second: "px_memalign px 4096 CHUNK_SIZE s1 = (None, s2)"
    and big: "65536 < length (files s ifd)" "length (files s ifd) < 9223372036854775808"
  shows "submit_read_write px ifd ofd start_offset s = (-1, s2) \<and>
    p \<notin> live s \<and> live s2 = insert p (live s)"
proof -
  let ?sz = "of_nat (length (files s ifd)) :: off_t"
  have gfs: "get_file_size (px_fstat px s) (px_blksize px s) ifd = ?sz"
    using assms(2,3) by (simp add: fstat_law_def get_file_size_def)
  have u: "unat ?sz = length (files s ifd)"
    using big(2) by (simp add: unat_of_nat take_bit_eq_mod)
  have lt: "unat (0 :: off_t) < unat ?sz" unfolding u using big(1) by (cases "files s ifd") simp_all
  have nn: "0 \<le>s ?sz" using big(2) by (simp add: nonneg_iff_unat64 u)
  have pos: "0 <s ?sz" using lt by (simp only: sless_unat64 [OF signed.order_refl nn])
  let ?cw = "readv_window ?sz 0"
  have cw: "unat ?cw = min 67108864 (length (files s ifd))" using rw.step [OF lt] u by simp
  have "2 \<le> unat (readv_blocks ?cw)"
    unfolding unat_readv_blocks [of ?cw, unfolded cw, OF min.cobounded1] using big(1) by simp
  then obtain n where n: "unat (readv_blocks ?cw) = Suc (Suc n)"
    by (metis add_2_eq_Suc le_Suc_ex)
  have "submit_read_write px ifd ofd start_offset s = (-1, s2)"
    using pos first second n
    by (subst submit_read_write_def, subst readv_loop.simps) (simp add: gfs Let_def signed.not_le)
  then show ?thesis
    using memalign_SomeD [OF assms(1) first] memalign_NoneD [OF assms(1) second] by simp
qed

lemma failed_allocation_leaks_witness:
  "fst (submit_read_write scarce_os 3 4 0 (demo_os\<lparr>ms_files := \<lambda>_. replicate 70000 0\<rparr>)) = -1 \<and>
   mem_live (snd (submit_read_write scarce_os 3 4 0 (demo_os\<lparr>ms_files := \<lambda>_. replicate 70000 0\<rparr>))) = {1}"
proof -
  let ?s = "demo_os\<lparr>ms_files := \<lambda>_. replicate 70000 0\<rparr>"
  obtain s1 where f: "px_memalign scarce_os 4096 CHUNK_SIZE ?s = (Some 1, s1)"
    "px_memalign scarce_os 4096 CHUNK_SIZE s1 = (None, s1)"
    by (simp add: scarce_os_def mem_os_def demo_os_def Let_def)
  from failed_allocation_leaks [OF scarce_os_laws(1) scarce_os_laws(2) [of UNIV] _ f, where ifd = 3 and ofd = 4
      and start_offset = 0]
  show ?thesis by (simp add: demo_os_def)
qed

end
