(* ===== verification/Readv_Broadcast.thy ===== *)
theory Readv_Broadcast
  imports Readv_Copy "HOL-Library.Log_Nat" "HOL-Library.Multiset"
begin

text \<open>
  \<open>perform_readv_broadcast\<close> of \<open>source/IOuring/readv_broadcaster.hpp\<close>: a binomial tree of file
  copies. In round \<open>r\<close>, with stride \<open>2 ^ r\<close>, node \<open>i < 2 ^ r\<close> copies its file to node
  \<open>i + 2 ^ r\<close>; node 0 is the input, node \<open>k\<close> is output \<open>k - 1\<close>. The iterations of a round
  run on an OpenMP team, so their order is a parameter: \<open>sched r\<close> lists the iterations of
  round \<open>r\<close> in the order they run. An iteration is one step; two iterations of a round write
  to different files and read only files no iteration of that round writes to. The C++
  \<open>int\<close>s here are node numbers and stay below the number of outputs, so they are \<open>nat\<close>s.
\<close>

section \<open>The tree\<close>

text \<open>\<open>std::ceil(std::log2(total_nodes))\<close>, which doubles compute exactly for 32-bit arguments.\<close>

definition total_rounds :: "nat \<Rightarrow> nat" where
  "total_rounds total_nodes = ceillog2 total_nodes"


text \<open>One iteration of the parallel loop: what it adds to \<open>data_transfer\<close>.\<close>

definition tree_copy ::
    "'s posix \<Rightarrow> c_int \<Rightarrow> c_int list \<Rightarrow> nat \<Rightarrow> nat \<Rightarrow> nat \<Rightarrow> 's \<Rightarrow> (cpp_error + size_t) \<times> 's" where
  "tree_copy px inp outs total_nodes stride i s =
     (let sender_id = i; receiver_id = i + stride in
      if receiver_id < total_nodes then
        (case index_at outs (receiver_id - 1) of
           Inl e \<Rightarrow> (Inl e, s)
         | Inr dest \<Rightarrow>
             if sender_id = 0 then
               (case submit_read_write px inp dest 0 s of (n, s') \<Rightarrow> (Inr n, s'))
             else
               (case index_at outs (sender_id - 1) of
                  Inl e \<Rightarrow> (Inl e, s)
                | Inr sfd \<Rightarrow>
                    (case submit_read_write px sfd dest 0 s of (n, s') \<Rightarrow> (Inr n, s'))))
      else (Inr 0, s))"

fun tree_round ::
    "'s posix \<Rightarrow> c_int \<Rightarrow> c_int list \<Rightarrow> nat \<Rightarrow> nat \<Rightarrow> nat list \<Rightarrow> size_t \<Rightarrow> 's \<Rightarrow> (cpp_error + size_t) \<times> 's" where
  "tree_round px inp outs total_nodes stride [] data_transfer s = (Inr data_transfer, s)"
| "tree_round px inp outs total_nodes stride (i # is) data_transfer s =
     (case tree_copy px inp outs total_nodes stride i s of
        (Inl e, s') \<Rightarrow> (Inl e, s')
      | (Inr n, s') \<Rightarrow> tree_round px inp outs total_nodes stride is (data_transfer + n) s')"

text \<open>The sequential loop over the rounds, \<open>k\<close> of them from \<open>r\<close> on.\<close>

fun tree_rounds ::
    "'s posix \<Rightarrow> c_int \<Rightarrow> c_int list \<Rightarrow> nat \<Rightarrow> (nat \<Rightarrow> nat list) \<Rightarrow> nat \<Rightarrow> nat \<Rightarrow> size_t \<Rightarrow> 's \<Rightarrow>
      (cpp_error + size_t) \<times> 's" where
  "tree_rounds px inp outs total_nodes sched r 0 data_transfer s = (Inr data_transfer, s)"
| "tree_rounds px inp outs total_nodes sched r (Suc k) data_transfer s =
     (case tree_round px inp outs total_nodes (2 ^ r) (sched r) data_transfer s of
        (Inl e, s') \<Rightarrow> (Inl e, s')
      | (Inr n, s') \<Rightarrow> tree_rounds px inp outs total_nodes sched (Suc r) k n s')"

definition perform_readv_broadcast ::
    "'s posix \<Rightarrow> (nat \<Rightarrow> nat list) \<Rightarrow> c_int \<Rightarrow> c_int list \<Rightarrow> 's \<Rightarrow> (cpp_error + ssize_t) \<times> 's" where
  "perform_readv_broadcast px sched root_input output_files s =
     (let total_nodes = length output_files + 1 in
      tree_rounds px root_input output_files total_nodes sched 0 (total_rounds total_nodes) 0 s)"

text \<open>The schedules OpenMP can choose: each iteration of each round once, in some order.\<close>

definition omp_schedule :: "(nat \<Rightarrow> nat list) \<Rightarrow> bool" where
  "omp_schedule sched \<longleftrightarrow> (\<forall>r. mset (sched r) = mset [0..<2 ^ r])"

lemma omp_scheduleD:
  "omp_schedule sched \<Longrightarrow> set (sched r) = {0..<2 ^ r}"
  "omp_schedule sched \<Longrightarrow> distinct (sched r)"
proof -
  assume "omp_schedule sched"
  then have m: "mset (sched r) = mset [0..<2 ^ r]" by (simp add: omp_schedule_def)
  from mset_eq_setD [OF m] show "set (sched r) = {0..<2 ^ r}" by simp
  from mset_eq_imp_distinct_iff [OF m] show "distinct (sched r)" by simp
qed

lemma total_rounds_cover: "n \<le> 2 ^ total_rounds n"
  by (simp add: total_rounds_def le_two_power_ceillog2)

lemma total_rounds_used: "r < total_rounds n \<Longrightarrow> 2 ^ r < n"
proof -
  assume "r < total_rounds n"
  then have "\<not> total_rounds n \<le> r" by simp
  then show ?thesis
    by (cases "n = 0") (simp_all add: total_rounds_def ceillog2_le_iff)
qed

section \<open>Nodes\<close>

abbreviation node :: "c_int \<Rightarrow> c_int list \<Rightarrow> nat \<Rightarrow> c_int" where
  "node inp outs k \<equiv> (inp # outs) ! k"

text \<open>An iteration copies from node to node; neither index is ever out of range.\<close>

lemma tree_copy_nodes:
  assumes "i < stride"
  shows "tree_copy px inp outs (Suc (length outs)) stride i s =
    (if i + stride \<le> length outs
     then (case submit_read_write px (node inp outs i) (node inp outs (i + stride)) 0 s of
             (n, s') \<Rightarrow> (Inr n, s'))
     else (Inr 0, s))"
  using assms by (auto simp: tree_copy_def index_at_def nth_Cons' Let_def less_Suc_eq_le)

lemma tree_round_in_bounds:
  "(\<forall>i \<in> set is. i < stride) \<Longrightarrow> \<exists>n s'. tree_round px inp outs (Suc (length outs)) stride is d s = (Inr n, s')"
  by (induction "is" arbitrary: d s)
     (auto simp: tree_copy_nodes simp del: One_nat_def add_Suc_right split: prod.splits)

lemma tree_rounds_in_bounds:
  assumes "omp_schedule sched"
  shows "\<exists>n s'. tree_rounds px inp outs (Suc (length outs)) sched r k d s = (Inr n, s')"
proof (induction k arbitrary: r d s)
  case (Suc k)
  have "\<forall>i \<in> set (sched r). i < 2 ^ r" using omp_scheduleD(1) [OF assms, of r] by simp
  from tree_round_in_bounds [OF this, of px inp outs d s] Suc.IH show ?case by auto
qed simp

section \<open>Delivery\<close>

text \<open>
  The state of the tree: the nodes of \<open>H\<close> hold the input's bytes \<open>d\<close>, the other outputs are
  as they were, every other file too, and no block is allocated that was not before.
\<close>

definition tree_inv :: "('s \<Rightarrow> c_int \<Rightarrow> byte list) \<Rightarrow> ('s \<Rightarrow> ptr set) \<Rightarrow> c_int \<Rightarrow> c_int list \<Rightarrow>
    's \<Rightarrow> nat set \<Rightarrow> 's \<Rightarrow> bool" where
  "tree_inv files live inp outs s0 H s \<longleftrightarrow>
     live s = live s0 \<and>
     (\<forall>k \<le> length outs. files s (node inp outs k) =
        (if k \<in> H then files s0 inp else files s0 (node inp outs k))) \<and>
     (\<forall>g. g \<notin> set (inp # outs) \<longrightarrow> files s g = files s0 g)"

text \<open>What the theorems about delivery assume, once.\<close>

definition tree_ready :: "'s posix \<Rightarrow> c_int set \<Rightarrow> ('s \<Rightarrow> c_int \<Rightarrow> byte list) \<Rightarrow>
    ('s \<Rightarrow> ptr \<Rightarrow> byte list) \<Rightarrow> ('s \<Rightarrow> ptr set) \<Rightarrow> c_int \<Rightarrow> c_int list \<Rightarrow> 's \<Rightarrow> bool" where
  "tree_ready px F files mem live inp outs s0 \<longleftrightarrow>
     posix_laws px F files mem live \<and> set (inp # outs) \<subseteq> F \<and> distinct (inp # outs) \<and>
     length (files s0 inp) < 9223372036854775808 \<and>
     (\<forall>out \<in> set outs. length (files s0 out) \<le> length (files s0 inp))"

lemma tree_ready_node:
  assumes "tree_ready px F files mem live inp outs s0" "k \<le> length outs"
  shows "node inp outs k \<in> F" "length (files s0 (node inp outs k)) \<le> length (files s0 inp)"
proof -
  have "node inp outs k \<in> set (inp # outs)" using assms(2) by (intro nth_mem) simp
  with assms(1) show "node inp outs k \<in> F"
    "length (files s0 (node inp outs k)) \<le> length (files s0 inp)"
    by (auto simp: tree_ready_def)
qed

lemma tree_ready_node_eq:
  assumes "tree_ready px F files mem live inp outs s0" "j \<le> length outs" "k \<le> length outs"
  shows "node inp outs j = node inp outs k \<longleftrightarrow> j = k"
  using assms nth_eq_iff_index_eq [of "inp # outs" j k] by (simp add: tree_ready_def)

lemma tree_copy_delivers:
  assumes ready: "tree_ready px F files mem live inp outs s0"
    and ok: "alloc_succeeds px" "transfers_complete px F files"
    and inv: "tree_inv files live inp outs s0 H s"
    and i: "i \<in> H" "i < stride" "i + stride \<le> length outs"
  shows "\<exists>s'. tree_copy px inp outs (Suc (length outs)) stride i s =
      (Inr (of_nat (length (files s0 inp))), s') \<and>
    tree_inv files live inp outs s0 (insert (i + stride) H) s'"
proof -
  let ?a = "node inp outs i" and ?b = "node inp outs (i + stride)"
  have le: "i \<le> length outs" using i by simp
  have laws: "posix_laws px F files mem live"
    and size: "length (files s0 inp) < 9223372036854775808"
    using ready by (simp_all add: tree_ready_def)
  have a: "files s ?a = files s0 inp" using inv i le by (simp add: tree_inv_def)
  have "files s ?b = files s0 inp \<or> files s ?b = files s0 ?b"
    using inv i(3) unfolding tree_inv_def by meson
  then have b: "length (files s ?b) \<le> length (files s0 inp)"
    using tree_ready_node(2) [OF ready i(3)] by auto
  have ne: "?a \<noteq> ?b" using tree_ready_node_eq [OF ready le i(3)] i(2) by simp
  from submit_read_write_correct [OF laws tree_ready_node(1) [OF ready le]
      tree_ready_node(1) [OF ready i(3)] ne ok, of s] a size
  obtain s' where s': "submit_read_write px ?a ?b 0 s = (of_nat (length (files s0 inp)), s')"
    "files s' ?b = files s0 inp @ drop (length (files s0 inp)) (files s ?b)"
    "live s' = live s" "\<And>g. g \<noteq> ?b \<Longrightarrow> files s' g = files s g" by auto
  have fb: "files s' ?b = files s0 inp" using s'(2) b by simp
  have "files s' (node inp outs k) =
      (if k \<in> insert (i + stride) H then files s0 inp else files s0 (node inp outs k))"
    if k: "k \<le> length outs" for k
  proof (cases "k = i + stride")
    case True
    then show ?thesis using fb by simp
  next
    case False
    then have "node inp outs k \<noteq> ?b" using tree_ready_node_eq [OF ready k i(3)] by simp
    with s'(4) inv k False show ?thesis by (simp add: tree_inv_def)
  qed
  moreover have "files s' g = files s0 g" if "g \<notin> set (inp # outs)" for g
  proof -
    have "?b \<in> set (inp # outs)" using i(3) by (intro nth_mem) simp
    with that have "g \<noteq> ?b" by blast
    with s'(4) inv that show ?thesis by (simp add: tree_inv_def)
  qed
  ultimately have "tree_inv files live inp outs s0 (insert (i + stride) H) s'"
    using s'(3) inv by (simp only: tree_inv_def) simp
  moreover have "tree_copy px inp outs (Suc (length outs)) stride i s =
      (Inr (of_nat (length (files s0 inp))), s')"
    by (simp only: tree_copy_nodes [OF i(2)] s'(1) i(3) if_True prod.case)
  ultimately show ?thesis by blast
qed

lemma tree_round_delivers:
  assumes ready: "tree_ready px F files mem live inp outs s0"
    and ok: "alloc_succeeds px" "transfers_complete px F files"
  shows "tree_inv files live inp outs s0 H s \<Longrightarrow> \<forall>i \<in> set is. i < stride \<and> i \<in> H \<Longrightarrow>
    \<exists>s'. tree_round px inp outs (Suc (length outs)) stride is d s =
        (Inr (d + of_nat (length (filter (\<lambda>i. i + stride \<le> length outs) is)) *
              of_nat (length (files s0 inp))), s') \<and>
      tree_inv files live inp outs s0 (H \<union> {i + stride |i. i \<in> set is \<and> i + stride \<le> length outs}) s'"
proof (induction "is" arbitrary: H d s)
  case Nil
  then show ?case by simp
next
  case (Cons i "is")
  show ?case
  proof (cases "i + stride \<le> length outs")
    case True
    from tree_copy_delivers [OF ready ok Cons.prems(1) _ _ True] Cons.prems(2) obtain s1 where
      s1: "tree_copy px inp outs (Suc (length outs)) stride i s = (Inr (of_nat (length (files s0 inp))), s1)"
        "tree_inv files live inp outs s0 (insert (i + stride) H) s1" by auto
    let ?E = "{j + stride |j. j \<in> set is \<and> j + stride \<le> length outs}"
    have "insert (i + stride) H \<union> ?E =
        H \<union> {j + stride |j. j \<in> set (i # is) \<and> j + stride \<le> length outs}" using True by auto
    with Cons.IH [OF s1(2), of "d + of_nat (length (files s0 inp))"] Cons.prems(2) s1(1) True
    show ?thesis by (simp add: algebra_simps)
  next
    case False
    then have "tree_copy px inp outs (Suc (length outs)) stride i s = (Inr 0, s)"
      using Cons.prems(2) by (simp add: tree_copy_nodes)
    moreover have "{j + stride |j. j \<in> set (i # is) \<and> j + stride \<le> length outs} =
        {j + stride |j. j \<in> set is \<and> j + stride \<le> length outs}" using False by auto
    ultimately show ?thesis using Cons.IH [OF Cons.prems(1), of d] Cons.prems(2) False by simp
  qed
qed

text \<open>
  After round \<open>r\<close> the nodes below \<open>2 ^ (r + 1)\<close> hold the data, and one copy has been counted
  for each of them but the input.
\<close>

lemma filter_less_upt: "filter (\<lambda>i. i < m) [0..<s] = [0..<min s m]"
  by (induction s) (auto simp: min_def not_less_eq_eq dest: le_antisym)

lemma filter_below: "length (filter (\<lambda>i. i + stride \<le> n) [0..<stride]) = min stride (Suc n - stride)"
proof -
  have "filter (\<lambda>i. i + stride \<le> n) [0..<stride] = filter (\<lambda>i. i < Suc n - stride) [0..<stride]"
    by (rule filter_cong) auto
  then show ?thesis by (simp only: filter_less_upt length_upt diff_zero)
qed

lemma omp_filter_length:
  assumes "omp_schedule sched"
  shows "length (filter P (sched r)) = length (filter P [0..<2 ^ r])"
proof -
  have "mset (filter P (sched r)) = mset (filter P [0..<2 ^ r])"
    using assms by (simp only: omp_schedule_def mset_filter)
  then show ?thesis by (rule mset_eq_length)
qed

lemma tree_rounds_deliver:
  assumes ready: "tree_ready px F files mem live inp outs s0"
    and ok: "alloc_succeeds px" "transfers_complete px F files"
    and sched: "omp_schedule sched"
  shows "tree_inv files live inp outs s0 {..<2 ^ r} s \<Longrightarrow>
    \<exists>s'. tree_rounds px inp outs (Suc (length outs)) sched r k
          (of_nat (min (2 ^ r) (Suc (length outs)) - 1) * of_nat (length (files s0 inp))) s =
        (Inr (of_nat (min (2 ^ (r + k)) (Suc (length outs)) - 1) * of_nat (length (files s0 inp))), s') \<and>
      tree_inv files live inp outs s0 {..<2 ^ (r + k)} s'"
proof (induction k arbitrary: r s)
  case 0
  then show ?case by simp
next
  case (Suc k)
  let ?n = "length outs" and ?L = "of_nat (length (files s0 inp)) :: size_t"
  let ?d = "of_nat (min (2 ^ r) (Suc ?n) - 1) * ?L"
  have set: "set (sched r) = {0..<2 ^ r}" by (rule omp_scheduleD [OF sched])
  then have "\<forall>i \<in> set (sched r). i < 2 ^ r \<and> i \<in> {..<2 ^ r}" by simp
  from tree_round_delivers [OF ready ok Suc.prems this, of ?d] obtain s1 where
    s1: "tree_round px inp outs (Suc ?n) (2 ^ r) (sched r) ?d s =
        (Inr (?d + of_nat (length (filter (\<lambda>i. i + 2 ^ r \<le> ?n) (sched r))) * ?L), s1)"
      "tree_inv files live inp outs s0
        ({..<2 ^ r} \<union> {i + 2 ^ r |i. i \<in> set (sched r) \<and> i + 2 ^ r \<le> ?n}) s1" by blast
  have cnt: "length (filter (\<lambda>i. i + 2 ^ r \<le> ?n) (sched r)) = min (2 ^ r) (Suc ?n - 2 ^ r)"
    by (simp only: omp_filter_length [OF sched] filter_below)
  have "min (2 ^ r) (Suc ?n) - 1 + min (2 ^ r) (Suc ?n - 2 ^ r) = min (2 ^ Suc r) (Suc ?n) - (1::nat)"
    using one_le_power [of "2::nat" r] by (auto simp: min_def)
  then have d: "?d + of_nat (min (2 ^ r) (Suc ?n - 2 ^ r)) * ?L = of_nat (min (2 ^ Suc r) (Suc ?n) - 1) * ?L"
    by (simp only: distrib_right [symmetric] of_nat_add [symmetric])
  have H: "k \<in> {..<2 ^ r} \<union> {i + 2 ^ r |i. i \<in> set (sched r) \<and> i + 2 ^ r \<le> ?n} \<longleftrightarrow> k \<in> {..<2 ^ Suc r}"
    if "k \<le> ?n" for k
  proof (cases "k < 2 ^ r")
    case False
    then have "k = k - 2 ^ r + 2 ^ r" by simp
    with False that show ?thesis unfolding set by auto
  qed simp
  have inv1: "tree_inv files live inp outs s0 {..<2 ^ Suc r} s1"
    using s1(2) H by (simp only: tree_inv_def) simp
  from Suc.IH [OF inv1] obtain s' where
    "tree_rounds px inp outs (Suc ?n) sched (Suc r) k (of_nat (min (2 ^ Suc r) (Suc ?n) - 1) * ?L) s1 =
        (Inr (of_nat (min (2 ^ (Suc r + k)) (Suc ?n) - 1) * ?L), s')"
      "tree_inv files live inp outs s0 {..<2 ^ (Suc r + k)} s'" by blast
  then show ?case by (simp only: tree_rounds.simps s1(1) cnt d prod.case sum.case add_Suc_right add_Suc) blast
qed

section \<open>When reading fails\<close>

text \<open>
  A copy whose reads fail answers -1 if its input has bytes and 0 if it has none, and
  leaves the files alone.
\<close>

definition reads_fail :: "'s posix \<Rightarrow> bool" where
  "reads_fail px \<longleftrightarrow> (\<forall>fd vs off s. fst (px_preadv px fd vs off s) < 0)"

lemma submit_read_write_fails:
  assumes laws: "posix_laws px F files mem live" and fds: "inp \<in> F"
    and alloc: "alloc_succeeds px" and fail: "reads_fail px"
    and size: "length (files s inp) < 9223372036854775808"
  shows "\<exists>s'. submit_read_write px inp out st s = (if files s inp = [] then 0 else -1, s') \<and>
    files s' = files s"
proof -
  let ?sz = "of_nat (length (files s inp)) :: off_t"
  have gfs: "get_file_size (px_fstat px s) (px_blksize px s) inp = ?sz"
    using laws fds by (simp add: posix_laws_def fstat_law_def get_file_size_def)
  have u: "unat ?sz = length (files s inp)"
    using size by (simp add: unat_of_nat take_bit_eq_mod)
  have nn: "0 \<le>s ?sz" using size by (simp add: nonneg_iff_unat64 u)
  show ?thesis
  proof (cases "files s inp = []")
    case True
    then show ?thesis by (simp add: submit_read_write_def gfs)
  next
    case False
    then have pos: "0 <s ?sz" using nn u by (simp only: sless_unat64 [OF signed.order_refl nn]) simp
    then have lt: "unat (0 :: off_t) < unat ?sz" by (simp only: sless_unat64 [OF signed.order_refl nn])
    let ?cw = "readv_window ?sz 0"
    obtain vs s1 where a: "alloc_iovecs px ?cw 0 (unat (readv_blocks ?cw)) s = (Some vs, s1)"
      using alloc by (rule alloc_obtain)
    obtain r s2 where r: "px_preadv px inp vs (st + 0) s1 = (r, s2)" by fastforce
    have "r < 0" using fail r unfolding reads_fail_def by (metis fst_conv)
    then have "submit_read_write px inp out st s = (-1, free_iovecs px vs s2)"
      using pos a r by (subst submit_read_write_def, subst readv_loop.simps) (simp add: gfs Let_def signed.not_le)
    moreover have "files (free_iovecs px vs s2) = files s"
      using failed_read [OF laws fds rw.step_le [OF lt] a r] by simp
    ultimately show ?thesis using False by simp
  qed
qed

lemma tree_round_fails:
  assumes laws: "posix_laws px F files mem live" and fds: "set (inp # outs) \<subseteq> F"
    and alloc: "alloc_succeeds px" and fail: "reads_fail px"
    and size: "length (files s inp) < 9223372036854775808"
    and empty: "files s inp \<noteq> []" "\<forall>out \<in> set outs. files s out = []"
  shows "distinct is \<Longrightarrow> \<forall>i \<in> set is. i < stride \<Longrightarrow> stride \<le> length outs \<Longrightarrow> files s1 = files s \<Longrightarrow>
    \<exists>s'. tree_round px inp outs (Suc (length outs)) stride is d s1 =
      (Inr (d - (if 0 \<in> set is then 1 else 0)), s') \<and> files s' = files s"
proof (induction "is" arbitrary: d s1)
  case (Cons i "is")
  let ?n = "if i = 0 then -1 else 0 :: size_t"
  have "\<exists>s2. tree_copy px inp outs (Suc (length outs)) stride i s1 = (Inr ?n, s2) \<and> files s2 = files s"
  proof (cases "i + stride \<le> length outs")
    case True
    have "node inp outs i \<in> set (inp # outs)" using True by (intro nth_mem) simp
    then have "node inp outs i \<in> F" using fds by blast
    moreover have "files s1 (node inp outs i) = (if i = 0 then files s inp else [])"
      using True empty Cons.prems(4) by (auto simp: nth_Cons')
    ultimately obtain s2 where "submit_read_write px (node inp outs i) (node inp outs (i + stride)) 0 s1 =
        (?n, s2)" "files s2 = files s"
      using submit_read_write_fails [OF laws _ alloc fail, of "node inp outs i" s1
          "node inp outs (i + stride)" 0] empty(1) size Cons.prems(4) by (auto split: if_splits)
    moreover have "i < stride" using Cons.prems(2) by simp
    ultimately show ?thesis
      by (simp only: tree_copy_nodes True if_True prod.case) blast
  next
    case False
    with Cons.prems(2,3) have "i \<noteq> 0" "i < stride" by auto
    with False Cons.prems(4) show ?thesis by (simp add: tree_copy_nodes)
  qed
  then obtain s2 where s2: "tree_copy px inp outs (Suc (length outs)) stride i s1 = (Inr ?n, s2)"
    "files s2 = files s" by blast
  from Cons.IH [OF _ _ Cons.prems(3) s2(2), of "d + ?n"] Cons.prems(1,2) s2(1)
  show ?case by (auto split: if_splits)
qed simp

lemma tree_rounds_fail:
  assumes laws: "posix_laws px F files mem live" and fds: "set (inp # outs) \<subseteq> F"
    and alloc: "alloc_succeeds px" and fail: "reads_fail px" and sched: "omp_schedule sched"
    and size: "length (files s inp) < 9223372036854775808"
    and empty: "files s inp \<noteq> []" "\<forall>out \<in> set outs. files s out = []"
  shows "r + k = total_rounds (Suc (length outs)) \<Longrightarrow> files s1 = files s \<Longrightarrow>
    \<exists>s'. tree_rounds px inp outs (Suc (length outs)) sched r k d s1 = (Inr (d - of_nat k), s') \<and>
      files s' = files s"
proof (induction k arbitrary: r d s1)
  case (Suc k)
  have set: "set (sched r) = {0..<2 ^ r}" "distinct (sched r)"
    using omp_scheduleD [OF sched] by blast+
  have "2 ^ r \<le> length outs" using total_rounds_used [of r "Suc (length outs)"] Suc.prems(1) by simp
  moreover have "\<forall>i \<in> set (sched r). i < 2 ^ r" "0 \<in> set (sched r)" using set(1) by simp_all
  ultimately obtain s2 where "tree_round px inp outs (Suc (length outs)) (2 ^ r) (sched r) d s1 =
      (Inr (d - 1), s2)" "files s2 = files s"
    using tree_round_fails [OF laws fds alloc fail size empty set(2) _ _ Suc.prems(2), of "2 ^ r" d] by auto
  with Suc.IH [of "Suc r" s2 "d - 1"] Suc.prems(1) show ?case by (simp add: algebra_simps)
qed simp

section \<open>Empty files\<close>

text \<open>When every node is empty nothing is transferred, nor any state changed.\<close>

lemma submit_read_write_empty:
  assumes "posix_laws px F files mem live" "input \<in> F" "files s input = []"
  shows "submit_read_write px input output off s = (0, s)"
proof -
  have "px_fstat px s input = Some \<lparr>st_mode = Regular, st_size = 0\<rparr>"
    using assms by (simp add: posix_laws_def fstat_law_def)
  then show ?thesis by (simp add: submit_read_write_def get_file_size_def)
qed

lemma readv_broadcast_empty:
  assumes laws: "posix_laws px F files mem live" and nodes: "set (inp # outs) \<subseteq> F"
    and empty: "\<forall>g \<in> set (inp # outs). files s g = []" and sched: "omp_schedule sched"
  shows "perform_readv_broadcast px sched inp outs s = (Inr 0, s)"
proof -
  have copy: "tree_copy px inp outs (Suc (length outs)) stride i s = (Inr 0, s)" if "i < stride" for i stride
  proof (cases "i + stride \<le> length outs")
    case True
    then have "node inp outs i \<in> set (inp # outs)" by (intro nth_mem) simp
    then show ?thesis
      using submit_read_write_empty [OF laws] nodes empty True that by (auto simp: tree_copy_nodes)
  qed (use that in \<open>simp add: tree_copy_nodes\<close>)
  have round: "\<forall>i \<in> set is. i < stride \<Longrightarrow>
      tree_round px inp outs (Suc (length outs)) stride is d s = (Inr d, s)" for "is" stride d
    by (induction "is" arbitrary: d) (simp_all add: copy)
  have "tree_rounds px inp outs (Suc (length outs)) sched r k 0 s = (Inr 0, s)" for r k
    by (induction k arbitrary: r) (simp_all add: round omp_scheduleD(1) [OF sched])
  then show ?thesis by (simp add: perform_readv_broadcast_def)
qed

section \<open>The reference\<close>

text \<open>After the last round every output has the input's bytes.\<close>

lemma tree_inv_all:
  assumes "tree_inv files live inp outs s {..<2 ^ total_rounds (Suc (length outs))} s'"
  shows "(\<forall>out \<in> set outs. files s' out = files s inp) \<and>
    (\<forall>g. g \<notin> set outs \<longrightarrow> files s' g = files s g) \<and> live s' = live s"
proof -
  have "Suc (length outs) \<le> 2 ^ total_rounds (Suc (length outs))" by (rule total_rounds_cover)
  then have held: "files s' (node inp outs k) = files s inp" if "k \<le> length outs" for k
    using assms that by (simp add: tree_inv_def)
  have "files s' out = files s inp" if "out \<in> set outs" for out
  proof -
    from that obtain k where "k < length outs" "out = outs ! k" by (auto simp: in_set_conv_nth)
    with held [of "Suc k"] show ?thesis by simp
  qed
  moreover have "files s' g = files s g" if "g \<notin> set outs" for g
    using assms held [of 0] that by (cases "g = inp") (simp_all add: tree_inv_def)
  ultimately show ?thesis using assms by (simp add: tree_inv_def)
qed

text \<open>The whole tree, in any schedule.\<close>

lemma readv_broadcast_runs:
  assumes ready: "tree_ready px F files mem live inp outs s"
    and ok: "alloc_succeeds px" "transfers_complete px F files"
    and sched: "omp_schedule sched"
  shows "\<exists>s'. perform_readv_broadcast px sched inp outs s =
      (Inr (of_nat (length outs) * of_nat (length (files s inp))), s') \<and>
    (\<forall>out \<in> set outs. files s' out = files s inp) \<and>
    (\<forall>g. g \<notin> set outs \<longrightarrow> files s' g = files s g) \<and> live s' = live s"
proof -
  let ?R = "total_rounds (Suc (length outs))"
  have "tree_inv files live inp outs s {..<2 ^ 0} s"
    by (auto simp: tree_inv_def)
  from tree_rounds_deliver [OF ready ok sched this, of ?R] obtain s' where
    s': "perform_readv_broadcast px sched inp outs s =
        (Inr (of_nat (min (2 ^ ?R) (Suc (length outs)) - 1) * of_nat (length (files s inp))), s')"
      "tree_inv files live inp outs s {..<2 ^ ?R} s'"
    by (auto simp: perform_readv_broadcast_def)
  have n: "min (2 ^ ?R) (Suc (length outs)) - 1 = length outs"
    using total_rounds_cover [of "Suc (length outs)"] by simp
  show ?thesis using s'(1) [unfolded n] tree_inv_all [OF s'(2)] by blast
qed

text \<open>The broadcast as one would specify it: the input copied to each output in turn.\<close>

fun sequential_copies :: "'s posix \<Rightarrow> c_int \<Rightarrow> c_int list \<Rightarrow> size_t \<Rightarrow> 's \<Rightarrow> size_t \<times> 's" where
  "sequential_copies px inp [] acc s = (acc, s)"
| "sequential_copies px inp (out # outs) acc s =
     (case submit_read_write px inp out 0 s of (n, s') \<Rightarrow> sequential_copies px inp outs (acc + n) s')"

lemma sequential_copies_run:
  assumes ok: "alloc_succeeds px" "transfers_complete px F files"
  shows "tree_ready px F files mem live inp outs s \<Longrightarrow>
    \<exists>s'. sequential_copies px inp outs acc s =
      (acc + of_nat (length outs) * of_nat (length (files s inp)), s') \<and>
    (\<forall>out \<in> set outs. files s' out = files s inp) \<and>
    (\<forall>g. g \<notin> set outs \<longrightarrow> files s' g = files s g) \<and> live s' = live s"
proof (induction outs arbitrary: acc s)
  case (Cons out outs)
  have ready: "posix_laws px F files mem live" "inp \<in> F" "out \<in> F" "inp \<noteq> out" "inp \<notin> set outs" "out \<notin> set outs"
    "length (files s inp) < 9223372036854775808" "length (files s out) \<le> length (files s inp)"
    using Cons.prems by (simp_all add: tree_ready_def)
  from submit_read_write_correct [OF ready(1-4) ok ready(7)] obtain s1 where
    s1: "submit_read_write px inp out 0 s = (of_nat (length (files s inp)), s1)"
      "files s1 out = files s inp @ drop (length (files s inp)) (files s out)"
      "live s1 = live s" "\<And>g. g \<noteq> out \<Longrightarrow> files s1 g = files s g" by blast
  have keep: "files s1 inp = files s inp" "\<And>o'. o' \<in> set outs \<Longrightarrow> files s1 o' = files s o'"
    using s1(4) ready(4,6) by metis+
  have out: "files s1 out = files s inp" using s1(2) ready(8) by simp
  have "tree_ready px F files mem live inp outs s1"
    using Cons.prems by (simp add: tree_ready_def keep)
  from Cons.IH [OF this, of "acc + of_nat (length (files s inp))"] obtain s' where
    s': "sequential_copies px inp outs (acc + of_nat (length (files s inp))) s1 =
      (acc + of_nat (length (files s inp)) + of_nat (length outs) * of_nat (length (files s inp)), s')"
      "\<forall>o' \<in> set outs. files s' o' = files s inp" "\<forall>g. g \<notin> set outs \<longrightarrow> files s' g = files s1 g"
      "live s' = live s" by (auto simp: keep s1(3))
  then show ?case using s1 out ready(6) by (auto simp: algebra_simps)
qed simp

section \<open>Properties\<close>

text \<open>
  The broadcast never indexes outside its span of outputs: it returns a value, whatever
  the system calls answer, however many outputs there are, and in whatever order the
  iterations of a round run.
\<close>

lemma readv_broadcast_in_bounds:
  assumes "omp_schedule sched"
  shows "\<exists>n s'. perform_readv_broadcast px sched inp outs s = (Inr n, s')"
  using tree_rounds_in_bounds [OF assms] by (simp add: perform_readv_broadcast_def)

definition seq_sched :: "nat \<Rightarrow> nat list" where
  "seq_sched r = rev [0..<2 ^ r]"

lemma seq_sched_ok: "omp_schedule seq_sched"
  by (simp add: omp_schedule_def seq_sched_def)

lemma readv_broadcast_in_bounds_witness:
  "\<exists>n s'. perform_readv_broadcast lazy_os seq_sched 3 [4, 5, 6, 7, 8] demo_os = (Inr n, s')"
  by (rule readv_broadcast_in_bounds [OF seq_sched_ok])

lemma readv_broadcast_runs_witness:
  "\<exists>s'. perform_readv_broadcast mem_os seq_sched 3 [5, 6, 7, 8, 9] demo_os = (Inr 15, s') \<and>
     (\<forall>out \<in> {5, 6, 7, 8, 9}. ms_files s' out = [1, 2, 3]) \<and> ms_files s' 4 = [9, 9, 9, 9, 9]"
proof -
  have "tree_ready mem_os UNIV ms_files ms_mem mem_live 3 [5, 6, 7, 8, 9] demo_os"
    using mem_os_laws [of UNIV] by (simp add: tree_ready_def demo_os_def)
  from readv_broadcast_runs [OF this mem_os_alloc mem_os_complete seq_sched_ok]
  show ?thesis by (auto simp: demo_os_def)
qed

text \<open>
  C23: the tree is as good as copying in turn. With different outputs no longer than the input,
  succeeding allocations and complete transfers, and whatever schedule the team runs, the tree broadcast and the reference that copies the input to each
  output one after another return the same total and leave the same contents in every file
  and the same blocks allocated.
\<close>

theorem readv_broadcast_equals_sequential:
  assumes "tree_ready px F files mem live inp outs s"
    and "alloc_succeeds px" "transfers_complete px F files"
    and "omp_schedule sched"
  shows "\<exists>n s1 s2. perform_readv_broadcast px sched inp outs s = (Inr n, s1) \<and>
    sequential_copies px inp outs 0 s = (n, s2) \<and> files s1 = files s2 \<and> live s1 = live s2"
proof -
  from readv_broadcast_runs [OF assms] obtain s1 where
    s1: "perform_readv_broadcast px sched inp outs s =
        (Inr (of_nat (length outs) * of_nat (length (files s inp))), s1)"
      "\<forall>out \<in> set outs. files s1 out = files s inp"
      "\<forall>g. g \<notin> set outs \<longrightarrow> files s1 g = files s g" "live s1 = live s" by blast
  from sequential_copies_run [OF assms(2,3,1), of 0] obtain s2 where
    s2: "sequential_copies px inp outs 0 s = (of_nat (length outs) * of_nat (length (files s inp)), s2)"
      "\<forall>out \<in> set outs. files s2 out = files s inp"
      "\<forall>g. g \<notin> set outs \<longrightarrow> files s2 g = files s g" "live s2 = live s" by auto
  have "files s1 g = files s2 g" for g using s1(2,3) s2(2,3) by (cases "g \<in> set outs") simp_all
  with s1(1,4) s2(1,4) show ?thesis by (metis ext)
qed

theorem readv_broadcast_equals_sequential_witness:
  "\<exists>s1 s2. perform_readv_broadcast mem_os (\<lambda>r. rev (seq_sched r)) 3 [5, 6, 7] demo_os = (Inr 9, s1) \<and>
     sequential_copies mem_os 3 [5, 6, 7] 0 demo_os = (9, s2) \<and> ms_files s1 = ms_files s2"
proof -
  have ready: "tree_ready mem_os UNIV ms_files ms_mem mem_live 3 [5, 6, 7] demo_os"
    using mem_os_laws [of UNIV] by (simp add: tree_ready_def demo_os_def)
  have sched: "omp_schedule (\<lambda>r. rev (seq_sched r))" using seq_sched_ok by (simp add: omp_schedule_def)
  have "fst (sequential_copies mem_os 3 [5, 6, 7] 0 demo_os) = 9"
    using sequential_copies_run [OF mem_os_alloc mem_os_complete ready, of 0] by (auto simp: demo_os_def)
  with readv_broadcast_equals_sequential [OF ready mem_os_alloc mem_os_complete sched]
  show ?thesis by auto
qed

text \<open>
  Failures are summed, not reported. If every read fails on a non-empty input and empty
  outputs, the result is minus the number of rounds: the -1 of each failed copy is added to
  the unsigned total (so it also cancels a byte of the successful copies when only some
  fail), and the result is a plain -1 only with a single output.
\<close>

lemma readv_broadcast_sums_failures:
  assumes "posix_laws px F files mem live" and "set (inp # outs) \<subseteq> F"
    and "alloc_succeeds px" and "reads_fail px" and "omp_schedule sched"
    and "length (files s inp) < 9223372036854775808"
    and "files s inp \<noteq> []" and "\<forall>out \<in> set outs. files s out = []"
  shows "\<exists>s'. perform_readv_broadcast px sched inp outs s =
      (Inr (- of_nat (total_rounds (length outs + 1))), s') \<and> files s' = files s"
  using tree_rounds_fail [OF assms, of 0 "total_rounds (Suc (length outs))" s 0]
  by (simp add: perform_readv_broadcast_def)

definition broken_os :: "mem_state posix" where
  "broken_os = mem_os\<lparr>px_preadv := (\<lambda>fd vs off s. (-1, s))\<rparr>"

lemma broken_os_laws: "posix_laws broken_os F ms_files ms_mem mem_live"
proof -
  have "fstat_law broken_os F ms_files = fstat_law mem_os F ms_files"
    "memalign_law broken_os ms_files ms_mem mem_live = memalign_law mem_os ms_files ms_mem mem_live"
    "free_law broken_os ms_files mem_live = free_law mem_os ms_files mem_live"
    "pwritev_law broken_os F ms_files ms_mem mem_live = pwritev_law mem_os F ms_files ms_mem mem_live"
    by (simp_all add: fstat_law_def memalign_law_def free_law_def pwritev_law_def broken_os_def)
  moreover have "preadv_law broken_os F ms_files ms_mem mem_live"
    by (auto simp: preadv_law_def broken_os_def)
  ultimately show ?thesis using mem_os_laws [of F] by (simp add: posix_laws_def)
qed

lemma readv_broadcast_sums_failures_witness:
  "\<exists>s'. perform_readv_broadcast broken_os seq_sched 3 [5, 6, 7] demo_os = (Inr (-2), s') \<and>
     ms_files s' = ms_files demo_os"
proof -
  have ok: "alloc_succeeds broken_os" "reads_fail broken_os"
    using mem_os_alloc by (simp_all add: alloc_succeeds_def reads_fail_def broken_os_def)
  have r: "total_rounds (length [5, 6, 7 :: c_int] + 1) = 2"
    using ceillog2_2_power [of 2] by (simp add: total_rounds_def numeral_eq_Suc)
  show ?thesis
    using readv_broadcast_sums_failures [OF broken_os_laws [of UNIV] _ ok seq_sched_ok,
        of 3 "[5, 6, 7]" demo_os, unfolded r] by (simp add: demo_os_def)
qed

end
