(* ===== verification/Readv_Parallel.thy ===== *)
theory Readv_Parallel
  imports Readv_Broadcast
begin

text \<open>
  The tree broadcast of \<open>source/IOuring/readv_broadcaster.hpp\<close> with the copies of a round
  side by side. \<open>submit_read_write\<close> is taken apart into its calls, one step for each, with
  what the code has in its variables between two calls as the state of the copy; a round
  interleaves the steps of its copies in any way (\<open>#pragma omp parallel for\<close>), and ends when
  all have finished (the barrier at its end). A team of fewer threads than copies, or one
  that runs some of them one after another, has fewer interleavings.
\<close>

section \<open>A copy, call by call\<close>

text \<open>
  Where a copy stands: before the size is known; allocating the blocks of the window at
  \<open>total_processed\<close>; about to read it; about to write it; freeing its blocks, after which it
  goes on or gives up; returned.
\<close>

datatype copy_state =
    Copy_stat
  | Copy_alloc off_t off_t "iovec list"
  | Copy_read off_t off_t "iovec list"
  | Copy_write off_t off_t "iovec list"
  | Copy_free off_t off_t "iovec list" bool
  | Copy_done ssize_t

definition loop_head :: "off_t \<Rightarrow> off_t \<Rightarrow> copy_state" where
  "loop_head file_sz total_processed =
     (if total_processed <s file_sz then Copy_alloc file_sz total_processed [] else Copy_done total_processed)"

fun copy_step :: "'s posix \<Rightarrow> c_int \<Rightarrow> c_int \<Rightarrow> off_t \<Rightarrow> copy_state \<times> 's \<Rightarrow> copy_state \<times> 's" where
  "copy_step px input output start_offset (Copy_stat, s) =
     (let file_sz = get_file_size (px_fstat px s) (px_blksize px s) input in
      (if file_sz \<le>s 0 then Copy_done 0 else loop_head file_sz 0, s))"
| "copy_step px input output start_offset (Copy_alloc sz t vs, s) =
     (let cw = readv_window sz t in
      if length vs < unat (readv_blocks cw) then
        (case px_memalign px 4096 CHUNK_SIZE s of
           (None, s1) \<Rightarrow> (Copy_done (-1), s1)
         | (Some p, s1) \<Rightarrow>
             (Copy_alloc sz t (vs @ [\<lparr>iov_base = p, iov_len = block_len cw (length vs)\<rparr>]), s1))
      else (Copy_read sz t vs, s))"
| "copy_step px input output start_offset (Copy_read sz t vs, s) =
     (case px_preadv px input vs (start_offset + t) s of
        (r, s1) \<Rightarrow> (if r < 0 then Copy_free sz t vs False else Copy_write sz t vs, s1))"
| "copy_step px input output start_offset (Copy_write sz t vs, s) =
     (case px_pwritev px output vs (start_offset + t) s of
        (w, s1) \<Rightarrow> (Copy_free sz t vs (\<not> w < 0), s1))"
| "copy_step px input output start_offset (Copy_free sz t [] ok, s) =
     (if ok then loop_head sz (t + readv_window sz t) else Copy_done (-1), s)"
| "copy_step px input output start_offset (Copy_free sz t (v # vs) ok, s) =
     (Copy_free sz t vs ok, px_free px (iov_base v) s)"
| "copy_step px input output start_offset (Copy_done ret, s) = (Copy_done ret, s)"

text \<open>The steps of one copy that nothing interrupts.\<close>

definition copy_steps :: "'s posix \<Rightarrow> c_int \<Rightarrow> c_int \<Rightarrow> off_t \<Rightarrow> copy_state \<times> 's \<Rightarrow> copy_state \<times> 's \<Rightarrow> bool" where
  "copy_steps px i out off = (\<lambda>x y. y = copy_step px i out off x)\<^sup>*\<^sup>*"

lemma copy_steps_refl: "copy_steps px i out off x x"
  by (simp add: copy_steps_def)

lemma copy_steps_Cons: "copy_steps px i out off (copy_step px i out off x) y \<Longrightarrow> copy_steps px i out off x y"
  unfolding copy_steps_def by (blast intro: converse_rtranclp_into_rtranclp)

lemma copy_steps_trans: "copy_steps px i out off x y \<Longrightarrow> copy_steps px i out off y z \<Longrightarrow> copy_steps px i out off x z"
  unfolding copy_steps_def by (rule rtranclp_trans)

lemma copy_alloc_steps:
  "length vs + n = unat (readv_blocks (readv_window sz t)) \<Longrightarrow>
   copy_steps px i out off (Copy_alloc sz t vs, s)
     (case alloc_iovecs px (readv_window sz t) (length vs) n s of
        (None, s') \<Rightarrow> (Copy_done (-1), s') | (Some ws, s') \<Rightarrow> (Copy_read sz t (vs @ ws), s'))"
proof (induction n arbitrary: vs s)
  case 0
  then show ?case by - (rule copy_steps_Cons, simp add: copy_steps_refl)
next
  case (Suc n)
  obtain r s1 where r: "px_memalign px 4096 CHUNK_SIZE s = (r, s1)" by fastforce
  show ?case
  proof (cases r)
    case None
    with r Suc.prems show ?thesis by - (rule copy_steps_Cons, simp add: copy_steps_refl)
  next
    case (Some p)
    let ?v = "\<lparr>iov_base = p, iov_len = block_len (readv_window sz t) (length vs)\<rparr>"
    have one: "copy_step px i out off (Copy_alloc sz t vs, s) = (Copy_alloc sz t (vs @ [?v]), s1)"
      using r Some Suc.prems by (simp add: Let_def)
    have len: "length (vs @ [?v]) + n = unat (readv_blocks (readv_window sz t))" using Suc.prems by simp
    obtain a s2 where a: "alloc_iovecs px (readv_window sz t) (Suc (length vs)) n s1 = (a, s2)" by fastforce
    have "copy_steps px i out off (Copy_alloc sz t (vs @ [?v]), s1)
      (case a of None \<Rightarrow> (Copy_done (-1), s2) | Some ws \<Rightarrow> (Copy_read sz t (vs @ ?v # ws), s2))"
      using Suc.IH [OF len, of s1]
      by (simp only: length_append_singleton a prod.case append_assoc append.simps)
    then have "copy_steps px i out off (Copy_alloc sz t vs, s)
      (case a of None \<Rightarrow> (Copy_done (-1), s2) | Some ws \<Rightarrow> (Copy_read sz t (vs @ ?v # ws), s2))"
      by - (rule copy_steps_Cons, simp only: one)
    then show ?thesis by (cases a) (simp_all add: r Some a)
  qed
qed

lemma copy_free_steps:
  "copy_steps px i out off (Copy_free sz t vs ok, s) (Copy_free sz t [] ok, free_iovecs px vs s)"
  by (induction vs arbitrary: s) (auto intro: copy_steps_refl copy_steps_Cons)

lemma copy_free_end:
  "copy_steps px i out off (Copy_free sz t vs ok, s)
     (if ok then loop_head sz (t + readv_window sz t) else Copy_done (-1), free_iovecs px vs s)"
  by (rule copy_steps_trans [OF copy_free_steps copy_steps_Cons]) (simp add: copy_steps_refl)

lemma copy_loop_steps:
  "copy_steps px i out off (loop_head sz t, s)
     (case readv_loop px i out off sz t s of (r, s') \<Rightarrow> (Copy_done r, s'))"
proof (induction px i out off sz t s rule: readv_loop.induct)
  case (1 px i out off sz t s)
  let ?cw = "readv_window sz t"
  show ?case
  proof (cases "t <s sz")
    case False
    then show ?thesis by (simp add: loop_head_def readv_loop_done copy_steps_refl)
  next
    case True
    then have head: "loop_head sz t = Copy_alloc sz t []" by (simp add: loop_head_def)
    have alloc: "copy_steps px i out off (Copy_alloc sz t [], s)
        (case alloc_iovecs px ?cw 0 (unat (readv_blocks ?cw)) s of
           (None, s') \<Rightarrow> (Copy_done (-1), s') | (Some ws, s') \<Rightarrow> (Copy_read sz t ws, s'))"
      using copy_alloc_steps [of "[]" "unat (readv_blocks ?cw)" sz t px i out off s]
      by (simp only: append_Nil list.size add_0)
    obtain a s1 where a: "alloc_iovecs px ?cw 0 (unat (readv_blocks ?cw)) s = (a, s1)" by fastforce
    show ?thesis
    proof (cases a)
      case None
      with alloc a True head show ?thesis by (subst readv_loop.simps) (simp add: Let_def)
    next
      case (Some vs)
      obtain r s2 where r: "px_preadv px i vs (off + t) s1 = (r, s2)" by fastforce
      obtain w s3 where w: "px_pwritev px out vs (off + t) s2 = (w, s3)" by fastforce
      have "copy_steps px i out off (loop_head sz t, s) (Copy_read sz t vs, s1)"
        using alloc a Some head by simp
      moreover have "copy_steps px i out off (Copy_read sz t vs, s1)
          (case readv_loop px i out off sz t s of (r, s') \<Rightarrow> (Copy_done r, s'))"
      proof (cases "r < 0")
        case neg: True
        with r show ?thesis
          by - (rule copy_steps_Cons, subst readv_loop.simps,
            use copy_free_end [of px i out off sz t vs False] True a Some in \<open>simp add: Let_def\<close>)
      next
        case pos: False
        have "copy_steps px i out off (Copy_write sz t vs, s2)
          (case readv_loop px i out off sz t s of (r, s') \<Rightarrow> (Copy_done r, s'))"
        proof (cases "w < 0")
          case neg: True
          with w pos r show ?thesis
            by - (rule copy_steps_Cons, subst readv_loop.simps,
              use copy_free_end [of px i out off sz t vs False] True a Some in \<open>simp add: Let_def\<close>)
        next
          case False
          from "1.IH" [OF True refl refl a [symmetric] Some r [symmetric] pos w [symmetric] False]
          have rest: "copy_steps px i out off (loop_head sz (t + ?cw), free_iovecs px vs s3)
            (case readv_loop px i out off sz t s of (r, s') \<Rightarrow> (Copy_done r, s'))"
            using readv_loop_step [OF True a [unfolded Some] r _ w] pos False by simp
          have "copy_steps px i out off (copy_step px i out off (Copy_write sz t vs, s2))
              (loop_head sz (t + ?cw), free_iovecs px vs s3)"
            using copy_free_end [of px i out off sz t vs True s3] w False by simp
          from copy_steps_trans [OF this rest] show ?thesis by (rule copy_steps_Cons)
        qed
        with r pos show ?thesis by - (rule copy_steps_Cons, simp)
      qed
      ultimately show ?thesis by (rule copy_steps_trans)
    qed
  qed
qed

lemma copy_runs:
  "copy_steps px i out off (Copy_stat, s)
     (case submit_read_write px i out off s of (r, s') \<Rightarrow> (Copy_done r, s'))"
proof (rule copy_steps_Cons)
  show "copy_steps px i out off (copy_step px i out off (Copy_stat, s))
      (case submit_read_write px i out off s of (r, s') \<Rightarrow> (Copy_done r, s'))"
    using copy_loop_steps [of px i out off "get_file_size (px_fstat px s) (px_blksize px s) i" 0 s]
    by (cases "get_file_size (px_fstat px s) (px_blksize px s) i \<le>s 0")
      (simp_all add: submit_read_write_def Let_def copy_steps_refl)
qed

section \<open>One copy among others\<close>

text \<open>The blocks a copy holds, which no other copy knows.\<close>

fun blocks_of :: "copy_state \<Rightarrow> ptr set" where
  "blocks_of (Copy_alloc sz t vs) = iov_base ` set vs"
| "blocks_of (Copy_read sz t vs) = iov_base ` set vs"
| "blocks_of (Copy_write sz t vs) = iov_base ` set vs"
| "blocks_of (Copy_free sz t vs ok) = iov_base ` set vs"
| "blocks_of _ = {}"

text \<open>
  What holds of a copy of the bytes \<open>src\<close> to a file that held \<open>old\<close>, between any two of its
  steps, if calls succeed and transfers are complete: \<open>f\<close> is what the output holds now.
\<close>

definition window_at :: "byte list \<Rightarrow> off_t \<Rightarrow> off_t \<Rightarrow> bool" where
  "window_at src sz t \<longleftrightarrow> sz = of_nat (length src) \<and> unat t < length src"

definition blocks_ready :: "size_t \<Rightarrow> (ptr \<Rightarrow> byte list) \<Rightarrow> iovec list \<Rightarrow> bool" where
  "blocks_ready cw mem vs \<longleftrightarrow>
     map iov_len vs = map (block_len cw) [0..<length vs] \<and> distinct (map iov_base vs) \<and>
     (\<forall>v \<in> set vs. length (mem (iov_base v)) = 65536)"

fun copy_ok :: "byte list \<Rightarrow> byte list \<Rightarrow> (ptr \<Rightarrow> byte list) \<Rightarrow> byte list \<Rightarrow> copy_state \<Rightarrow> bool" where
  "copy_ok src old mem f Copy_stat \<longleftrightarrow> f = old"
| "copy_ok src old mem f (Copy_alloc sz t vs) \<longleftrightarrow>
     window_at src sz t \<and> blocks_ready (readv_window sz t) mem vs \<and>
     length vs \<le> unat (readv_blocks (readv_window sz t)) \<and> f = take (unat t) src @ drop (unat t) old"
| "copy_ok src old mem f (Copy_read sz t vs) \<longleftrightarrow>
     window_at src sz t \<and> blocks_ready (readv_window sz t) mem vs \<and>
     length vs = unat (readv_blocks (readv_window sz t)) \<and> f = take (unat t) src @ drop (unat t) old"
| "copy_ok src old mem f (Copy_write sz t vs) \<longleftrightarrow>
     window_at src sz t \<and> blocks_ready (readv_window sz t) mem vs \<and>
     length vs = unat (readv_blocks (readv_window sz t)) \<and> f = take (unat t) src @ drop (unat t) old \<and>
     gather mem vs = take (unat (readv_window sz t)) (drop (unat t) src)"
| "copy_ok src old mem f (Copy_free sz t vs ok) \<longleftrightarrow>
     window_at src sz t \<and> ok \<and> distinct (map iov_base vs) \<and>
     f = take (unat (t + readv_window sz t)) src @ drop (unat (t + readv_window sz t)) old"
| "copy_ok src old mem f (Copy_done ret) \<longleftrightarrow>
     ret = of_nat (length src) \<and> f = src @ drop (length src) old"

text \<open>It only looks at the copy's own blocks.\<close>

lemma gather_blocks: "\<forall>q \<in> iov_base ` set vs. mem' q = mem q \<Longrightarrow> gather mem' vs = gather mem vs"
  by (induction vs) simp_all

lemma copy_ok_mem:
  "copy_ok src old mem f c \<Longrightarrow> \<forall>q \<in> blocks_of c. mem' q = mem q \<Longrightarrow> copy_ok src old mem' f c"
  by (cases c) (auto simp: blocks_ready_def gather_blocks [of _ mem' mem])

lemma window_at_facts:
  assumes "window_at src sz t" "length src < 9223372036854775808"
  shows "unat sz = length src" "unat t < unat sz" "t <s sz" "0 \<le>s t"
    "unat (readv_window sz t) \<le> 67108864" "unat (readv_window sz t) \<le> length src - unat t"
    "unat (t + readv_window sz t) = unat t + unat (readv_window sz t)"
    "unat (t + readv_window sz t) \<le> length src"
proof -
  show sz: "unat sz = length src" using assms by (simp add: window_at_def unat_of_nat take_bit_eq_mod)
  show lt: "unat t < unat sz" using assms(1) sz by (simp add: window_at_def)
  have "0 \<le>s sz" using assms(2) sz by (simp add: nonneg_iff_unat64)
  moreover show t0: "0 \<le>s t" using assms(2) lt sz by (simp add: nonneg_iff_unat64)
  ultimately show "t <s sz" using lt by (simp add: sless_unat64)
  show "unat (readv_window sz t) \<le> 67108864" using rw.step_le [OF lt] .
  show "unat (readv_window sz t) \<le> length src - unat t" using rw.step [OF lt] sz by simp
  show "unat (t + readv_window sz t) = unat t + unat (readv_window sz t)"
    using rw.unat_advance [OF lt] rw.step [OF lt] by simp
  show "unat (t + readv_window sz t) \<le> length src" using rw.advance_le [OF lt] sz by simp
qed

lemma loop_head_ok:
  assumes "sz = of_nat (length src)" "length src < 9223372036854775808" "unat t \<le> length src"
  shows "copy_ok src old mem (take (unat t) src @ drop (unat t) old) (loop_head sz t)"
    and "blocks_of (loop_head sz t) = {}"
proof -
  have sz: "unat sz = length src" using assms by (simp add: unat_of_nat take_bit_eq_mod)
  then have "0 \<le>s sz" "0 \<le>s t" using assms(2,3) by (simp_all add: nonneg_iff_unat64)
  then have lt: "t <s sz \<longleftrightarrow> unat t < length src" using sz by (simp add: sless_unat64)
  show "copy_ok src old mem (take (unat t) src @ drop (unat t) old) (loop_head sz t)"
  proof (cases "t <s sz")
    case True
    then show ?thesis using lt assms(1) by (simp add: loop_head_def window_at_def blocks_ready_def)
  next
    case False
    with lt assms(3) sz have "t = sz" by (simp add: word_unat_eq_iff)
    with assms(1) sz False show ?thesis by (simp add: loop_head_def)
  qed
  show "blocks_of (loop_head sz t) = {}" by (simp add: loop_head_def)
qed

text \<open>
  One step of a copy: it stays in order, changes no file but its output, and of the memory
  only its own blocks, to which it may add a new one or from which it may take one away.
\<close>

definition step_frame :: "('s \<Rightarrow> c_int \<Rightarrow> byte list) \<Rightarrow> ('s \<Rightarrow> ptr \<Rightarrow> byte list) \<Rightarrow> ('s \<Rightarrow> ptr set) \<Rightarrow>
    c_int \<Rightarrow> copy_state \<times> 's \<Rightarrow> copy_state \<times> 's \<Rightarrow> bool" where
  "step_frame files mem live out x y \<longleftrightarrow>
     (\<forall>g. g \<noteq> out \<longrightarrow> files (snd y) g = files (snd x) g) \<and>
     blocks_of (fst y) \<subseteq> live (snd y) \<and>
     live (snd y) - blocks_of (fst y) = live (snd x) - blocks_of (fst x) \<and>
     (\<forall>q \<in> live (snd x) - blocks_of (fst x). mem (snd y) q = mem (snd x) q)"

lemma copy_stat_ok:
  assumes laws: "posix_laws px F files mem live" and i: "i \<in> F" "files s i = src"
    and len: "length src < 9223372036854775808"
    and ok: "copy_ok src old (mem s) (files s out) Copy_stat"
    and step: "copy_step px i out 0 (Copy_stat, s) = (c', s')"
  shows "copy_ok src old (mem s') (files s' out) c' \<and> step_frame files mem live out (Copy_stat, s) (c', s')"
proof -
  let ?sz = "of_nat (length src) :: off_t"
  have gfs: "get_file_size (px_fstat px s) (px_blksize px s) i = ?sz"
    using laws i by (simp add: posix_laws_def fstat_law_def get_file_size_def)
  have u: "unat ?sz = length src" using len by (simp add: unat_of_nat take_bit_eq_mod)
  have pos: "?sz \<le>s 0 \<longleftrightarrow> src = []"
  proof -
    have "0 \<le>s ?sz" using len by (simp add: nonneg_iff_unat64 u)
    then have "0 <s ?sz \<longleftrightarrow> 0 < length src" using sless_unat64 [of 0 ?sz] u by simp
    then show ?thesis by (auto simp: signed.not_less [symmetric])
  qed
  have c': "c' = (if src = [] then Copy_done 0 else loop_head ?sz 0)" "s' = s"
    using step by (simp_all add: gfs pos Let_def)
  show ?thesis
  proof (cases "src = []")
    case True
    then show ?thesis using ok by (simp add: c' step_frame_def)
  next
    case False
    then show ?thesis
      using ok loop_head_ok(1) [OF refl len, of 0 old "mem s"] loop_head_ok(2) [OF refl len, of 0] by (simp add: c' step_frame_def)
  qed
qed

lemma copy_alloc_ok:
  assumes laws: "posix_laws px F files mem live" and alloc: "alloc_succeeds px"
    and len: "length src < 9223372036854775808"
    and ok: "copy_ok src old (mem s) (files s out) (Copy_alloc sz t vs)" and own: "iov_base ` set vs \<subseteq> live s"
    and step: "copy_step px i out 0 (Copy_alloc sz t vs, s) = (c', s')"
  shows "copy_ok src old (mem s') (files s' out) c' \<and>
    step_frame files mem live out (Copy_alloc sz t vs, s) (c', s')"
proof (cases "length vs < unat (readv_blocks (readv_window sz t))")
  case False
  then have "c' = Copy_read sz t vs" "s' = s" using step by (simp_all add: Let_def)
  then show ?thesis using ok own False by (simp add: step_frame_def)
next
  case True
  let ?cw = "readv_window sz t"
  obtain p s1 where p: "px_memalign px 4096 CHUNK_SIZE s = (Some p, s1)"
    using alloc unfolding alloc_succeeds_def by (metis not_None_eq prod.collapse)
  let ?v = "\<lparr>iov_base = p, iov_len = block_len ?cw (length vs)\<rparr>"
  have c': "c' = Copy_alloc sz t (vs @ [?v])" "s' = s1" using step p True by (simp_all add: Let_def)
  have l: "memalign_law px files mem live" using laws by (simp add: posix_laws_def)
  note m = memalign_SomeD [OF l p]
  have fresh: "p \<notin> iov_base ` set vs" using m own by blast
  have keep: "mem s1 (iov_base v) = mem s (iov_base v)" if "v \<in> set vs" for v
  proof -
    have "iov_base v \<noteq> p" using that fresh by blast
    then show ?thesis using m by blast
  qed
  have ready: "blocks_ready ?cw (mem s) vs" using ok by simp
  have "map iov_len (vs @ [?v]) = map (block_len ?cw) [0..<length (vs @ [?v])]"
    using ready by (simp add: blocks_ready_def)
  moreover have "distinct (map iov_base (vs @ [?v]))" using ready fresh by (simp add: blocks_ready_def)
  moreover have "\<forall>v \<in> set (vs @ [?v]). length (mem s1 (iov_base v)) = 65536"
    using ready m keep by (simp add: blocks_ready_def unat_consts)
  ultimately have "blocks_ready ?cw (mem s1) (vs @ [?v])" by (simp only: blocks_ready_def)
  then have "copy_ok src old (mem s1) (files s1 out) (Copy_alloc sz t (vs @ [?v]))"
    using ok m True by simp
  moreover have "mem s1 q = mem s q" if "q \<in> live s" for q
  proof -
    have "q \<noteq> p" using that m by blast
    then show ?thesis using m by blast
  qed
  then have "step_frame files mem live out (Copy_alloc sz t vs, s) (c', s1)"
    using m own unfolding step_frame_def c' by auto
  ultimately show ?thesis by (simp add: c')
qed

lemma copy_read_ok:
  assumes laws: "posix_laws px F files mem live" and full: "transfers_complete px F files"
    and i: "i \<in> F" "files s i = src" and len: "length src < 9223372036854775808"
    and ok: "copy_ok src old (mem s) (files s out) (Copy_read sz t vs)" and own: "iov_base ` set vs \<subseteq> live s"
    and step: "copy_step px i out 0 (Copy_read sz t vs, s) = (c', s')"
  shows "copy_ok src old (mem s') (files s' out) c' \<and>
    step_frame files mem live out (Copy_read sz t vs, s) (c', s')"
proof -
  let ?cw = "readv_window sz t"
  have win: "window_at src sz t" and ready: "blocks_ready ?cw (mem s) vs"
    and n: "length vs = unat (readv_blocks ?cw)" using ok by simp_all
  note w = window_at_facts [OF win len]
  have iov: "iov_ok (mem s) (live s) vs" "iov_total vs = unat ?cw"
    using iovs_window [of vs ?cw "mem s" "live s"] ready n own w(5) by (simp_all add: blocks_ready_def)
  obtain r where r: "px_preadv px i vs (0 + t) s = (r, s')" using step by (auto split: prod.splits)
  have "fst (px_preadv px i vs (0 + t) s) = int (min (iov_total vs) (length (files s i) - unat t))"
    using full i(1) by (simp add: transfers_complete_def)
  then have ret: "r = int (unat ?cw)" using r w(6) iov(2) i(2) by simp
  then have c': "c' = Copy_write sz t vs" using step r by simp
  have "preadv_law px F files mem live" using laws by (simp add: posix_laws_def)
  from this [unfolded preadv_law_def, rule_format, OF i(1) iov(1) r] ret
  have p: "files s' = files s" "live s' = live s"
    "mem s' = scatter (take (unat ?cw) (drop (unat t) src)) vs (mem s)" by (simp_all add: i(2))
  have fit: "length (take (unat ?cw) (drop (unat t) src)) = iov_total vs" using iov(2) w(6) by simp
  have "blocks_ready ?cw (mem s') vs"
    using ready length_scatter [OF iov(1)] by (simp add: blocks_ready_def p(3))
  moreover have "gather (mem s') vs = take (unat ?cw) (drop (unat t) src)"
    unfolding p(3) by (rule gather_scatter [OF iov(1) fit])
  moreover have "mem s' q = mem s q" if "q \<notin> iov_base ` set vs" for q
    using scatter_other [OF that] by (simp add: p(3))
  ultimately show ?thesis using ok own by (simp add: c' p(1,2) step_frame_def)
qed

lemma copy_write_ok:
  assumes laws: "posix_laws px F files mem live" and full: "transfers_complete px F files"
    and out: "out \<in> F" and len: "length src < 9223372036854775808"
    and ok: "copy_ok src old (mem s) (files s out) (Copy_write sz t vs)" and own: "iov_base ` set vs \<subseteq> live s"
    and step: "copy_step px i out 0 (Copy_write sz t vs, s) = (c', s')"
  shows "copy_ok src old (mem s') (files s' out) c' \<and>
    step_frame files mem live out (Copy_write sz t vs, s) (c', s')"
proof -
  let ?cw = "readv_window sz t"
  let ?d = "take (unat ?cw) (drop (unat t) src)"
  have win: "window_at src sz t" and ready: "blocks_ready ?cw (mem s) vs"
    and n: "length vs = unat (readv_blocks ?cw)" and f: "files s out = take (unat t) src @ drop (unat t) old"
    and data: "gather (mem s) vs = ?d" using ok by simp_all
  note w = window_at_facts [OF win len]
  have iov: "iov_ok (mem s) (live s) vs" "iov_total vs = unat ?cw"
    using iovs_window [of vs ?cw "mem s" "live s"] ready n own w(5) by (simp_all add: blocks_ready_def)
  obtain r where r: "px_pwritev px out vs (0 + t) s = (r, s')" using step by (auto split: prod.splits)
  have "fst (px_pwritev px out vs (0 + t) s) = int (iov_total vs)"
    using full out by (simp add: transfers_complete_def)
  then have ret: "r = int (unat ?cw)" using r iov(2) by simp
  then have c': "c' = Copy_free sz t vs True" using step r by simp
  have "pwritev_law px F files mem live" using laws by (simp add: posix_laws_def)
  from this [unfolded pwritev_law_def, rule_format, OF out iov(1) r] ret
  have p: "live s' = live s" "mem s' = mem s" "\<forall>g. g \<noteq> out \<longrightarrow> files s' g = files s g"
    "files s' out = write_at (files s out) (unat t) ?d" by (simp_all add: data)
  have "length ?d = unat ?cw" using w(6) by simp
  then have "files s' out = take (unat (t + ?cw)) src @ drop (unat (t + ?cw)) old"
    unfolding p(4) f using write_at_overlay [of "unat t" ?d src old] w(2,6,7) w(1) by simp
  then show ?thesis
    using ok own p(3) ready by (simp add: c' p(1,2) step_frame_def blocks_ready_def)
qed

lemma copy_free_ok:
  assumes laws: "posix_laws px F files mem live" "free_frame_law px mem live"
    and len: "length src < 9223372036854775808"
    and ok: "copy_ok src old (mem s) (files s out) (Copy_free sz t vs cont)" and own: "iov_base ` set vs \<subseteq> live s"
    and step: "copy_step px i out 0 (Copy_free sz t vs cont, s) = (c', s')"
  shows "copy_ok src old (mem s') (files s' out) c' \<and>
    step_frame files mem live out (Copy_free sz t vs cont, s) (c', s')"
proof (cases vs)
  case Nil
  have win: "window_at src sz t" and cont: cont
    and f: "files s out = take (unat (t + readv_window sz t)) src @ drop (unat (t + readv_window sz t)) old"
    using ok by simp_all
  have c': "c' = loop_head sz (t + readv_window sz t)" "s' = s" using step Nil cont by simp_all
  have "sz = of_nat (length src)" using win by (simp add: window_at_def)
  note h = loop_head_ok [OF this len window_at_facts(8) [OF win len]]
  show ?thesis using h(1) [of old "mem s"] h(2) by (simp add: c' Nil f step_frame_def)
next
  case (Cons v ws)
  have c': "c' = Copy_free sz t ws cont" "s' = px_free px (iov_base v) s" using step Cons by simp_all
  have v: "iov_base v \<in> live s" "iov_base v \<notin> iov_base ` set ws" using own ok Cons by auto
  have fl: "files s' = files s" "live s' = live s - {iov_base v}"
    using laws(1) v(1) by (simp_all add: posix_laws_def free_law_def c')
  have "\<forall>q \<in> live s - {iov_base v}. mem s' q = mem s q"
    using laws(2) v(1) by (simp add: free_frame_law_def c')
  moreover have "blocks_of (Copy_free sz t vs cont) = insert (iov_base v) (iov_base ` set ws)" by (simp add: Cons)
  moreover have "iov_base ` set ws \<subseteq> live s" using own by (simp add: Cons)
  then have "iov_base ` set ws \<subseteq> live s - {iov_base v}" using v(2) by blast
  moreover have "live s - {iov_base v} - iov_base ` set ws = live s - insert (iov_base v) (iov_base ` set ws)"
    by blast
  ultimately have "step_frame files mem live out (Copy_free sz t vs cont, s) (c', s')"
    unfolding step_frame_def by (simp add: c'(1) fl)
  then show ?thesis using ok by (simp add: c'(1) Cons fl(1))
qed

lemma copy_step_ok:
  assumes laws: "posix_laws px F files mem live" "free_frame_law px mem live"
    and calls: "alloc_succeeds px" "transfers_complete px F files"
    and fds: "i \<in> F" "out \<in> F" and src: "files s i = src" "length src < 9223372036854775808"
    and ok: "copy_ok src old (mem s) (files s out) c" and own: "blocks_of c \<subseteq> live s"
    and step: "copy_step px i out 0 (c, s) = (c', s')"
  shows "copy_ok src old (mem s') (files s' out) c'" and "step_frame files mem live out (c, s) (c', s')"
proof -
  have "copy_ok src old (mem s') (files s' out) c' \<and> step_frame files mem live out (c, s) (c', s')"
  proof (cases c)
    case Copy_stat
    show ?thesis
      using copy_stat_ok [OF laws(1) fds(1) src ok [unfolded Copy_stat] step [unfolded Copy_stat]] own
      by (simp add: Copy_stat)
  next
    case (Copy_alloc sz t vs)
    show ?thesis
      using copy_alloc_ok [OF laws(1) calls(1) src(2) ok [unfolded Copy_alloc] _ step [unfolded Copy_alloc]] own
      by (simp add: Copy_alloc)
  next
    case (Copy_read sz t vs)
    show ?thesis
      using copy_read_ok [OF laws(1) calls(2) fds(1) src ok [unfolded Copy_read] _ step [unfolded Copy_read]] own
      by (simp add: Copy_read)
  next
    case (Copy_write sz t vs)
    show ?thesis
      using copy_write_ok [OF laws(1) calls(2) fds(2) src(2) ok [unfolded Copy_write] _ step [unfolded Copy_write]] own
      by (simp add: Copy_write)
  next
    case (Copy_free sz t vs cont)
    show ?thesis
      using copy_free_ok [OF laws src(2) ok [unfolded Copy_free] _ step [unfolded Copy_free]] own
      by (simp add: Copy_free)
  next
    case (Copy_done ret)
    then show ?thesis using ok step by (auto simp: step_frame_def)
  qed
  then show "copy_ok src old (mem s') (files s' out) c'" "step_frame files mem live out (c, s) (c', s')" by blast+
qed

section \<open>A round\<close>

text \<open>The copies of round \<open>r\<close>: node \<open>i\<close> to node \<open>i + 2 ^ r\<close>, where there is one.\<close>

definition round_pairs :: "c_int \<Rightarrow> c_int list \<Rightarrow> nat \<Rightarrow> (c_int \<times> c_int) list" where
  "round_pairs inp outs r =
     map (\<lambda>i. (node inp outs i, node inp outs (i + 2 ^ r)))
       (filter (\<lambda>i. i + 2 ^ r \<le> length outs) [0..<2 ^ r])"

fun finished :: "copy_state \<Rightarrow> bool" where
  "finished (Copy_done ret) = True"
| "finished _ = False"

fun returned :: "copy_state \<Rightarrow> ssize_t" where
  "returned (Copy_done ret) = ret"
| "returned _ = 0"

inductive round_step :: "'s posix \<Rightarrow> (c_int \<times> c_int) list \<Rightarrow> copy_state list \<times> 's \<Rightarrow> copy_state list \<times> 's \<Rightarrow> bool"
  for px prs where
  copy_moves: "k < length cs \<Longrightarrow> \<not> finished (cs ! k) \<Longrightarrow>
    copy_step px (fst (prs ! k)) (snd (prs ! k)) 0 (cs ! k, s) = (c, s') \<Longrightarrow>
    round_step px prs (cs, s) (cs[k := c], s')"

text \<open>The copies of a round do not meet: no output is written twice, or read.\<close>

definition round_apart :: "c_int set \<Rightarrow> ('s \<Rightarrow> c_int \<Rightarrow> byte list) \<Rightarrow> (c_int \<times> c_int) list \<Rightarrow> 's \<Rightarrow> bool" where
  "round_apart F files prs s0 \<longleftrightarrow>
     distinct (map snd prs) \<and> fst ` set prs \<inter> snd ` set prs = {} \<and> fst ` set prs \<union> snd ` set prs \<subseteq> F \<and>
     (\<forall>i \<in> fst ` set prs. length (files s0 i) < 9223372036854775808)"

definition round_inv :: "('s \<Rightarrow> c_int \<Rightarrow> byte list) \<Rightarrow> ('s \<Rightarrow> ptr \<Rightarrow> byte list) \<Rightarrow> ('s \<Rightarrow> ptr set) \<Rightarrow>
    (c_int \<times> c_int) list \<Rightarrow> 's \<Rightarrow> copy_state list \<times> 's \<Rightarrow> bool" where
  "round_inv files mem live prs s0 x \<longleftrightarrow>
     (case x of (cs, s) \<Rightarrow>
        length cs = length prs \<and>
        (\<forall>g. g \<notin> snd ` set prs \<longrightarrow> files s g = files s0 g) \<and>
        (\<forall>k < length prs. blocks_of (cs ! k) \<subseteq> live s \<and>
           copy_ok (files s0 (fst (prs ! k))) (files s0 (snd (prs ! k))) (mem s) (files s (snd (prs ! k))) (cs ! k)) \<and>
        (\<forall>j < length prs. \<forall>k < length prs. j \<noteq> k \<longrightarrow> blocks_of (cs ! j) \<inter> blocks_of (cs ! k) = {}) \<and>
        live s - (\<Union>k < length prs. blocks_of (cs ! k)) = live s0)"

lemma round_invD:
  assumes "round_inv files mem live prs s0 (cs, s)"
  shows "length cs = length prs" "g \<notin> snd ` set prs \<Longrightarrow> files s g = files s0 g"
    "k < length prs \<Longrightarrow> blocks_of (cs ! k) \<subseteq> live s"
    "k < length prs \<Longrightarrow>
      copy_ok (files s0 (fst (prs ! k))) (files s0 (snd (prs ! k))) (mem s) (files s (snd (prs ! k))) (cs ! k)"
    "j < length prs \<Longrightarrow> k < length prs \<Longrightarrow> j \<noteq> k \<Longrightarrow> blocks_of (cs ! j) \<inter> blocks_of (cs ! k) = {}"
    "live s - (\<Union>k < length prs. blocks_of (cs ! k)) = live s0"
  using assms unfolding round_inv_def by simp_all

lemma round_inv_start:
  "round_inv files mem live prs s (replicate (length prs) Copy_stat, s)"
  by (simp add: round_inv_def)

lemma round_step_inv:
  assumes laws: "posix_laws px F files mem live" "free_frame_law px mem live"
    and calls: "alloc_succeeds px" "transfers_complete px F files"
    and apart: "round_apart F files prs s0"
    and inv: "round_inv files mem live prs s0 x" and step: "round_step px prs x y"
  shows "round_inv files mem live prs s0 y"
  using step
proof cases
  case (copy_moves k cs s c s')
  note I = round_invD [OF inv [unfolded copy_moves(1)]]
  have k: "k < length prs" using copy_moves(3) I(1) by simp
  let ?i = "\<lambda>k. fst (prs ! k)" and ?o = "\<lambda>k. snd (prs ! k)" and ?b = "\<lambda>k. blocks_of (cs ! k)"
  have mems: "?i k \<in> fst ` set prs" "?o k \<in> snd ` set prs" using k by simp_all
  have fds: "?i k \<in> F" "?o k \<in> F" using apart mems unfolding round_apart_def by blast+
  have "?i k \<notin> snd ` set prs" using apart mems(1) unfolding round_apart_def by blast
  then have src: "files s (?i k) = files s0 (?i k)" by (rule I(2))
  have len: "length (files s0 (?i k)) < 9223372036854775808"
    using apart mems(1) unfolding round_apart_def by blast
  note S = copy_step_ok [OF laws calls fds src len I(4) [OF k] I(3) [OF k] copy_moves(5)]
  have frame: "\<And>g. g \<noteq> ?o k \<Longrightarrow> files s' g = files s g" "blocks_of c \<subseteq> live s'"
    "live s' - blocks_of c = live s - ?b k" "\<And>q. q \<in> live s - ?b k \<Longrightarrow> mem s' q = mem s q"
    using S(2) by (simp_all add: step_frame_def)
  have others: "?b j \<subseteq> live s - ?b k" if "j < length prs" "j \<noteq> k" for j
    using I(3) [OF that(1)] I(5) [OF that(1) k that(2)] by blast
  have out: "?o j \<noteq> ?o k" if "j < length prs" "j \<noteq> k" for j
    using apart that k nth_eq_iff_index_eq [of "map snd prs" j k] by (simp add: round_apart_def)
  let ?cs = "cs[k := c]"
  have nth: "?cs ! j = (if j = k then c else cs ! j)" for j using k I(1) by (simp add: nth_list_update)
  have "copy_ok (files s0 (?i j)) (files s0 (?o j)) (mem s') (files s' (?o j)) (?cs ! j) \<and>
      blocks_of (?cs ! j) \<subseteq> live s'" if j: "j < length prs" for j
  proof (cases "j = k")
    case True
    then show ?thesis using S(1) frame(2) by (simp add: nth)
  next
    case False
    have "\<forall>q \<in> ?b j. mem s' q = mem s q" using others [OF j False] frame(4) by blast
    from copy_ok_mem [OF I(4) [OF j] this] frame(1) [OF out [OF j False]]
    have "copy_ok (files s0 (?i j)) (files s0 (?o j)) (mem s') (files s' (?o j)) (cs ! j)" by simp
    moreover have "?b j \<subseteq> live s'" using others [OF j False] frame(3) by blast
    ultimately show ?thesis using False by (simp add: nth)
  qed
  moreover have "blocks_of (?cs ! i) \<inter> blocks_of (?cs ! j) = {}"
    if ij: "i < length prs" "j < length prs" "i \<noteq> j" for i j
  proof -
    have "?b m \<inter> blocks_of c = {}" if "m < length prs" "m \<noteq> k" for m
      using others [OF that] frame(3) by blast
    then show ?thesis using I(5) [OF ij] ij by (auto simp: nth)
  qed
  moreover have "files s' g = files s0 g" if "g \<notin> snd ` set prs" for g
  proof -
    have "g \<noteq> ?o k" using that mems(2) by blast
    then show ?thesis using frame(1) I(2) [OF that] by simp
  qed
  moreover have "live s' - (\<Union>j < length prs. blocks_of (?cs ! j)) = live s0"
  proof -
    have split: "(\<Union>j < length prs. f j) = f k \<union> (\<Union>j \<in> {..<length prs} - {k}. f j)" for f :: "nat \<Rightarrow> ptr set"
      using k by blast
    have "(\<Union>j < length prs. blocks_of (?cs ! j)) = blocks_of c \<union> (\<Union>j \<in> {..<length prs} - {k}. ?b j)"
      unfolding split [of "\<lambda>j. blocks_of (?cs ! j)"] by (simp add: nth)
    then have "live s' - (\<Union>j < length prs. blocks_of (?cs ! j)) =
        (live s - ?b k) - (\<Union>j \<in> {..<length prs} - {k}. ?b j)" using frame(3) by blast
    also have "\<dots> = live s - (\<Union>j < length prs. ?b j)" unfolding split [of ?b] by blast
    finally show ?thesis using I(6) by simp
  qed
  ultimately show ?thesis using I(1) unfolding copy_moves(2) round_inv_def by simp
qed

text \<open>A round that has finished.\<close>

lemma round_finished:
  assumes laws: "posix_laws px F files mem live" "free_frame_law px mem live"
    and calls: "alloc_succeeds px" "transfers_complete px F files"
    and apart: "round_apart F files prs s0"
    and run: "(round_step px prs)\<^sup>*\<^sup>* (replicate (length prs) Copy_stat, s0) (cs, s)" "\<forall>c \<in> set cs. finished c"
  shows "live s = live s0" "g \<notin> snd ` set prs \<Longrightarrow> files s g = files s0 g"
    "k < length prs \<Longrightarrow> files s (snd (prs ! k)) =
       files s0 (fst (prs ! k)) @ drop (length (files s0 (fst (prs ! k)))) (files s0 (snd (prs ! k)))"
    "map returned cs = map (\<lambda>pr. of_nat (length (files s0 (fst pr)))) prs"
proof -
  let ?inv = "round_inv files mem live prs s0"
  have "invariant_system ?inv (round_step px prs) ?inv"
    by (rule invariant_system.intro) (assumption | rule round_step_inv [OF laws calls apart])+
  from invariant_system.reachable_inv [OF this round_inv_start run(1)]
  have inv: "?inv (cs, s)" .
  note I = round_invD [OF inv]
  have over: "\<exists>ret. cs ! k = Copy_done ret" if "k < length prs" for k
  proof -
    have "finished (cs ! k)" using run(2) that I(1) by simp
    then show ?thesis by (cases "cs ! k") simp_all
  qed
  have "blocks_of (cs ! k) = {}" if "k < length prs" for k using over [OF that] by auto
  then show "live s = live s0" using I(6) by simp
  show "files s g = files s0 g" if "g \<notin> snd ` set prs" using I(2) [OF that] .
  show "files s (snd (prs ! k)) =
      files s0 (fst (prs ! k)) @ drop (length (files s0 (fst (prs ! k)))) (files s0 (snd (prs ! k)))"
    if "k < length prs" using I(4) [OF that] over [OF that] by auto
  show "map returned cs = map (\<lambda>pr. of_nat (length (files s0 (fst pr)))) prs"
  proof (rule nth_equalityI)
    fix k assume "k < length (map returned cs)"
    then have k: "k < length prs" using I(1) by simp
    show "map returned cs ! k = map (\<lambda>pr. of_nat (length (files s0 (fst pr)))) prs ! k"
      using I(4) [OF k] over [OF k] k I(1) by auto
  qed (simp add: I(1))
qed

section \<open>The rounds\<close>

text \<open>\<open>k\<close> rounds from round \<open>r\<close> on, each begun when the one before has finished.\<close>

inductive parallel_rounds :: "'s posix \<Rightarrow> c_int \<Rightarrow> c_int list \<Rightarrow> nat \<Rightarrow> nat \<Rightarrow> size_t \<times> 's \<Rightarrow> size_t \<times> 's \<Rightarrow> bool"
  for px inp outs where
  rounds_over: "parallel_rounds px inp outs r 0 x x"
| round_runs: "(round_step px (round_pairs inp outs r))\<^sup>*\<^sup>*
      (replicate (length (round_pairs inp outs r)) Copy_stat, s) (cs, s1) \<Longrightarrow>
    \<forall>c \<in> set cs. finished c \<Longrightarrow>
    parallel_rounds px inp outs (Suc r) k (data_transfer + sum_list (map returned cs), s1) y \<Longrightarrow>
    parallel_rounds px inp outs r (Suc k) (data_transfer, s) y"

inductive_cases parallel_rounds_0E: "parallel_rounds px inp outs r 0 x y"
inductive_cases parallel_rounds_SucE: "parallel_rounds px inp outs r (Suc k) (d, s) y"

definition parallel_broadcast :: "'s posix \<Rightarrow> c_int \<Rightarrow> c_int list \<Rightarrow> 's \<Rightarrow> size_t \<Rightarrow> 's \<Rightarrow> bool" where
  "parallel_broadcast px inp outs s total_bytes s' \<longleftrightarrow>
     parallel_rounds px inp outs 0 (total_rounds (length outs + 1)) (0, s) (total_bytes, s')"

lemma round_pairs_set:
  "set (round_pairs inp outs r) = {(node inp outs i, node inp outs (i + 2 ^ r)) |i. i < 2 ^ r \<and> i + 2 ^ r \<le> length outs}"
  by (auto simp: round_pairs_def)

lemma round_ends:
  "fst ` set (round_pairs inp outs r) = {node inp outs i |i. i < 2 ^ r \<and> i + 2 ^ r \<le> length outs}"
  "snd ` set (round_pairs inp outs r) = {node inp outs (i + 2 ^ r) |i. i < 2 ^ r \<and> i + 2 ^ r \<le> length outs}"
  unfolding round_pairs_def set_map image_image prod.sel by (simp_all only: set_filter image_Collect set_upt) auto

lemma round_pairs_length: "length (round_pairs inp outs r) = min (2 ^ r) (Suc (length outs) - 2 ^ r)"
  by (simp only: round_pairs_def length_map filter_below)

text \<open>In a round of the tree the senders hold the input, and every receiver is written once.\<close>

lemma round_pairs_apart:
  assumes ready: "tree_ready px F files mem live inp outs s0"
    and inv: "tree_inv files live inp outs s0 {..<2 ^ r} s"
  shows "round_apart F files (round_pairs inp outs r) s"
    and "\<forall>i \<in> fst ` set (round_pairs inp outs r). files s i = files s0 inp"
proof -
  let ?prs = "round_pairs inp outs r" and ?n = "node inp outs"
  have node: "?n j = ?n k \<longleftrightarrow> j = k" if "j \<le> length outs" "k \<le> length outs" for j k
    using tree_ready_node_eq [OF ready that] .
  have "files s (?n i) = files s0 inp" if "i < 2 ^ r" "i + 2 ^ r \<le> length outs" for i
    using inv that by (simp add: tree_inv_def)
  then show held: "\<forall>i \<in> fst ` set ?prs. files s i = files s0 inp" unfolding round_ends by blast
  have "map snd ?prs = map (\<lambda>i. ?n (i + 2 ^ r)) (filter (\<lambda>i. i + 2 ^ r \<le> length outs) [0..<2 ^ r])"
    by (simp add: round_pairs_def)
  moreover have "inj_on (\<lambda>i. ?n (i + 2 ^ r)) (set (filter (\<lambda>i. i + 2 ^ r \<le> length outs) [0..<2 ^ r]))"
  proof (rule inj_onI)
    fix i j
    assume "i \<in> set (filter (\<lambda>i. i + 2 ^ r \<le> length outs) [0..<2 ^ r])"
      "j \<in> set (filter (\<lambda>i. i + 2 ^ r \<le> length outs) [0..<2 ^ r])" "?n (i + 2 ^ r) = ?n (j + 2 ^ r)"
    with node [of "i + 2 ^ r" "j + 2 ^ r"] show "i = j" by simp
  qed
  ultimately have "distinct (map snd ?prs)" by (simp add: distinct_map)
  moreover have "fst ` set ?prs \<inter> snd ` set ?prs = {}"
  proof -
    have "?n i \<noteq> ?n (j + 2 ^ r)" if "i < 2 ^ r" "i + 2 ^ r \<le> length outs" "j + 2 ^ r \<le> length outs" for i j
      using node [of i "j + 2 ^ r"] that by simp
    then show ?thesis unfolding round_ends by blast
  qed
  moreover have "fst ` set ?prs \<union> snd ` set ?prs \<subseteq> F"
  proof -
    have "?n k \<in> F" if "k \<le> length outs" for k using tree_ready_node(1) [OF ready that] .
    moreover have "i \<le> length outs" if "i + 2 ^ r \<le> length outs" for i using that by simp
    ultimately show ?thesis unfolding round_ends by blast
  qed
  moreover have "\<forall>i \<in> fst ` set ?prs. length (files s i) < 9223372036854775808"
    using held ready by (simp add: tree_ready_def)
  ultimately show "round_apart F files ?prs s" by (simp add: round_apart_def)
qed

text \<open>A finished round passes the input on to twice as many nodes.\<close>

lemma parallel_round_delivers:
  assumes ready: "tree_ready px F files mem live inp outs s0"
    and laws: "free_frame_law px mem live"
    and calls: "alloc_succeeds px" "transfers_complete px F files"
    and inv: "tree_inv files live inp outs s0 {..<2 ^ r} s"
    and run: "(round_step px (round_pairs inp outs r))\<^sup>*\<^sup>*
      (replicate (length (round_pairs inp outs r)) Copy_stat, s) (cs, s1)" "\<forall>c \<in> set cs. finished c"
  shows "tree_inv files live inp outs s0 {..<2 ^ Suc r} s1"
    and "sum_list (map returned cs) =
      of_nat (min (2 ^ r) (Suc (length outs) - 2 ^ r)) * of_nat (length (files s0 inp))"
proof -
  let ?prs = "round_pairs inp outs r" and ?n = "node inp outs"
  note apart = round_pairs_apart [OF ready inv]
  have px: "posix_laws px F files mem live" using ready by (simp add: tree_ready_def)
  note R = round_finished [OF px laws calls apart(1) run]
  have got: "files s1 (?n k) = files s0 inp" if "2 ^ r \<le> k" "k < 2 ^ Suc r" "k \<le> length outs" for k
  proof -
    have "(?n (k - 2 ^ r), ?n k) \<in> set ?prs"
      using that unfolding round_pairs_set by (intro CollectI exI [of _ "k - 2 ^ r"]) auto
    then obtain j where j: "j < length ?prs" "?prs ! j = (?n (k - 2 ^ r), ?n k)" by (auto simp: in_set_conv_nth)
    have "?n (k - 2 ^ r) \<in> fst ` set ?prs" using \<open>(?n (k - 2 ^ r), ?n k) \<in> set ?prs\<close> by force
    then have "files s (?n (k - 2 ^ r)) = files s0 inp" using apart(2) by blast
    moreover have "files s (?n k) = files s0 (?n k)"
      using inv [unfolded tree_inv_def, THEN conjunct2, THEN conjunct1, rule_format, OF that(3)] that(1) by simp
    ultimately show ?thesis using R(3) [OF j(1)] j(2) tree_ready_node(2) [OF ready that(3)] by simp
  qed
  have kept: "files s1 (?n k) = files s (?n k)" if "k \<le> length outs" "k < 2 ^ r \<or> 2 ^ Suc r \<le> k" for k
  proof (rule R(2))
    have "?n k \<noteq> ?n (i + 2 ^ r)" if "i < 2 ^ r" "i + 2 ^ r \<le> length outs" for i
      using tree_ready_node_eq [OF ready \<open>k \<le> length outs\<close> that(2)] that(1) \<open>k < 2 ^ r \<or> 2 ^ Suc r \<le> k\<close> by auto
    then show "?n k \<notin> snd ` set ?prs" unfolding round_ends by blast
  qed
  have "files s1 (?n k) = (if k \<in> {..<2 ^ Suc r} then files s0 inp else files s0 (?n k))"
    if k: "k \<le> length outs" for k
  proof (cases "2 ^ r \<le> k \<and> k < 2 ^ Suc r")
    case True
    then show ?thesis using got k by simp
  next
    case False
    then have "k < 2 ^ r \<or> 2 ^ Suc r \<le> k" by auto
    then show ?thesis using kept [OF k] inv k by (auto simp: tree_inv_def)
  qed
  moreover have "files s1 g = files s0 g" if "g \<notin> set (inp # outs)" for g
  proof -
    have "?n k \<noteq> g" if "k \<le> length outs" for k
      using nth_mem [of k "inp # outs"] that \<open>g \<notin> set (inp # outs)\<close> by auto
    then have "g \<notin> snd ` set ?prs" unfolding round_ends by blast
    then show ?thesis using R(2) inv that by (simp add: tree_inv_def)
  qed
  moreover have "live s1 = live s0" using R(1) inv by (simp add: tree_inv_def)
  ultimately show "tree_inv files live inp outs s0 {..<2 ^ Suc r} s1" unfolding tree_inv_def by blast
  have "map returned cs = map (\<lambda>pr. of_nat (length (files s0 inp))) ?prs"
    unfolding R(4) using apart(2) by (intro map_cong) auto
  then show "sum_list (map returned cs) =
      of_nat (min (2 ^ r) (Suc (length outs) - 2 ^ r)) * of_nat (length (files s0 inp))"
    by (simp only: sum_list_triv round_pairs_length)
qed

lemma count_doubles:
  "min (2 ^ r) (Suc n) - 1 + min (2 ^ r) (Suc n - 2 ^ r) = min (2 ^ Suc r) (Suc n) - (1 :: nat)"
  using one_le_power [of "2 :: nat" r] by (auto simp: min_def)

lemma parallel_rounds_deliver:
  assumes ready: "tree_ready px F files mem live inp outs s0"
    and laws: "free_frame_law px mem live"
    and calls: "alloc_succeeds px" "transfers_complete px F files"
  shows "tree_inv files live inp outs s0 {..<2 ^ r} s \<Longrightarrow>
    parallel_rounds px inp outs r k
      (of_nat (min (2 ^ r) (Suc (length outs)) - 1) * of_nat (length (files s0 inp)), s) (n, s') \<Longrightarrow>
    n = of_nat (min (2 ^ (r + k)) (Suc (length outs)) - 1) * of_nat (length (files s0 inp)) \<and>
    tree_inv files live inp outs s0 {..<2 ^ (r + k)} s'"
proof (induction k arbitrary: r s)
  case 0
  then show ?case by (auto elim: parallel_rounds_0E)
next
  case (Suc k)
  let ?L = "of_nat (length (files s0 inp)) :: size_t"
  from Suc.prems(2) obtain cs s1 where
    run: "(round_step px (round_pairs inp outs r))\<^sup>*\<^sup>*
        (replicate (length (round_pairs inp outs r)) Copy_stat, s) (cs, s1)" "\<forall>c \<in> set cs. finished c"
    and rest: "parallel_rounds px inp outs (Suc r) k
        (of_nat (min (2 ^ r) (Suc (length outs)) - 1) * ?L + sum_list (map returned cs), s1) (n, s')"
    by (auto elim: parallel_rounds_SucE)
  note R = parallel_round_delivers [OF ready laws calls Suc.prems(1) run]
  have "of_nat (min (2 ^ r) (Suc (length outs)) - 1) * ?L + sum_list (map returned cs) =
      of_nat (min (2 ^ Suc r) (Suc (length outs)) - 1) * ?L"
    unfolding R(2) by (simp only: distrib_right [symmetric] of_nat_add [symmetric] count_doubles)
  from Suc.IH [OF R(1)] rest [unfolded this] show ?case by simp
qed

section \<open>Every round ends\<close>

text \<open>
  Whatever the calls answer, each step brings its copy nearer to its end: what is left of the
  file counts first, then the phase of the window, then the blocks to go. Inside the loop
  \<open>total_processed\<close> is below the size.
\<close>

fun in_loop :: "copy_state \<Rightarrow> bool" where
  "in_loop (Copy_alloc sz t vs) = (t <s sz)"
| "in_loop (Copy_read sz t vs) = (t <s sz)"
| "in_loop (Copy_write sz t vs) = (t <s sz)"
| "in_loop (Copy_free sz t vs ok) = (t <s sz)"
| "in_loop _ = True"

fun copy_rank :: "copy_state \<Rightarrow> nat \<times> nat \<times> nat \<times> nat" where
  "copy_rank Copy_stat = (2, 0, 0, 0)"
| "copy_rank (Copy_alloc sz t vs) =
     (1, unat (sz - t), 3, unat (readv_blocks (readv_window sz t)) - length vs)"
| "copy_rank (Copy_read sz t vs) = (1, unat (sz - t), 2, 0)"
| "copy_rank (Copy_write sz t vs) = (1, unat (sz - t), 1, 0)"
| "copy_rank (Copy_free sz t vs ok) = (1, unat (sz - t), 0, length vs)"
| "copy_rank (Copy_done ret) = (0, 0, 0, 0)"

definition copy_order :: "(copy_state \<times> copy_state) set" where
  "copy_order = inv_image (less_than <*lex*> less_than <*lex*> less_than <*lex*> less_than) copy_rank"

lemma wf_copy_order: "wf copy_order"
  by (simp add: copy_order_def wf_inv_image wf_lex_prod)

lemma copy_step_descends:
  assumes "copy_step px i out off (c, s) = (c', s')" "\<not> finished c" "in_loop c"
  shows "in_loop c' \<and> (c', c) \<in> copy_order"
  using assms readv_window_progress
  by (cases "(px, i, out, off, c, s)" rule: copy_step.cases)
    (auto simp: copy_order_def loop_head_def Let_def split: if_splits prod.splits option.splits)

definition round_order :: "(copy_state list \<times> copy_state list) set" where
  "round_order = inv_image (mult copy_order) mset"

lemma wf_round_order: "wf round_order"
  by (simp add: round_order_def wf_inv_image wf_mult wf_copy_order)

lemma round_step_descends:
  assumes "round_step px prs x y" "list_all in_loop (fst x)"
  shows "list_all in_loop (fst y) \<and> (fst y, fst x) \<in> round_order"
  using assms(1)
proof cases
  case (copy_moves k cs s c s')
  have "in_loop (cs ! k)" using assms(2) copy_moves(1,3) by (simp add: list_all_length)
  note d = copy_step_descends [OF copy_moves(5,4) this]
  have "(mset cs - {#cs ! k#} + {#c#}, mset cs - {#cs ! k#} + {#cs ! k#}) \<in> mult copy_order"
    using d by (intro one_step_implies_mult) auto
  then have "(mset (cs[k := c]), mset cs) \<in> mult copy_order"
    using copy_moves(3) by (simp add: mset_update)
  moreover have "list_all in_loop (cs[k := c])"
    using d assms(2) copy_moves(1,3) by (auto simp: list_all_length nth_list_update)
  ultimately show ?thesis by (simp add: copy_moves(1,2) round_order_def)
qed

lemma round_steps_from:
  "(round_step px prs)\<^sup>*\<^sup>* x y \<Longrightarrow> list_all in_loop (fst x) \<Longrightarrow> list_all in_loop (fst y)"
  by (induction rule: rtranclp_induct) (auto dest: round_step_descends)

lemma round_stuck: "(\<nexists>y. round_step px prs (cs, s) y) \<longleftrightarrow> (\<forall>c \<in> set cs. finished c)"
proof
  assume stuck: "\<nexists>y. round_step px prs (cs, s) y"
  show "\<forall>c \<in> set cs. finished c"
  proof (rule ccontr)
    assume "\<not> (\<forall>c \<in> set cs. finished c)"
    then obtain k where k: "k < length cs" "\<not> finished (cs ! k)" by (auto simp: in_set_conv_nth)
    obtain c s' where "copy_step px (fst (prs ! k)) (snd (prs ! k)) 0 (cs ! k, s) = (c, s')" by fastforce
    from copy_moves [of k cs px prs, OF k this] stuck show False by blast
  qed
next
  assume "\<forall>c \<in> set cs. finished c"
  then show "\<nexists>y. round_step px prs (cs, s) y" by (auto elim: round_step.cases)
qed

lemma round_ends_somehow:
  "list_all in_loop cs \<Longrightarrow> \<exists>cs' s'. (round_step px prs)\<^sup>*\<^sup>* (cs, s) (cs', s') \<and> (\<forall>c \<in> set cs'. finished c)"
proof (induction cs arbitrary: s rule: wf_induct_rule [OF wf_round_order])
  case (1 cs)
  show ?case
  proof (cases "\<exists>y. round_step px prs (cs, s) y")
    case True
    then obtain cs1 s1 where st: "round_step px prs (cs, s) (cs1, s1)" by (metis surj_pair)
    from round_step_descends [OF st] "1.prems" have "list_all in_loop cs1" "(cs1, cs) \<in> round_order" by simp_all
    from "1.IH" [OF this(2,1), of s1] st show ?thesis by (meson converse_rtranclp_into_rtranclp)
  next
    case False
    then show ?thesis using round_stuck [of px prs cs s] by blast
  qed
qed

lemma parallel_rounds_end: "\<exists>y. parallel_rounds px inp outs r k (d, s) y"
proof (induction k arbitrary: r d s)
  case 0
  show ?case by (blast intro: rounds_over)
next
  case (Suc k)
  have "list_all in_loop (replicate (length (round_pairs inp outs r)) Copy_stat)" by (simp add: list_all_length)
  from round_ends_somehow [OF this, of px "round_pairs inp outs r" s] obtain cs s1 where
    "(round_step px (round_pairs inp outs r))\<^sup>*\<^sup>*
      (replicate (length (round_pairs inp outs r)) Copy_stat, s) (cs, s1)" "\<forall>c \<in> set cs. finished c" by blast
  with Suc.IH [of "Suc r" "d + sum_list (map returned cs)" s1] show ?case by (blast intro: round_runs)
qed

lemma no_endless_round:
  assumes "list_all in_loop (fst (f 0))"
  shows "\<not> (\<forall>j. round_step px prs (f j) (f (Suc j)))"
proof
  assume steps: "\<forall>j. round_step px prs (f j) (f (Suc j))"
  have "list_all in_loop (fst (f j))" for j
    by (induction j) (use assms steps round_step_descends in blast)+
  then have "(fst (f (Suc j)), fst (f j)) \<in> round_order" for j using round_step_descends steps by blast
  then have "\<exists>g. \<forall>j. (g (Suc j), g j) \<in> round_order" by (intro exI [of _ "\<lambda>j. fst (f j)"]) blast
  with wf_round_order show False unfolding wf_iff_no_infinite_down_chain by blast
qed

section \<open>Properties\<close>

text \<open>
  The calls of a copy, taken one by one, are the function. Run to its end without
  interruption, whatever the calls answer, a copy returns what \<open>submit_read_write\<close> returns
  and leaves the state it leaves.
\<close>

lemma copy_steps_are_submit_read_write:
  "copy_steps px input output start_offset (Copy_stat, s)
     (Copy_done (fst (submit_read_write px input output start_offset s)),
      snd (submit_read_write px input output start_offset s))"
  using copy_runs [of px "input" "output" "start_offset" s] by (simp add: case_prod_beta)

text \<open>
  C9: the tree delivers with its copies side by side. With different outputs no longer than the
  input, succeeding allocations and complete transfers, whichever way the system calls of the
  copies of a round are interleaved, every run of the broadcast ends with each output holding the input's bytes, every other file
  unchanged, no block allocated that was not before, and the total the number of outputs
  times the size.
\<close>

theorem parallel_broadcast_delivers:
  assumes ready: "tree_ready px F files mem live inp outs s" and "free_frame_law px mem live"
    and "alloc_succeeds px" "transfers_complete px F files"
    and run: "parallel_broadcast px inp outs s n s'"
  shows "n = of_nat (length outs) * of_nat (length (files s inp)) \<and>
    (\<forall>out \<in> set outs. files s' out = files s inp) \<and>
    (\<forall>g. g \<notin> set outs \<longrightarrow> files s' g = files s g) \<and> live s' = live s"
proof -
  let ?R = "total_rounds (Suc (length outs))"
  have "tree_inv files live inp outs s {..<2 ^ 0} s" by (auto simp: tree_inv_def)
  from parallel_rounds_deliver [OF assms(1-4) this, of ?R n s'] run
  have n: "n = of_nat (min (2 ^ ?R) (Suc (length outs)) - 1) * of_nat (length (files s inp))"
    and inv: "tree_inv files live inp outs s {..<2 ^ ?R} s'"
    by (simp_all add: parallel_broadcast_def)
  have "min (2 ^ ?R) (Suc (length outs)) - 1 = length outs"
    using total_rounds_cover [of "Suc (length outs)"] by simp
  from n [unfolded this] tree_inv_all [OF inv] show ?thesis by blast
qed

theorem parallel_broadcast_delivers_witness:
  "\<exists>s'. parallel_broadcast mem_os 3 [5, 6, 7, 8, 9] demo_os 15 s' \<and>
     (\<forall>out \<in> {5, 6, 7, 8, 9}. ms_files s' out = [1, 2, 3]) \<and> ms_files s' 4 = [9, 9, 9, 9, 9]"
proof -
  have ready: "tree_ready mem_os UNIV ms_files ms_mem mem_live 3 [5, 6, 7, 8, 9] demo_os"
    using mem_os_laws [of UNIV] by (simp add: tree_ready_def demo_os_def)
  obtain n s' where run: "parallel_broadcast mem_os 3 [5, 6, 7, 8, 9] demo_os n s'"
    using parallel_rounds_end [of mem_os] unfolding parallel_broadcast_def by (metis surj_pair)
  from parallel_broadcast_delivers [OF ready mem_os_free_frame mem_os_alloc mem_os_complete run] run
  show ?thesis by (auto simp: demo_os_def)
qed

text \<open>
  C24: every run of every round ends, whatever the calls answer. No sequence of steps of the
  copies of a round goes on for ever; it can only stop when all of them have returned; and so
  the broadcast always has a result.
\<close>

theorem parallel_broadcast_ends:
  "(\<nexists>f. f 0 = (replicate (length prs) Copy_stat, s) \<and> (\<forall>j. round_step px prs (f j) (f (Suc j)))) \<and>
   ((\<nexists>y. round_step px prs (cs, s) y) \<longleftrightarrow> (\<forall>c \<in> set cs. finished c)) \<and>
   (\<exists>n s'. parallel_broadcast px inp outs s n s')"
proof (intro conjI)
  show "\<nexists>f. f 0 = (replicate (length prs) Copy_stat, s) \<and> (\<forall>j. round_step px prs (f j) (f (Suc j)))"
  proof
    assume "\<exists>f. f 0 = (replicate (length prs) Copy_stat, s) \<and> (\<forall>j. round_step px prs (f j) (f (Suc j)))"
    then obtain f where f: "f 0 = (replicate (length prs) Copy_stat, s)" "\<forall>j. round_step px prs (f j) (f (Suc j))"
      by blast
    have "list_all in_loop (fst (f 0))" by (simp add: f(1) list_all_length)
    then have "\<not> (\<forall>j. round_step px prs (f j) (f (Suc j)))" by (rule no_endless_round)
    with f(2) show False by blast
  qed
  show "(\<nexists>y. round_step px prs (cs, s) y) \<longleftrightarrow> (\<forall>c \<in> set cs. finished c)" by (rule round_stuck)
  show "\<exists>n s'. parallel_broadcast px inp outs s n s'"
    using parallel_rounds_end [of px inp outs 0 "total_rounds (length outs + 1)" 0 s]
    unfolding parallel_broadcast_def by (metis surj_pair)
qed

theorem parallel_broadcast_ends_witness:
  "\<exists>n s'. parallel_broadcast broken_os 3 [5, 6, 7] demo_os n s'"
  using parallel_broadcast_ends [of "[]" demo_os broken_os "[]" 3 "[5, 6, 7]"] by blast

end
