(* ===== verification/Main_Driver.thy ===== *)
theory Main_Driver
  imports Manage_Pipe
begin

text \<open>
  \<open>source/main.cpp\<close>: the command line, the output files and pipes, and the choice of the
  engine. The system calls and the engines are functions over one abstract state \<open>'s\<close>; the
  engines are the subject of their own theories. Handles are represented by their
  descriptors (\<open>IO_Handle\<close> says when each is closed): a return from \<open>main\<close> destroys its
  locals, in reverse order of construction; \<open>exit\<close> destroys none of them. Timing and
  printing are left out.
\<close>

section \<open>The command line\<close>

text \<open>
  \<open>atoi\<close>: white space, an optional sign, digits up to the first other character. C leaves a
  value outside the range of \<open>int\<close> undefined; here it is the number that was written.
\<close>

definition is_space :: "char \<Rightarrow> bool" where
  "is_space c \<longleftrightarrow> c \<in> set '' '' \<or> (9 \<le> (of_char c :: nat) \<and> (of_char c :: nat) \<le> 13)"

definition is_digit :: "char \<Rightarrow> bool" where
  "is_digit c \<longleftrightarrow> 48 \<le> (of_char c :: nat) \<and> (of_char c :: nat) \<le> 57"

definition atoi :: "string \<Rightarrow> int" where
  "atoi s =
     (case dropWhile is_space s of
        [] \<Rightarrow> 0
      | c # cs \<Rightarrow>
          if c = CHR ''-'' then - int (read_nat (takeWhile is_digit cs))
          else if c = CHR ''+'' then int (read_nat (takeWhile is_digit cs))
          else int (read_nat (takeWhile is_digit (c # cs))))"

text \<open>
  \<open>std::filesystem::path::extension\<close>: from the last dot of the file name on, unless that dot
  is its first character or the name is \<open>..\<close>.
\<close>

definition path_filename :: "string \<Rightarrow> string" where
  "path_filename p = rev (takeWhile (\<lambda>c. c \<noteq> CHR ''/'') (rev p))"

definition path_extension :: "string \<Rightarrow> string" where
  "path_extension p =
     (let f = path_filename p; tail = rev (takeWhile (\<lambda>c. c \<noteq> CHR ''.'') (rev f)) in
      if f = ''..'' \<or> CHR ''.'' \<notin> set f \<or> length f = length tail + 1 then '''' else CHR ''.'' # tail)"

definition get_system_pipe_limit :: "int option \<Rightarrow> int \<Rightarrow> int" where
  "get_system_pipe_limit pipe_max_size requested_size =
     (case pipe_max_size of
        Some system_max \<Rightarrow> if requested_size < system_max then requested_size else system_max
      | None \<Rightarrow> 65536)"

definition out_dir :: "int \<Rightarrow> int \<Rightarrow> string" where
  "out_dir mode copies = ''./resource/'' @ show_int mode @ ''/'' @
     (if copies = 1 then ''Single'' else if copies = 2 then ''Dual'' else ''Multi'')"

definition output_name :: "string \<Rightarrow> int \<Rightarrow> string \<Rightarrow> string" where
  "output_name dir i ext = dir @ ''/output_'' @ show_int i @ ext"

section \<open>The calls\<close>

datatype open_mode = RDONLY | RDWR | RDWR_CREAT_TRUNC | WRONLY_CREAT_TRUNC

record 's main_calls =
  mc_open :: "string \<Rightarrow> open_mode \<Rightarrow> 's \<Rightarrow> c_int \<times> 's"
  mc_close :: "c_int \<Rightarrow> 's \<Rightarrow> 's"
  mc_dup :: "c_int \<Rightarrow> 's \<Rightarrow> c_int \<times> 's"
  mc_setpipe_sz :: "c_int \<Rightarrow> int \<Rightarrow> 's \<Rightarrow> 's"
  mc_create_directories :: "string \<Rightarrow> 's \<Rightarrow> c_int option \<times> 's"
  mc_mkfifo :: "string \<Rightarrow> 's \<Rightarrow> c_int option \<times> 's"
  mc_unlink :: "string \<Rightarrow> 's \<Rightarrow> 's"

record 's engines =
  en_readv :: "c_int \<Rightarrow> c_int list \<Rightarrow> 's \<Rightarrow> (cpp_error + size_t) \<times> 's"
  en_uring :: "c_int \<Rightarrow> c_int list \<Rightarrow> 's \<Rightarrow> (cpp_error + size_t) \<times> 's"
  en_splice :: "c_int \<Rightarrow> c_int list \<Rightarrow> c_int list \<Rightarrow> c_int list \<Rightarrow> 's \<Rightarrow> (cpp_error + size_t) \<times> 's"
  en_tee :: "c_int \<Rightarrow> c_int \<Rightarrow> c_int \<Rightarrow> c_int list \<Rightarrow> c_int list \<Rightarrow> c_int list \<Rightarrow> 's \<Rightarrow>
    (cpp_error + size_t) \<times> 's"

text \<open>Destruction of handles and of pipes.\<close>

fun close_all :: "'s main_calls \<Rightarrow> c_int list \<Rightarrow> 's \<Rightarrow> 's" where
  "close_all mc [] s = s"
| "close_all mc (fd # fds) s = close_all mc fds (if fd \<noteq> -1 then mc_close mc fd s else s)"

fun unlink_all :: "'s main_calls \<Rightarrow> string list \<Rightarrow> 's \<Rightarrow> 's" where
  "unlink_all mc [] s = s"
| "unlink_all mc (p # ps) s = unlink_all mc ps (destroy_ManagedPipe (mc_unlink mc) p s)"

section \<open>Output files and pipes\<close>

text \<open>The loop that opens the outputs, \<open>n\<close> of them from number \<open>i\<close> on.\<close>

fun open_outputs :: "'s main_calls \<Rightarrow> int \<Rightarrow> string \<Rightarrow> string \<Rightarrow> nat \<Rightarrow> nat \<Rightarrow> 's \<Rightarrow>
    (cpp_error + c_int list) \<times> 's" where
  "open_outputs mc mode dir ext i 0 s = (Inr [], s)"
| "open_outputs mc mode dir ext i (Suc n) s =
     (case mc_open mc (output_name dir (int i) ext)
             (if mode < 3 then RDWR_CREAT_TRUNC else WRONLY_CREAT_TRUNC) s of
        (fd, s1) \<Rightarrow>
          if fd < 0 then (Inl (Exit EIO), s1)
          else
            (case open_outputs mc mode dir ext (Suc i) n s1 of
               (Inl e, s2) \<Rightarrow> (Inl e, s2)
             | (Inr fds, s2) \<Rightarrow> (Inr (fd # fds), s2)))"

text \<open>
  How the \<open>try\<close> block is left: normally, by \<open>return\<close>, or by an exception. The pipes, and the
  write and read ends, built so far go with it, for their destruction.
\<close>

datatype try_exit = Try_ok | Try_return c_int | Try_throw cpp_error

text \<open>A pipe's two handles: the descriptor opened and its duplicate, both resized.\<close>

definition open_ends :: "'s main_calls \<Rightarrow> string \<Rightarrow> 's \<Rightarrow> (c_int \<times> c_int) option \<times> 's" where
  "open_ends mc path s =
     (case mc_open mc path RDWR s of
        (fd, s1) \<Rightarrow>
          if fd < 0 then (None, s1)
          else
            (let s2 = mc_setpipe_sz mc fd (1024 * 1024) s1 in
             case mc_dup mc fd s2 of
               (fd2, s3) \<Rightarrow> (Some (fd, fd2), mc_setpipe_sz mc fd2 (1024 * 1024) s3)))"

fun open_pipes :: "'s main_calls \<Rightarrow> string \<Rightarrow> nat \<Rightarrow> nat \<Rightarrow> 's \<Rightarrow>
    (try_exit \<times> string list \<times> c_int list \<times> c_int list) \<times> 's" where
  "open_pipes mc dir i 0 s = ((Try_ok, [], [], []), s)"
| "open_pipes mc dir i (Suc n) s =
     (case new_ManagedPipe (mc_mkfifo mc) dir (int i + 1) s of
        (Inl e, s1) \<Rightarrow> ((Try_throw e, [], [], []), s1)
      | (Inr path, s1) \<Rightarrow>
          (case open_ends mc path s1 of
             (None, s2) \<Rightarrow> ((Try_return EBADFD, [path], [], []), s2)
           | (Some (w, r), s2) \<Rightarrow>
               (case open_pipes mc dir (Suc i) n s2 of
                  ((x, ps, ws, rs), s3) \<Rightarrow> ((x, path # ps, w # ws, r # rs), s3))))"

section \<open>The program\<close>

text \<open>
  The \<open>try\<close> block of the pipe modes, destruction of its locals included. A
  \<open>std::system_error\<close> of an engine unwinds them as well; what is not caught ends the
  program where it is.
\<close>

definition pipe_modes :: "'s main_calls \<Rightarrow> 's engines \<Rightarrow> int \<Rightarrow> nat \<Rightarrow> string \<Rightarrow> c_int \<Rightarrow> c_int list \<Rightarrow> 's \<Rightarrow>
    (cpp_error + try_exit) \<times> 's" where
  "pipe_modes mc en mode copies dir src outs s =
     (case new_ManagedPipe (mc_mkfifo mc) dir 0 s of
        (Inl e, s1) \<Rightarrow> (Inr (Try_throw e), s1)
      | (Inr path, s1) \<Rightarrow>
          (case open_ends mc path s1 of
             (None, s2) \<Rightarrow> (Inr (Try_return EBADFD), unlink_all mc [path] s2)
           | (Some (input_w, input_r), s2) \<Rightarrow>
               (case open_pipes mc dir 0 copies s2 of
                  ((x, ps, ws, rs), s3) \<Rightarrow>
                    (let unwind = (\<lambda>s. unlink_all mc (path # ps)
                                         (close_all mc (rs @ ws @ [input_r, input_w]) s))
                     in if x = Try_ok then
                          (case (if mode = 3 then en_splice en src outs ws rs s3
                                 else en_tee en src input_w input_r outs ws rs s3) of
                             (Inl (System_error errno), s4) \<Rightarrow>
                               (Inr (Try_throw (System_error errno)), unwind s4)
                           | (Inl e, s4) \<Rightarrow> (Inl e, s4)
                           | (Inr total_bytes, s4) \<Rightarrow> (Inr Try_ok, unwind s4))
                        else (Inr x, unwind s3)))))"

text \<open>\<open>main\<close>: its exit code, or the way it ends otherwise.\<close>

definition engine_run :: "(cpp_error + size_t) \<times> 's \<Rightarrow> ('s \<Rightarrow> 's) \<Rightarrow> (cpp_error + c_int) \<times> 's" where
  "engine_run r finish =
     (case r of (Inl e, s) \<Rightarrow> (Inl e, s) | (Inr total_bytes, s) \<Rightarrow> (Inr 0, finish s))"

definition main_modes :: "'s main_calls \<Rightarrow> 's engines \<Rightarrow> int \<Rightarrow> nat \<Rightarrow> string \<Rightarrow> c_int \<Rightarrow> c_int list \<Rightarrow> 's \<Rightarrow>
    (cpp_error + c_int) \<times> 's" where
  "main_modes mc en mode copies dir source outs s =
     (let finish = close_all mc (outs @ [source]) in
      if mode = 1 then engine_run (en_readv en source outs s) finish
      else if mode = 2 then engine_run (en_uring en source outs s) finish
      else if 2 < mode then
        (case pipe_modes mc en mode copies dir source outs s of
           (Inl e, s') \<Rightarrow> (Inl e, s')
         | (Inr Try_ok, s') \<Rightarrow> (Inr 0, finish s')
         | (Inr (Try_return code), s') \<Rightarrow> (Inr code, finish s')
         | (Inr (Try_throw (System_error errno)), s') \<Rightarrow> (Inr EIO, finish s')
         | (Inr (Try_throw e), s') \<Rightarrow> (Inl e, s'))
      else (Inr 0, finish s))"

definition main :: "'s main_calls \<Rightarrow> 's engines \<Rightarrow> string list \<Rightarrow> 's \<Rightarrow> (cpp_error + c_int) \<times> 's" where
  "main mc en argv s =
     (if length argv < 4 then (Inr EINVAL, s)
      else
        (case mc_open mc (argv ! 2) RDONLY s of
           (source, s1) \<Rightarrow>
             if source < 0 then (Inr EBADFD, s1)
             else
               (let ext = path_extension (argv ! 2);
                    mode = atoi (argv ! 1);
                    copies = atoi (argv ! 3);
                    dir = out_dir mode copies
                in case mc_create_directories mc dir s1 of
                     (Some errno, s2) \<Rightarrow> (Inl (System_error errno), s2)
                   | (None, s2) \<Rightarrow>
                       if copies < 0 then (Inl Length_error, s2)
                       else
                         (case open_outputs mc mode dir ext 0 (nat copies) s2 of
                            (Inl e, s3) \<Rightarrow> (Inl e, s3)
                          | (Inr outs, s3) \<Rightarrow> main_modes mc en mode (nat copies) dir source outs s3))))"

section \<open>What the calls do to descriptors and FIFOs\<close>

text \<open>
  The documented behaviour, on the set of open descriptors and the set of existing FIFOs:
  \<open>open\<close> and \<open>dup\<close> answer a new descriptor or fail, \<open>close\<close> closes one; \<open>mkfifo\<close> makes a
  FIFO or fails, \<open>unlink\<close> removes a name; nothing else touches either.
\<close>

definition fresh_or_failed :: "('s \<Rightarrow> c_int set) \<Rightarrow> 's \<Rightarrow> c_int \<times> 's \<Rightarrow> bool" where
  "fresh_or_failed opened s r \<longleftrightarrow>
     (if fst r < 0 then fst r = -1 \<and> opened (snd r) = opened s
      else fst r \<notin> opened s \<and> opened (snd r) = insert (fst r) (opened s))"

definition main_laws :: "'s main_calls \<Rightarrow> ('s \<Rightarrow> c_int set) \<Rightarrow> ('s \<Rightarrow> string set) \<Rightarrow> bool" where
  "main_laws mc opened fifos \<longleftrightarrow>
     (\<forall>p m s. fresh_or_failed opened s (mc_open mc p m s) \<and> fifos (snd (mc_open mc p m s)) = fifos s) \<and>
     (\<forall>fd s. fresh_or_failed opened s (mc_dup mc fd s) \<and> fifos (snd (mc_dup mc fd s)) = fifos s) \<and>
     (\<forall>fd s. opened (mc_close mc fd s) = opened s - {fd} \<and> fifos (mc_close mc fd s) = fifos s) \<and>
     (\<forall>fd n s. opened (mc_setpipe_sz mc fd n s) = opened s \<and> fifos (mc_setpipe_sz mc fd n s) = fifos s) \<and>
     (\<forall>p s. opened (snd (mc_create_directories mc p s)) = opened s \<and>
        fifos (snd (mc_create_directories mc p s)) = fifos s) \<and>
     (\<forall>p s. opened (snd (mc_mkfifo mc p s)) = opened s \<and>
        fifos (snd (mc_mkfifo mc p s)) =
          (if fst (mc_mkfifo mc p s) = None then insert p (fifos s) else fifos s)) \<and>
     (\<forall>p s. opened (mc_unlink mc p s) = opened s \<and> fifos (mc_unlink mc p s) = fifos s - {p})"

text \<open>
  What is needed of the engines, and proved of the program's own in \<open>Main_Cleanup\<close>: one that
  returns leaves the descriptors and FIFOs as it found them, and in the pipe modes so does one
  that throws what \<open>main\<close> catches there.
\<close>

definition caught :: "cpp_error + size_t \<Rightarrow> bool" where
  "caught x \<longleftrightarrow> (case x of Inl e \<Rightarrow> (\<exists>errno. e = System_error errno) | Inr _ \<Rightarrow> True)"

definition gives_back :: "('s \<Rightarrow> c_int set) \<Rightarrow> ('s \<Rightarrow> string set) \<Rightarrow> 's \<Rightarrow> 's \<Rightarrow> bool" where
  "gives_back opened fifos s s' \<longleftrightarrow> opened s' = opened s \<and> fifos s' = fifos s"

definition engines_law :: "'s engines \<Rightarrow> ('s \<Rightarrow> c_int set) \<Rightarrow> ('s \<Rightarrow> string set) \<Rightarrow> bool" where
  "engines_law en opened fifos \<longleftrightarrow>
     (\<forall>i os s n s'. en_readv en i os s = (Inr n, s') \<longrightarrow> gives_back opened fifos s s') \<and>
     (\<forall>i os s n s'. en_uring en i os s = (Inr n, s') \<longrightarrow> gives_back opened fifos s s') \<and>
     (\<forall>i os ws rs s x s'. en_splice en i os ws rs s = (x, s') \<longrightarrow> caught x \<longrightarrow> gives_back opened fifos s s') \<and>
     (\<forall>i w r os ws rs s x s'. en_tee en i w r os ws rs s = (x, s') \<longrightarrow> caught x \<longrightarrow> gives_back opened fifos s s')"

text \<open>
  \<open>adds\<close>: relative to a start, the run has opened the descriptors of a list (a failed \<open>dup\<close>
  leaves a -1 in it) and made no FIFO outside a list of names.
\<close>

definition held :: "c_int list \<Rightarrow> c_int set" where
  "held fds = {fd \<in> set fds. fd \<noteq> -1}"

definition adds :: "('s \<Rightarrow> c_int set) \<Rightarrow> ('s \<Rightarrow> string set) \<Rightarrow> 's \<Rightarrow> c_int list \<Rightarrow> string list \<Rightarrow> 's \<Rightarrow> bool" where
  "adds opened fifos s0 fds ps s \<longleftrightarrow>
     opened s = opened s0 \<union> held fds \<and> held fds \<inter> opened s0 = {} \<and> fifos s \<subseteq> fifos s0 \<union> set ps"

lemma held_simps [simp]:
  "held [] = {}" "held (fd # fds) = (if fd = -1 then {} else {fd}) \<union> held fds"
  "held (fds @ gds) = held fds \<union> held gds"
  by (auto simp: held_def)

lemma adds_refl: "adds opened fifos s [] [] s"
  by (simp add: adds_def)

lemma adds_trans:
  "adds opened fifos s0 fds ps s1 \<Longrightarrow> adds opened fifos s1 gds qs s2 \<Longrightarrow>
   adds opened fifos s0 (fds @ gds) (ps @ qs) s2"
  by (auto simp: adds_def)

lemma adds_same:
  "adds opened fifos s0 fds ps s1 \<Longrightarrow> opened s2 = opened s1 \<Longrightarrow> fifos s2 = fifos s1 \<Longrightarrow>
   adds opened fifos s0 fds ps s2"
  by (simp add: adds_def)

lemma adds_weaken:
  "adds opened fifos s0 fds ps s \<Longrightarrow> held fds = held gds \<Longrightarrow> set ps \<subseteq> set qs \<Longrightarrow>
   adds opened fifos s0 gds qs s"
  by (auto simp: adds_def)

lemma adds_open:
  assumes "main_laws mc opened fifos" "mc_open mc p m s = (fd, s')"
  shows "adds opened fifos s (if fd < 0 then [] else [fd]) [] s'"
  using assms(1) [unfolded main_laws_def, THEN conjunct1, rule_format, of s p m] assms(2)
  by (auto simp: adds_def fresh_or_failed_def split: if_splits)

lemma adds_dup:
  assumes "main_laws mc opened fifos" "mc_dup mc fd s = (fd2, s')"
  shows "adds opened fifos s [fd2] [] s'"
  using assms(1) [unfolded main_laws_def, THEN conjunct2, THEN conjunct1, rule_format, of s fd] assms(2)
  by (auto simp: adds_def fresh_or_failed_def split: if_splits)

lemma closes:
  assumes "main_laws mc opened fifos"
  shows "opened (mc_close mc fd s) = opened s - {fd}" "fifos (mc_close mc fd s) = fifos s"
  using assms [unfolded main_laws_def, THEN conjunct2, THEN conjunct2, THEN conjunct1] by simp_all

lemma setpipe_keeps:
  assumes "main_laws mc opened fifos"
  shows "opened (mc_setpipe_sz mc fd n s) = opened s" "fifos (mc_setpipe_sz mc fd n s) = fifos s"
  using assms [unfolded main_laws_def, THEN conjunct2, THEN conjunct2, THEN conjunct2, THEN conjunct1]
  by simp_all

lemma directories_keep:
  assumes "main_laws mc opened fifos" "mc_create_directories mc p s = (r, s')"
  shows "opened s' = opened s" "fifos s' = fifos s"
  using assms(1) [unfolded main_laws_def, THEN conjunct2, THEN conjunct2, THEN conjunct2, THEN conjunct2,
      THEN conjunct1, rule_format, of p s] assms(2) by simp_all

lemma adds_mkfifo:
  assumes "main_laws mc opened fifos" "mc_mkfifo mc p s = (r, s')"
  shows "adds opened fifos s [] (if r = None then [p] else []) s'"
  using assms(1) [unfolded main_laws_def, THEN conjunct2, THEN conjunct2, THEN conjunct2, THEN conjunct2,
      THEN conjunct2, THEN conjunct1, rule_format, of p s] assms(2) by (auto simp: adds_def)

lemma unlinks:
  assumes "main_laws mc opened fifos"
  shows "opened (mc_unlink mc p s) = opened s" "fifos (mc_unlink mc p s) = fifos s - {p}"
  using assms [unfolded main_laws_def, THEN conjunct2, THEN conjunct2, THEN conjunct2, THEN conjunct2,
      THEN conjunct2, THEN conjunct2] by simp_all

lemma close_all_effect:
  assumes "main_laws mc opened fifos"
  shows "opened (close_all mc fds s) = opened s - held fds \<and> fifos (close_all mc fds s) = fifos s"
  by (induction fds arbitrary: s) (auto simp: closes [OF assms])

lemma unlink_all_effect:
  assumes "main_laws mc opened fifos"
  shows "opened (unlink_all mc ps s) = opened s \<and> fifos (unlink_all mc ps s) = fifos s - set ps"
  by (induction ps arbitrary: s) (auto simp: unlinks [OF assms] destroy_ManagedPipe_def)

text \<open>Closing what a run has opened and unlinking what it has made takes it back to the start.\<close>

lemma adds_undone:
  assumes "main_laws mc opened fifos" "adds opened fifos s0 fds ps s"
    and "held fds = held gds" "set ps \<subseteq> set qs"
  shows "adds opened fifos s0 [] [] (unlink_all mc qs (close_all mc gds s))"
  using assms(2-4) close_all_effect [OF assms(1), of gds s]
    unlink_all_effect [OF assms(1), of qs "close_all mc gds s"]
  by (auto simp: adds_def)

lemmas adds_closed = adds_undone [where qs = "[]", simplified]

section \<open>The steps of the program, as resource changes\<close>

lemma adds_new_pipe:
  assumes "main_laws mc opened fifos" "new_ManagedPipe (mc_mkfifo mc) base n s = (r, s')"
  shows "adds opened fifos s [] (case r of Inr path \<Rightarrow> [path] | Inl e \<Rightarrow> []) s'"
proof -
  obtain q s1 where mk: "mc_mkfifo mc (pipe_path base n) s = (q, s1)" by fastforce
  have "adds opened fifos s [] (if q = None then [pipe_path base n] else []) s1"
    by (rule adds_mkfifo [OF assms(1) mk])
  then show ?thesis
    using assms(2) mk
    by (auto simp: new_ManagedPipe_def split: option.splits if_splits elim: adds_weaken)
qed

lemma adds_open_ends:
  assumes laws: "main_laws mc opened fifos" and run: "open_ends mc path s = (r, s')"
  shows "adds opened fifos s (case r of None \<Rightarrow> [] | Some (w, rd) \<Rightarrow> [w, rd]) [] s'"
proof -
  obtain fd s1 where op: "mc_open mc path RDWR s = (fd, s1)" by fastforce
  obtain fd2 s3 where du: "mc_dup mc fd (mc_setpipe_sz mc fd (1024 * 1024) s1) = (fd2, s3)" by fastforce
  note o1 = adds_open [OF laws op]
  show ?thesis
  proof (cases "fd < 0")
    case True
    then show ?thesis using run op o1 by (simp add: open_ends_def)
  next
    case False
    have "adds opened fifos s [fd] [] (mc_setpipe_sz mc fd (1024 * 1024) s1)"
      using o1 False by (auto intro: adds_same simp: setpipe_keeps [OF laws])
    from adds_trans [OF this adds_dup [OF laws du]]
    have "adds opened fifos s [fd, fd2] [] s3" by simp
    then have "adds opened fifos s [fd, fd2] [] (mc_setpipe_sz mc fd2 (1024 * 1024) s3)"
      by (rule adds_same) (simp_all add: setpipe_keeps [OF laws])
    then show ?thesis using run op du False by (auto simp: open_ends_def)
  qed
qed

lemma adds_open_outputs:
  assumes laws: "main_laws mc opened fifos"
  shows "open_outputs mc mode dir ext i n s = (Inr fds, s') \<Longrightarrow> adds opened fifos s fds [] s'"
proof (induction n arbitrary: i s fds)
  case 0
  then show ?case by (simp add: adds_refl)
next
  case (Suc n)
  obtain fd s1 where op: "mc_open mc (output_name dir (int i) ext)
      (if mode < 3 then RDWR_CREAT_TRUNC else WRONLY_CREAT_TRUNC) s = (fd, s1)" by fastforce
  note o1 = adds_open [OF laws op]
  from Suc.prems op obtain gds where "\<not> fd < 0" "open_outputs mc mode dir ext (Suc i) n s1 = (Inr gds, s')"
    and "fds = fd # gds"
    by (auto split: if_splits sum.splits prod.splits)
  then show ?case using adds_trans [of opened fifos s "[fd]" "[]", OF _ Suc.IH] o1 by simp
qed

lemma adds_open_pipes:
  assumes laws: "main_laws mc opened fifos"
  shows "open_pipes mc dir i n s = ((x, ps, ws, rs), s') \<Longrightarrow> adds opened fifos s (ws @ rs) ps s'"
proof (induction n arbitrary: i s ps ws rs)
  case 0
  then show ?case by (simp add: adds_refl)
next
  case (Suc n)
  obtain q s1 where pipe: "new_ManagedPipe (mc_mkfifo mc) dir (int i + 1) s = (q, s1)" by fastforce
  note a1 = adds_new_pipe [OF laws pipe]
  show ?case
  proof (cases q)
    case (Inl e)
    then show ?thesis using Suc.prems pipe a1 by simp
  next
    case (Inr path)
    obtain ends s2 where en: "open_ends mc path s1 = (ends, s2)" by fastforce
    note a2 = adds_trans [OF a1 adds_open_ends [OF laws en]]
    show ?thesis
    proof (cases ends)
      case None
      then show ?thesis using Suc.prems pipe Inr en a2 by simp
    next
      case (Some e)
      obtain w r where e: "e = (w, r)" by fastforce
      obtain ps1 ws1 rs1 where rest: "open_pipes mc dir (Suc i) n s2 = ((x, ps1, ws1, rs1), s')"
        and eqs: "ps = path # ps1" "ws = w # ws1" "rs = r # rs1"
        using Suc.prems pipe Inr en Some e by (auto split: prod.splits)
      from adds_trans [OF a2 Suc.IH [OF rest]] Inr Some e eqs show ?thesis
        by (auto elim!: adds_weaken)
    qed
  qed
qed

lemma adds_given_back: "gives_back opened fifos s s' \<Longrightarrow> adds opened fifos s [] [] s'"
  by (simp add: gives_back_def adds_def)

lemma adds_engines:
  assumes "engines_law en opened fifos"
  shows "en_readv en i os s = (Inr n, s') \<Longrightarrow> adds opened fifos s [] [] s'"
    and "en_uring en i os s = (Inr n, s') \<Longrightarrow> adds opened fifos s [] [] s'"
    and "en_splice en i os ws rs s = (x, s') \<Longrightarrow> caught x \<Longrightarrow> adds opened fifos s [] [] s'"
    and "en_tee en i w rd os ws rs s = (x, s') \<Longrightarrow> caught x \<Longrightarrow> adds opened fifos s [] [] s'"
  using assms unfolding engines_law_def by (metis adds_given_back)+

text \<open>The \<open>try\<close> block gives everything back however it is left, unless the program ends in it.\<close>

lemma pipe_modes_restores:
  assumes laws: "main_laws mc opened fifos" and eng: "engines_law en opened fifos"
    and run: "pipe_modes mc en mode n dir src outs s = (Inr x, s')"
  shows "adds opened fifos s [] [] s'"
proof -
  obtain q s1 where pipe: "new_ManagedPipe (mc_mkfifo mc) dir 0 s = (q, s1)" by fastforce
  note a1 = adds_new_pipe [OF laws pipe]
  show ?thesis
  proof (cases q)
    case (Inl e)
    then show ?thesis using run pipe a1 by (simp add: pipe_modes_def)
  next
    case (Inr path)
    obtain ends s2 where en: "open_ends mc path s1 = (ends, s2)" by fastforce
    note a2 = adds_trans [OF a1 adds_open_ends [OF laws en]]
    show ?thesis
    proof (cases ends)
      case None
      then have "s' = unlink_all mc [path] (close_all mc [] s2)"
        using run pipe Inr en by (simp add: pipe_modes_def)
      then show ?thesis using adds_undone [OF laws a2, of "[]" "[path]"] None Inr by simp
    next
      case (Some e)
      obtain w r where e: "e = (w, r)" by fastforce
      obtain y ps ws rs s3 where op: "open_pipes mc dir 0 n s2 = ((y, ps, ws, rs), s3)"
        by (metis prod_cases4 surj_pair)
      note a3 = adds_trans [OF a2 adds_open_pipes [OF laws op]]
      obtain v s4 where go: "(if mode = 3 then en_splice en src outs ws rs s3
          else en_tee en src w r outs ws rs s3) = (v, s4)" by fastforce
      have a4: "adds opened fifos s ([] @ [w, r] @ ws @ rs) ([path] @ [] @ ps) s4" if "caught v"
        using adds_trans [OF a3, of "[]" "[]" s4] adds_engines(3,4) [OF eng _ that] go Inr Some e
        by (auto split: if_splits)
      have "caught v \<and> s' = unlink_all mc (path # ps) (close_all mc (rs @ ws @ [r, w]) s4) \<or>
        s' = unlink_all mc (path # ps) (close_all mc (rs @ ws @ [r, w]) s3)"
        using run pipe Inr en Some e op go
        by (auto simp: pipe_modes_def Let_def caught_def split: if_splits sum.splits cpp_error.splits)
      then show ?thesis
        using adds_undone [OF laws a4, of "rs @ ws @ [r, w]" "path # ps"]
          adds_undone [OF laws a3, of "rs @ ws @ [r, w]" "path # ps"] Inr Some e
        by auto
    qed
  qed
qed

lemma main_modes_restores:
  assumes laws: "main_laws mc opened fifos" and eng: "engines_law en opened fifos"
    and start: "adds opened fifos s0 (source # outs) [] s"
    and run: "main_modes mc en mode n dir source outs s = (Inr code, s')"
  shows "adds opened fifos s0 [] [] s'"
proof -
  have close: "adds opened fifos s0 [] [] (close_all mc (outs @ [source]) s1)"
    if "adds opened fifos s [] [] s1" for s1
    using adds_closed [OF laws adds_trans [OF start that], of "outs @ [source]"] by auto
  consider n s1 where "en_readv en source outs s = (Inr n, s1)" "s' = close_all mc (outs @ [source]) s1"
    | n s1 where "en_uring en source outs s = (Inr n, s1)" "s' = close_all mc (outs @ [source]) s1"
    | x s1 where "pipe_modes mc en mode n dir source outs s = (Inr x, s1)"
        "s' = close_all mc (outs @ [source]) s1"
    | "s' = close_all mc (outs @ [source]) s"
    using run
    by (auto simp: main_modes_def engine_run_def Let_def
        split: if_splits sum.splits prod.splits try_exit.splits cpp_error.splits)
  then show ?thesis
    by cases (auto intro: close adds_refl dest: adds_engines [OF eng] pipe_modes_restores [OF laws eng])
qed

section \<open>Properties\<close>

text \<open>
  Whenever \<open>main\<close> returns an exit code, through whichever of its paths, with engines that give
  back what they take, the descriptors that are open are those that were open when it
  started, and every FIFO it made has been unlinked.
\<close>

lemma main_restores:
  assumes "main_laws mc opened fifos" and "engines_law en opened fifos"
    and "main mc en argv s = (Inr code, s')"
  shows "opened s' = opened s \<and> fifos s' \<subseteq> fifos s"
proof -
  have "adds opened fifos s [] [] s'"
  proof (cases "length argv < 4")
    case True
    then show ?thesis using assms(3) by (auto simp: main_def adds_refl)
  next
    case False
    obtain source s1 where op: "mc_open mc (argv ! 2) RDONLY s = (source, s1)" by fastforce
    note a1 = adds_open [OF assms(1) op]
    show ?thesis
    proof (cases "source < 0")
      case True
      then show ?thesis using assms(3) False op a1 by (auto simp: main_def)
    next
      case pos: False
      obtain r s2 where dirs: "mc_create_directories mc
          (out_dir (atoi (argv ! 1)) (atoi (argv ! 3))) s1 = (r, s2)" by fastforce
      have a2: "adds opened fifos s [source] [] s2"
        by (rule adds_same) (use a1 pos directories_keep [OF assms(1) dirs] in simp_all)
      obtain outs s3 where outs: "open_outputs mc (atoi (argv ! 1))
          (out_dir (atoi (argv ! 1)) (atoi (argv ! 3))) (path_extension (argv ! 2)) 0
          (nat (atoi (argv ! 3))) s2 = (Inr outs, s3)"
        and modes: "main_modes mc en (atoi (argv ! 1)) (nat (atoi (argv ! 3)))
          (out_dir (atoi (argv ! 1)) (atoi (argv ! 3))) source outs s3 = (Inr code, s')"
        using assms(3) False pos op dirs
        by (auto simp: main_def Let_def split: option.splits if_splits sum.splits prod.splits)
      show ?thesis
        by (rule main_modes_restores [OF assms(1,2) _ modes])
          (use adds_trans [OF a2 adds_open_outputs [OF assms(1) outs]] in simp)
    qed
  qed
  then show ?thesis by (simp add: adds_def)
qed

text \<open>
  The simplest implementation of the calls: a state is the lists of open descriptors and of
  FIFOs, every call succeeds, and the engines answer 0 bytes.
\<close>

definition sim_open :: "c_int list \<times> string list \<Rightarrow> c_int \<times> c_int list \<times> string list" where
  "sim_open s = (let fd = 1 + sum_list (map abs (fst s)) in (fd, fd # fst s, snd s))"

definition sim_main :: "(c_int list \<times> string list) main_calls" where
  "sim_main =
     \<lparr>mc_open = (\<lambda>p m. sim_open), mc_close = (\<lambda>fd s. (filter (\<lambda>g. g \<noteq> fd) (fst s), snd s)),
      mc_dup = (\<lambda>fd. sim_open), mc_setpipe_sz = (\<lambda>fd n s. s),
      mc_create_directories = (\<lambda>p s. (None, s)),
      mc_mkfifo = (\<lambda>p s. (None, (fst s, p # snd s))),
      mc_unlink = (\<lambda>p s. (fst s, filter (\<lambda>q. q \<noteq> p) (snd s)))\<rparr>"

definition sim_engines :: "(c_int list \<times> string list) engines" where
  "sim_engines =
     \<lparr>en_readv = (\<lambda>i os s. (Inr 0, s)), en_uring = (\<lambda>i os s. (Inr 0, s)),
      en_splice = (\<lambda>i os ws rs s. (Inr 0, s)), en_tee = (\<lambda>i w r os ws rs s. (Inr 0, s))\<rparr>"

lemma sim_open_fresh: "fst (sim_open s) \<notin> set (fst s) \<and> 0 < fst (sim_open s)"
proof -
  have pos: "0 \<le> sum_list (map abs fds)" for fds :: "int list" by (rule sum_list_nonneg) auto
  have "\<bar>fd\<bar> \<le> sum_list (map abs fds)" if "fd \<in> set fds" for fd :: int and fds
    using that by (induction fds) (auto intro: add_increasing add_increasing2 pos)
  with pos [of "fst s"] show ?thesis by (fastforce simp: sim_open_def Let_def)
qed

lemma sim_main_laws: "main_laws sim_main (set \<circ> fst) (set \<circ> snd)"
proof -
  have "fresh_or_failed (set \<circ> fst) s (sim_open s) \<and> snd (snd (sim_open s)) = snd s" for s
    using sim_open_fresh [of s] by (auto simp: fresh_or_failed_def sim_open_def Let_def)
  then show ?thesis by (auto simp: main_laws_def sim_main_def)
qed

text \<open>
  A mode that is not positive, which \<open>atoi\<close> also makes of a first argument that is not a
  number, runs no engine: \<open>main\<close> creates and truncates all the output files, copies nothing
  and returns 0, just as after a copy.
\<close>

lemma main_nonpositive_mode:
  assumes "4 \<le> length argv" and "atoi (argv ! 1) \<le> 0" and "0 \<le> atoi (argv ! 3)"
    and "mc_open mc (argv ! 2) RDONLY s = (source, s1)" "0 \<le> source"
    and "mc_create_directories mc (out_dir (atoi (argv ! 1)) (atoi (argv ! 3))) s1 = (None, s2)"
    and "open_outputs mc (atoi (argv ! 1)) (out_dir (atoi (argv ! 1)) (atoi (argv ! 3)))
      (path_extension (argv ! 2)) 0 (nat (atoi (argv ! 3))) s2 = (Inr outs, s3)"
  shows "main mc en argv s = (Inr 0, close_all mc (outs @ [source]) s3)"
  using assms by (simp add: main_def main_modes_def Let_def)

lemma main_nonpositive_mode_witness:
  "main sim_main sim_engines [''b'', ''tee'', ''in.txt'', ''2''] ([], []) = (Inr 0, [], [])"
proof -
  have "mc_open sim_main ''in.txt'' RDONLY ([], []) = (1, [1], [])" by code_simp
  moreover have "mc_create_directories sim_main (out_dir 0 2) ([1], []) = (None, [1], [])" by code_simp
  moreover have "open_outputs sim_main 0 (out_dir 0 2) (path_extension ''in.txt'') 0 2 ([1], []) =
    (Inr [2, 4], [4, 2, 1], [])" by code_simp
  moreover have "atoi ''tee'' = 0" "atoi ''2'' = 2" by code_simp+
  ultimately have "main sim_main sim_engines [''b'', ''tee'', ''in.txt'', ''2''] ([], []) =
    (Inr 0, close_all sim_main ([2, 4] @ [1]) ([4, 2, 1], []))"
    by (intro main_nonpositive_mode) simp_all
  moreover have "close_all sim_main ([2, 4] @ [1]) ([4, 2, 1], []) = ([], [])" by code_simp
  ultimately show ?thesis by simp
qed

text \<open>
  How \<open>main\<close> ends when it copies nothing: too few arguments give \<open>EINVAL\<close> and no system
  call; an input that does not open gives \<open>EBADFD\<close>; a negative number of outputs, which
  becomes a huge \<open>size_t\<close> in \<open>reserve\<close>, is a \<open>std::length_error\<close> nobody catches, after the
  directory has been made; an output that does not open ends the process with \<open>EIO\<close>.
\<close>

lemma main_errors:
  "(length argv < 4 \<longrightarrow> main mc en argv s = (Inr EINVAL, s)) \<and>
   (4 \<le> length argv \<longrightarrow> mc_open mc (argv ! 2) RDONLY s = (source, s1) \<longrightarrow>
      (source < 0 \<longrightarrow> main mc en argv s = (Inr EBADFD, s1)) \<and>
      (0 \<le> source \<longrightarrow>
         mc_create_directories mc (out_dir (atoi (argv ! 1)) (atoi (argv ! 3))) s1 = (None, s2) \<longrightarrow>
         (atoi (argv ! 3) < 0 \<longrightarrow> main mc en argv s = (Inl Length_error, s2)) \<and>
         (0 < atoi (argv ! 3) \<longrightarrow>
            fst (mc_open mc (output_name (out_dir (atoi (argv ! 1)) (atoi (argv ! 3))) 0
                   (path_extension (argv ! 2)))
                   (if atoi (argv ! 1) < 3 then RDWR_CREAT_TRUNC else WRONLY_CREAT_TRUNC) s2) < 0 \<longrightarrow>
            fst (main mc en argv s) = Inl (Exit EIO))))"
proof -
  have "nat (atoi (argv ! 3)) = Suc (nat (atoi (argv ! 3) - 1))" if "0 < atoi (argv ! 3)"
    using that by simp
  then show ?thesis
    by (auto simp: main_def Let_def split: prod.splits)
qed

lemma main_errors_witness:
  "main sim_main sim_engines [''b'', ''1'', ''in.txt''] ([], []) = (Inr 22, [], []) \<and>
   main sim_main sim_engines [''b'', ''1'', ''in.txt'', ''-1''] ([], []) = (Inl Length_error, [1], [])"
proof -
  have "mc_open sim_main ''in.txt'' RDONLY ([], []) = (1, [1], [])" by code_simp
  moreover have "mc_create_directories sim_main (out_dir 1 (-1)) ([1], []) = (None, [1], [])" by code_simp
  moreover have "atoi ''1'' = 1" "atoi ''-1'' = -1" by code_simp+
  ultimately show ?thesis
    using main_errors [of "[''b'', ''1'', ''in.txt'']" sim_main sim_engines "([], [])"]
      main_errors [of "[''b'', ''1'', ''in.txt'', ''-1'']" sim_main sim_engines "([], [])" 1 "([1], [])" "([1], [])"]
    by (simp add: EINVAL_def)
qed

text \<open>
  No two of the files that one run creates have the same name: the outputs differ among
  themselves, the pipes (numbered from 0, the input's pipe first) differ among themselves,
  and no output has the name of a pipe.
\<close>

lemma main_names_distinct:
  "(output_name dir i ext = output_name dir j ext \<longleftrightarrow> i = j) \<and>
   (pipe_path dir i = pipe_path dir j \<longleftrightarrow> i = j) \<and>
   output_name dir i ext \<noteq> pipe_path dir j"
  by (auto simp: output_name_def pipe_path_def dest: show_int_inj)

end
