(* ===== verification/Main_Run.thy ===== *)
theory Main_Run
  imports Main_Driver Readv_Broadcast "HOL-Library.AList"
begin

text \<open>
  \<open>main\<close> together with one of its engines: mode 1 with the model of
  \<open>perform_readv_broadcast\<close> in the place that \<open>Main_Driver\<close> leaves open. A state is a
  descriptor table, which \<open>open\<close> and \<open>close\<close> change, and the rest of the machine, which the
  calls of the engine work on. Files have numbers of their own, so that two names, or two
  descriptors, may stand for one file; \<open>ino\<close> gives the file of a name.
\<close>

section \<open>The machine\<close>

type_synonym fd_table = "(c_int \<times> c_int) list"

text \<open>The file a descriptor is open on; no file has number -1.\<close>

definition file_of :: "fd_table \<Rightarrow> c_int \<Rightarrow> c_int" where
  "file_of t fd = (case map_of t fd of None \<Rightarrow> -1 | Some f \<Rightarrow> f)"

text \<open>
  The calls of an engine go to the files its descriptors are open on; the descriptor of its
  ring, which it closes again (\<open>Main_Cleanup\<close>), is no file. The table does not record the access
  mode of a descriptor: that each engine only reads what was opened for reading and writes
  what was opened for writing is not part of the model.
\<close>

definition on_files :: "(c_int \<Rightarrow> c_int list \<Rightarrow> 'k \<Rightarrow> (cpp_error + size_t) \<times> 'k) \<Rightarrow> c_int \<Rightarrow> c_int list \<Rightarrow>
    fd_table \<times> 'k \<Rightarrow> (cpp_error + size_t) \<times> fd_table \<times> 'k" where
  "on_files m src outs s =
     (case s of (t, k) \<Rightarrow> (case m (file_of t src) (map (file_of t) outs) k of (r, k') \<Rightarrow> (r, t, k')))"

text \<open>
  The documented behaviour of the calls of \<open>main\<close>. \<open>open\<close> answers an unused descriptor, open
  on the file of the name, which \<open>O_TRUNC\<close> empties, or fails and changes nothing; \<open>dup\<close> the
  same for the file another descriptor is open on; \<open>close\<close> closes; the others touch neither
  descriptors nor the contents of files. What the engines work on beside the files (blocks,
  the ring, what is in a pipe) is \<open>rest\<close>, and none of the calls touches it.
\<close>

definition truncates :: "open_mode \<Rightarrow> bool" where
  "truncates m \<longleftrightarrow> m = RDWR_CREAT_TRUNC \<or> m = WRONLY_CREAT_TRUNC"

definition keeps :: "('k \<Rightarrow> c_int \<Rightarrow> byte list) \<Rightarrow> ('k \<Rightarrow> 'r) \<Rightarrow> fd_table \<times> 'k \<Rightarrow> fd_table \<times> 'k \<Rightarrow> bool" where
  "keeps files rest x y \<longleftrightarrow>
     map_of (fst y) = map_of (fst x) \<and> files (snd y) = files (snd x) \<and> rest (snd y) = rest (snd x)"

definition main_file_laws :: "(fd_table \<times> 'k) main_calls \<Rightarrow> (string \<Rightarrow> c_int) \<Rightarrow>
    ('k \<Rightarrow> c_int \<Rightarrow> byte list) \<Rightarrow> ('k \<Rightarrow> 'r) \<Rightarrow> bool" where
  "main_file_laws mc ino files rest \<longleftrightarrow>
     (\<forall>p m t k fd t' k'. mc_open mc p m (t, k) = (fd, t', k') \<longrightarrow>
        rest k' = rest k \<and>
        (if fd < 0 then map_of t' = map_of t \<and> files k' = files k
         else map_of t fd = None \<and> map_of t' = (map_of t)(fd \<mapsto> ino p) \<and>
           files k' = (if truncates m then (files k)(ino p := []) else files k))) \<and>
     (\<forall>fd t k t' k'. mc_close mc fd (t, k) = (t', k') \<longrightarrow>
        map_of t' = (map_of t)(fd := None) \<and> files k' = files k \<and> rest k' = rest k) \<and>
     (\<forall>fd t k fd2 t' k'. mc_dup mc fd (t, k) = (fd2, t', k') \<longrightarrow>
        files k' = files k \<and> rest k' = rest k \<and>
        (if fd2 < 0 then map_of t' = map_of t
         else map_of t fd2 = None \<and> map_of t' = (map_of t)(fd2 := map_of t fd))) \<and>
     (\<forall>p x. keeps files rest x (snd (mc_create_directories mc p x)) \<and> keeps files rest x (snd (mc_mkfifo mc p x)) \<and>
        keeps files rest x (mc_unlink mc p x)) \<and>
     (\<forall>fd n x. keeps files rest x (mc_setpipe_sz mc fd n x))"

definition calls_succeed :: "'s main_calls \<Rightarrow> bool" where
  "calls_succeed mc \<longleftrightarrow>
     (\<forall>p m s. 0 \<le> fst (mc_open mc p m s)) \<and> (\<forall>fd s. 0 \<le> fst (mc_dup mc fd s)) \<and>
     (\<forall>p s. fst (mc_create_directories mc p s) = None) \<and> (\<forall>p s. fst (mc_mkfifo mc p s) = None)"

lemma main_openD:
  assumes "main_file_laws mc ino files rest" "calls_succeed mc" "mc_open mc p m (t, k) = (fd, t', k')"
  shows "0 \<le> fd" "rest k' = rest k" "map_of t fd = None" "map_of t' = (map_of t)(fd \<mapsto> ino p)"
    "files k' = (if truncates m then (files k)(ino p := []) else files k)"
proof -
  have "0 \<le> fst (mc_open mc p m (t, k))" using assms(2) by (simp add: calls_succeed_def)
  then show fd: "0 \<le> fd" by (simp add: assms(3))
  from assms(1) [unfolded main_file_laws_def, THEN conjunct1, rule_format, OF assms(3)] fd
  show "rest k' = rest k" "map_of t fd = None" "map_of t' = (map_of t)(fd \<mapsto> ino p)"
    "files k' = (if truncates m then (files k)(ino p := []) else files k)" by simp_all
qed

lemma main_dupD:
  assumes "main_file_laws mc ino files rest" "calls_succeed mc" "mc_dup mc fd (t, k) = (fd2, t', k')"
  shows "0 \<le> fd2" "rest k' = rest k" "map_of t fd2 = None" "map_of t' = (map_of t)(fd2 := map_of t fd)"
    "files k' = files k"
proof -
  have "0 \<le> fst (mc_dup mc fd (t, k))" using assms(2) by (simp add: calls_succeed_def)
  then show fd: "0 \<le> fd2" by (simp add: assms(3))
  from assms(1) [unfolded main_file_laws_def, THEN conjunct2, THEN conjunct2, THEN conjunct1,
      rule_format, OF assms(3)] fd
  show "rest k' = rest k" "map_of t fd2 = None" "map_of t' = (map_of t)(fd2 := map_of t fd)"
    "files k' = files k" by simp_all
qed

lemma main_closeD:
  assumes "main_file_laws mc ino files rest" "mc_close mc fd (t, k) = (t', k')"
  shows "files k' = files k \<and> rest k' = rest k"
  using assms(1) [unfolded main_file_laws_def, THEN conjunct2, THEN conjunct1, rule_format, OF assms(2)]
  by simp

lemma main_keepsD:
  assumes "main_file_laws mc ino files rest"
  shows "keeps files rest x (snd (mc_create_directories mc p x))" "keeps files rest x (snd (mc_mkfifo mc p x))"
    "keeps files rest x (mc_unlink mc p x)" "keeps files rest x (mc_setpipe_sz mc fd n x)"
  using assms [unfolded main_file_laws_def, THEN conjunct2, THEN conjunct2, THEN conjunct2] by blast+

lemma close_all_files:
  assumes "main_file_laws mc ino files rest"
  shows "files (snd (close_all mc hs s)) = files (snd s) \<and> rest (snd (close_all mc hs s)) = rest (snd s)"
proof (induction hs arbitrary: s)
  case (Cons fd hs)
  have "files (snd (mc_close mc fd s)) = files (snd s) \<and> rest (snd (mc_close mc fd s)) = rest (snd s)"
    using main_closeD [OF assms] by (metis prod.collapse)
  with Cons.IH [of "mc_close mc fd s"] Cons.IH [of s] show ?case by (cases "fd = -1") simp_all
qed simp

section \<open>Opening the outputs\<close>

text \<open>
  Every output is opened on the file of its name, which is then empty; what was open stays
  open and every other file is as it was.
\<close>

lemma open_outputs_run:
  assumes laws: "main_file_laws mc ino files rest" "calls_succeed mc"
  shows "\<exists>hs t' k'. open_outputs mc mode dir ext i n (t, k) = (Inr hs, t', k') \<and>
    map (map_of t') hs = map (\<lambda>j. Some (ino (output_name dir (int j) ext))) [i..<i + n] \<and>
    (\<forall>fd. map_of t fd \<noteq> None \<longrightarrow> map_of t' fd = map_of t fd) \<and> rest k' = rest k \<and>
    (\<forall>g. files k' g = (if g \<in> (\<lambda>j. ino (output_name dir (int j) ext)) ` {i..<i + n} then [] else files k g))"
proof (induction n arbitrary: i t k)
  case (Suc n)
  let ?p = "output_name dir (int i) ext"
  obtain fd t1 k1 where op: "mc_open mc ?p (if mode < 3 then RDWR_CREAT_TRUNC else WRONLY_CREAT_TRUNC) (t, k) = (fd, t1, k1)" by (metis prod_cases3)
  note o1 = main_openD [OF laws op]
  from Suc.IH [of "Suc i" t1 k1] obtain hs t' k' where
    rest: "open_outputs mc mode dir ext (Suc i) n (t1, k1) = (Inr hs, t', k')"
      "map (map_of t') hs = map (\<lambda>j. Some (ino (output_name dir (int j) ext))) [Suc i..<Suc i + n]"
      "\<forall>fd. map_of t1 fd \<noteq> None \<longrightarrow> map_of t' fd = map_of t1 fd" "rest k' = rest k1"
      "\<forall>g. files k' g = (if g \<in> (\<lambda>j. ino (output_name dir (int j) ext)) ` {Suc i..<Suc i + n}
         then [] else files k1 g)" by blast
  have "open_outputs mc mode dir ext i (Suc n) (t, k) = (Inr (fd # hs), t', k')"
    using op o1(1) rest(1) by simp
  moreover have "map_of t' fd = Some (ino ?p)" using rest(3) o1(4) by simp
  then have "map (map_of t') (fd # hs) = map (\<lambda>j. Some (ino (output_name dir (int j) ext))) [i..<i + Suc n]"
    using rest(2) upt_conv_Cons [of i "i + Suc n"] by (simp del: upt_Suc)
  moreover have "map_of t' h = map_of t h" if "map_of t h \<noteq> None" for h
    using rest(3) o1(3,4) that by (metis fun_upd_other)
  moreover have "{i..<i + Suc n} = insert i {Suc i..<Suc i + n}" by auto
  then have "files k' g = (if g \<in> (\<lambda>j. ino (output_name dir (int j) ext)) ` {i..<i + Suc n} then [] else files k g)"
    for g using rest(5) o1(5) by (simp add: truncates_def)
  ultimately show ?case using rest(4) o1(2) by (intro exI [of _ "fd # hs"] exI [of _ t'] exI [of _ k']) simp
qed simp

text \<open>The files of the outputs' names.\<close>

abbreviation run_dir :: "string list \<Rightarrow> string" where
  "run_dir argv \<equiv> out_dir (atoi (argv ! 1)) (atoi (argv ! 3))"

definition out_files :: "(string \<Rightarrow> c_int) \<Rightarrow> string list \<Rightarrow> c_int list" where
  "out_files ino argv =
     map (\<lambda>j. ino (output_name (run_dir argv) (int j) (path_extension (argv ! 2)))) [0..<nat (atoi (argv ! 3))]"

text \<open>\<open>main\<close> up to the choice of the engine, and after an engine that has succeeded.\<close>

lemma main_reaches_modes:
  assumes laws: "main_file_laws mc ino files rest" "calls_succeed mc"
    and argv: "4 \<le> length argv" "0 \<le> atoi (argv ! 3)"
  obtains src outs t1 k1 where
    "main mc en argv (t, k) =
       main_modes mc en (atoi (argv ! 1)) (nat (atoi (argv ! 3))) (run_dir argv) src outs (t1, k1)"
    "map_of t1 src = Some (ino (argv ! 2))" "map (map_of t1) outs = map Some (out_files ino argv)"
    "\<And>g. files k1 g = (if g \<in> set (out_files ino argv) then [] else files k g)" "rest k1 = rest k"
proof -
  let ?ext = "path_extension (argv ! 2)"
  obtain src t1 k1 where op: "mc_open mc (argv ! 2) RDONLY (t, k) = (src, t1, k1)" by (metis prod_cases3)
  note o = main_openD [OF laws op]
  obtain r t2 k2 where md: "mc_create_directories mc (run_dir argv) (t1, k1) = (r, t2, k2)" by (metis prod_cases3)
  have "fst (mc_create_directories mc (run_dir argv) (t1, k1)) = None" using laws(2) by (simp add: calls_succeed_def)
  then have r: "r = None" unfolding md by simp
  have d: "map_of t2 = map_of t1" "files k2 = files k1" "rest k2 = rest k1"
    using main_keepsD(1) [OF laws(1), of "(t1, k1)" "run_dir argv"] unfolding md by (simp_all add: keeps_def)
  from open_outputs_run [OF laws, of "atoi (argv ! 1)" "run_dir argv" ?ext 0 "nat (atoi (argv ! 3))" t2 k2]
  obtain outs t3 k3 where
    outs: "open_outputs mc (atoi (argv ! 1)) (run_dir argv) ?ext 0 (nat (atoi (argv ! 3))) (t2, k2) = (Inr outs, t3, k3)"
      "map (map_of t3) outs = map (\<lambda>j. Some (ino (output_name (run_dir argv) (int j) ?ext))) [0..<nat (atoi (argv ! 3))]"
      "\<forall>fd. map_of t2 fd \<noteq> None \<longrightarrow> map_of t3 fd = map_of t2 fd" "rest k3 = rest k2"
      "\<forall>g. files k3 g = (if g \<in> (\<lambda>j. ino (output_name (run_dir argv) (int j) ?ext)) ` {0..<nat (atoi (argv ! 3))}
         then [] else files k2 g)" by auto
  have set: "set (out_files ino argv) =
      (\<lambda>j. ino (output_name (run_dir argv) (int j) ?ext)) ` {0..<nat (atoi (argv ! 3))}"
    by (simp add: out_files_def)
  show ?thesis
  proof (rule that)
    show "main mc en argv (t, k) =
        main_modes mc en (atoi (argv ! 1)) (nat (atoi (argv ! 3))) (run_dir argv) src outs (t3, k3)"
      using argv op o(1) md [unfolded r] outs(1) by (simp add: main_def Let_def)
    show "map_of t3 src = Some (ino (argv ! 2))" using outs(3) o(4) d(1) by simp
    show "map (map_of t3) outs = map Some (out_files ino argv)" by (simp add: outs(2) out_files_def)
    show "files k3 g = (if g \<in> set (out_files ino argv) then [] else files k g)" for g
      using outs(5) d(2) o(5) unfolding set by (simp add: truncates_def)
    show "rest k3 = rest k" using outs(4) d(3) o(2) by simp
  qed
qed

lemma files_of_table: "map (map_of t) hs = map Some fs \<Longrightarrow> map (file_of t) hs = fs"
proof -
  assume a: "map (map_of t) hs = map Some fs"
  have "map (file_of t) hs = map (\<lambda>f. case f of None \<Rightarrow> -1 | Some f \<Rightarrow> f) (map (map_of t) hs)"
    by (simp add: file_of_def)
  then show ?thesis unfolding a by (simp add: comp_def)
qed

lemma file_of_table: "map_of t fd = Some f \<Longrightarrow> file_of t fd = f"
  by (simp add: file_of_def)

text \<open>Modes 1 and 2.\<close>

lemma main_files_run:
  assumes laws: "main_file_laws mc ino files rest" "calls_succeed mc"
    and argv: "4 \<le> length argv" "0 \<le> atoi (argv ! 3)"
    and mode: "atoi (argv ! 1) = 1 \<and> en_readv en = on_files m \<or> atoi (argv ! 1) = 2 \<and> en_uring en = on_files m"
  obtains k1 where
    "\<And>g. files k1 g = (if g \<in> set (out_files ino argv) then [] else files k g)" "rest k1 = rest k"
    "\<And>n k2. m (ino (argv ! 2)) (out_files ino argv) k1 = (Inr n, k2) \<Longrightarrow>
      \<exists>t' k'. main mc en argv (t, k) = (Inr 0, t', k') \<and> files k' = files k2 \<and> rest k' = rest k2"
proof -
  obtain src outs t1 k1 where r: "main mc en argv (t, k) =
       main_modes mc en (atoi (argv ! 1)) (nat (atoi (argv ! 3))) (run_dir argv) src outs (t1, k1)"
    "map_of t1 src = Some (ino (argv ! 2))" "map (map_of t1) outs = map Some (out_files ino argv)"
    "\<And>g. files k1 g = (if g \<in> set (out_files ino argv) then [] else files k g)" "rest k1 = rest k"
    using main_reaches_modes [OF laws argv] by blast
  have "\<exists>t' k'. main mc en argv (t, k) = (Inr 0, t', k') \<and> files k' = files k2 \<and> rest k' = rest k2"
    if run: "m (ino (argv ! 2)) (out_files ino argv) k1 = (Inr n, k2)" for n k2
  proof -
    obtain t' k' where close: "close_all mc (outs @ [src]) (t1, k2) = (t', k')" by fastforce
    have "on_files m src outs (t1, k1) = (Inr n, t1, k2)"
      by (simp add: on_files_def files_of_table [OF r(3)] file_of_table [OF r(2)] run)
    moreover from mode have "main mc en argv (t, k) =
        engine_run (on_files m src outs (t1, k1)) (close_all mc (outs @ [src]))"
      unfolding r(1) main_modes_def Let_def by (elim disjE conjE) simp_all
    ultimately have "main mc en argv (t, k) = (Inr 0, t', k')" using close by (simp add: engine_run_def)
    with close_all_files [OF laws(1), of "outs @ [src]" "(t1, k2)"] close show ?thesis by auto
  qed
  then show ?thesis by (rule that [OF r(4,5)])
qed

section \<open>A machine\<close>

text \<open>Every call succeeds; \<open>empty_file\<close> is how a file is truncated.\<close>

definition run_open :: "(c_int \<Rightarrow> 'k \<Rightarrow> 'k) \<Rightarrow> (string \<Rightarrow> c_int) \<Rightarrow> string \<Rightarrow> open_mode \<Rightarrow> fd_table \<times> 'k \<Rightarrow>
    c_int \<times> fd_table \<times> 'k" where
  "run_open empty_file ino p m s =
     (case s of (t, k) \<Rightarrow>
        let fd = 1 + sum_list (map (\<lambda>e. abs (fst e)) t) in
        (fd, (fd, ino p) # t, if truncates m then empty_file (ino p) k else k))"

definition run_dup :: "c_int \<Rightarrow> fd_table \<times> 'k \<Rightarrow> c_int \<times> fd_table \<times> 'k" where
  "run_dup fd s =
     (case s of (t, k) \<Rightarrow>
        let fd2 = 1 + sum_list (map (\<lambda>e. abs (fst e)) t) in
        (fd2, case map_of t fd of None \<Rightarrow> t | Some f \<Rightarrow> (fd2, f) # t, k))"

definition run_main :: "(c_int \<Rightarrow> 'k \<Rightarrow> 'k) \<Rightarrow> (string \<Rightarrow> c_int) \<Rightarrow> (fd_table \<times> 'k) main_calls" where
  "run_main empty_file ino =
     \<lparr>mc_open = run_open empty_file ino, mc_close = (\<lambda>fd s. (AList.delete fd (fst s), snd s)),
      mc_dup = run_dup, mc_setpipe_sz = (\<lambda>fd n s. s),
      mc_create_directories = (\<lambda>p s. (None, s)), mc_mkfifo = (\<lambda>p s. (None, s)), mc_unlink = (\<lambda>p s. s)\<rparr>"

lemma fresh_descriptor: "0 < 1 + sum_list (map (\<lambda>e. abs (fst e)) t) \<and>
  map_of t (1 + sum_list (map (\<lambda>e. abs (fst e)) t)) = None" for t :: fd_table
proof -
  have pos: "0 \<le> sum_list (map (\<lambda>e. abs (fst e)) t)" for t :: fd_table by (rule sum_list_nonneg) auto
  have "\<bar>fst e\<bar> \<le> sum_list (map (\<lambda>e. abs (fst e)) t)" if "e \<in> set t" for e and t :: fd_table
    using that by (induction t) (auto intro: add_increasing add_increasing2 pos)
  with pos [of t] show ?thesis by (fastforce simp: map_of_eq_None_iff)
qed

lemma run_main_eqs:
  "mc_open (run_main empty_file ino) p m (t, k) =
     (1 + sum_list (map (\<lambda>e. abs (fst e)) t), (1 + sum_list (map (\<lambda>e. abs (fst e)) t), ino p) # t,
      if truncates m then empty_file (ino p) k else k)"
  "mc_dup (run_main empty_file ino) fd (t, k) =
     (1 + sum_list (map (\<lambda>e. abs (fst e)) t),
      case map_of t fd of None \<Rightarrow> t | Some f \<Rightarrow> (1 + sum_list (map (\<lambda>e. abs (fst e)) t), f) # t, k)"
  "mc_close (run_main empty_file ino) fd (t, k) = (AList.delete fd t, k)"
  "snd (mc_create_directories (run_main empty_file ino) p x) = x" "snd (mc_mkfifo (run_main empty_file ino) p x) = x"
  "mc_unlink (run_main empty_file ino) p x = x" "mc_setpipe_sz (run_main empty_file ino) fd n x = x"
  by (simp_all add: run_main_def run_open_def run_dup_def Let_def)

lemma run_main_laws:
  assumes e: "\<And>f k. files (empty_file f k) = (files k)(f := [])" "\<And>f k. rest (empty_file f k) = rest k"
  shows "main_file_laws (run_main empty_file ino) ino files rest"
proof -
  have fresh: "\<not> 1 + sum_list (map (\<lambda>e. abs (fst e)) t) < 0 \<and>
      map_of t (1 + sum_list (map (\<lambda>e. abs (fst e)) t)) = None" for t :: fd_table
    using fresh_descriptor [of t] by linarith
  have "map_of (case map_of t fd of None \<Rightarrow> t | Some f \<Rightarrow> (n, f) # t) = (map_of t)(n := map_of t fd)"
    if "map_of t n = None" for t :: fd_table and fd n
    using that by (auto split: option.splits)
  then show ?thesis
    unfolding main_file_laws_def run_main_eqs keeps_def using fresh by (simp add: delete_conv' e)
qed

lemma run_main_succeeds: "calls_succeed (run_main empty_file ino)"
proof -
  have "0 \<le> 1 + sum_list (map (\<lambda>e. abs (fst e)) t)" for t :: fd_table
    using fresh_descriptor [of t] by linarith
  then show ?thesis
    by (auto simp: calls_succeed_def run_main_def run_open_def run_dup_def Let_def)
qed

definition mem_empty :: "c_int \<Rightarrow> mem_state \<Rightarrow> mem_state" where
  "mem_empty f k = k\<lparr>ms_files := (ms_files k)(f := [])\<rparr>"

lemma mem_main_laws: "main_file_laws (run_main mem_empty ino) ino ms_files mem_live"
  by (rule run_main_laws) (simp_all add: mem_empty_def)

definition run_engines :: "(nat \<Rightarrow> nat list) \<Rightarrow> (fd_table \<times> mem_state) engines" where
  "run_engines sched =
     \<lparr>en_readv = on_files (perform_readv_broadcast mem_os sched), en_uring = (\<lambda>i os s. (Inr 0, s)),
      en_splice = (\<lambda>i os ws rs s. (Inr 0, s)), en_tee = (\<lambda>i w r os ws rs s. (Inr 0, s))\<rparr>"

section \<open>Properties\<close>

text \<open>
  C1: the program copies its input. Run in mode 1 for \<open>n\<close> outputs, with calls that behave as
  documented and succeed, complete transfers, and names that stand for different regular
  files, \<open>main\<close> returns 0, and then the file of each output's name holds exactly what the
  input held when \<open>main\<close> was called, whatever those files held before, in whatever order the
  OpenMP team worked; every other file is unchanged and every block freed.
\<close>

theorem main_copies_the_file:
  assumes "main_file_laws mc ino files live" "calls_succeed mc"
    and "4 \<le> length argv" "atoi (argv ! 1) = 1" "0 \<le> atoi (argv ! 3)"
    and "en_readv en = on_files (perform_readv_broadcast px sched)" "omp_schedule sched"
    and "posix_laws px F files mem live" "alloc_succeeds px" "transfers_complete px F files"
    and "set (ino (argv ! 2) # out_files ino argv) \<subseteq> F" "distinct (ino (argv ! 2) # out_files ino argv)"
    and "length (files k (ino (argv ! 2))) < 9223372036854775808"
  shows "\<exists>t' k'. main mc en argv (t, k) = (Inr 0, t', k') \<and>
    (\<forall>out \<in> set (out_files ino argv). files k' out = files k (ino (argv ! 2))) \<and>
    (\<forall>g. g \<notin> set (out_files ino argv) \<longrightarrow> files k' g = files k g) \<and> live k' = live k"
proof -
  obtain k1 where k1: "\<And>g. files k1 g = (if g \<in> set (out_files ino argv) then [] else files k g)"
      "live k1 = live k"
    and main: "\<And>n k2. perform_readv_broadcast px sched (ino (argv ! 2)) (out_files ino argv) k1 = (Inr n, k2) \<Longrightarrow>
      \<exists>t' k'. main mc en argv (t, k) = (Inr 0, t', k') \<and> files k' = files k2 \<and> live k' = live k2"
    by (rule main_files_run [OF assms(1-3,5), of en "perform_readv_broadcast px sched" k t])
      (use assms(4,6) in blast)+
  have "tree_ready px F files mem live (ino (argv ! 2)) (out_files ino argv) k1"
    using assms(8,11-13) k1(1) by (simp add: tree_ready_def)
  from readv_broadcast_runs [OF this assms(9,10,7)] obtain n k2 where
    run: "perform_readv_broadcast px sched (ino (argv ! 2)) (out_files ino argv) k1 = (Inr n, k2)"
      "\<forall>out \<in> set (out_files ino argv). files k2 out = files k1 (ino (argv ! 2))"
      "\<forall>g. g \<notin> set (out_files ino argv) \<longrightarrow> files k2 g = files k1 g" "live k2 = live k1" by blast
  have "files k1 (ino (argv ! 2)) = files k (ino (argv ! 2))" using assms(12) k1(1) by simp
  moreover obtain t' k' where "main mc en argv (t, k) = (Inr 0, t', k')" "files k' = files k2" "live k' = live k2"
    using main [OF run(1)] by blast
  ultimately show ?thesis using run(2-4) k1 by (intro exI [of _ t'] exI [of _ k']) simp
qed

definition two_names :: "string \<Rightarrow> c_int" where
  "two_names p = (if p = ''in.txt'' then 3 else if p = ''./resource/1/Dual/output_0.txt'' then 4 else 5)"

lemma two_names_files: "out_files two_names [''b'', ''1'', ''in.txt'', ''2''] = [4, 5]"
  "out_files (\<lambda>p. if p = ''in.txt'' then 5 else two_names p) [''b'', ''1'', ''in.txt'', ''2''] = [4, 5]"
  "atoi ''1'' = 1" "atoi ''2'' = 2"
  by code_simp+

theorem main_copies_the_file_witness:
  "\<exists>t' k'. main (run_main mem_empty two_names) (run_engines seq_sched) [''b'', ''1'', ''in.txt'', ''2''] ([], demo_os) =
      (Inr 0, t', k') \<and> ms_files k' 4 = [1, 2, 3] \<and> ms_files k' 5 = [1, 2, 3] \<and> ms_files k' 3 = [1, 2, 3]"
proof -
  let ?argv = "[''b'', ''1'', ''in.txt'', ''2'']"
  have argv: "4 \<le> length ?argv" "atoi (?argv ! 1) = 1" "0 \<le> atoi (?argv ! 3)"
    by (simp_all add: two_names_files)
  have en: "en_readv (run_engines seq_sched) = on_files (perform_readv_broadcast mem_os seq_sched)" by (simp add: run_engines_def)
  have ino: "two_names (?argv ! 2) = 3" by (simp add: two_names_def)
  from main_copies_the_file [OF mem_main_laws run_main_succeeds argv en seq_sched_ok mem_os_laws [of UNIV] mem_os_alloc
      mem_os_complete, of two_names demo_os "[]", unfolded ino two_names_files(1)]
  show ?thesis by (auto simp: demo_os_def)
qed

text \<open>
  C31: in mode 1 an output that is the input destroys it. If the file of one of the output
  names is the input's own file, nothing stops the program: opening the output empties the input, the
  engine finds a size of 0 and copies nothing, and \<open>main\<close> returns 0 with every output, and
  with them the input, empty.
\<close>

theorem main_truncates_the_input:
  assumes "main_file_laws mc ino files live" "calls_succeed mc"
    and "4 \<le> length argv" "atoi (argv ! 1) = 1" "0 \<le> atoi (argv ! 3)"
    and "en_readv en = on_files (perform_readv_broadcast px sched)" "omp_schedule sched"
    and "posix_laws px F files mem live"
    and "set (out_files ino argv) \<subseteq> F" "ino (argv ! 2) \<in> set (out_files ino argv)"
  shows "\<exists>t' k'. main mc en argv (t, k) = (Inr 0, t', k') \<and> files k' (ino (argv ! 2)) = [] \<and>
    (\<forall>out \<in> set (out_files ino argv). files k' out = [])"
proof -
  obtain k1 where k1: "\<And>g. files k1 g = (if g \<in> set (out_files ino argv) then [] else files k g)"
    and main: "\<And>n k2. perform_readv_broadcast px sched (ino (argv ! 2)) (out_files ino argv) k1 = (Inr n, k2) \<Longrightarrow>
      \<exists>t' k'. main mc en argv (t, k) = (Inr 0, t', k') \<and> files k' = files k2 \<and> live k' = live k2"
    by (rule main_files_run [OF assms(1-3,5), of en "perform_readv_broadcast px sched" k t])
      (use assms(4,6) in blast)+
  have nodes: "set (ino (argv ! 2) # out_files ino argv) \<subseteq> F" using assms(9,10) by auto
  have empty: "\<forall>g \<in> set (ino (argv ! 2) # out_files ino argv). files k1 g = []" using assms(10) k1 by auto
  obtain t' k' where "main mc en argv (t, k) = (Inr 0, t', k')" "files k' = files k1"
    using main [OF readv_broadcast_empty [OF assms(8) nodes empty assms(7)]] by blast
  with empty show ?thesis by (intro exI [of _ t'] exI [of _ k']) simp
qed

theorem main_truncates_the_input_witness:
  "\<exists>t' k'. main (run_main mem_empty (\<lambda>p. if p = ''in.txt'' then 5 else two_names p)) (run_engines seq_sched)
      [''b'', ''1'', ''in.txt'', ''2''] ([], demo_os\<lparr>ms_files := (\<lambda>f. [7])\<rparr>) = (Inr 0, t', k') \<and>
    ms_files k' 4 = [] \<and> ms_files k' 5 = []"
proof -
  let ?argv = "[''b'', ''1'', ''in.txt'', ''2'']" and ?ino = "\<lambda>p. if p = ''in.txt'' then 5 else two_names p"
  have argv: "4 \<le> length ?argv" "atoi (?argv ! 1) = 1" "0 \<le> atoi (?argv ! 3)"
    by (simp_all add: two_names_files)
  have en: "en_readv (run_engines seq_sched) = on_files (perform_readv_broadcast mem_os seq_sched)" by (simp add: run_engines_def)
  have ino: "?ino (?argv ! 2) = 5" by simp
  from main_truncates_the_input [OF mem_main_laws run_main_succeeds argv en seq_sched_ok mem_os_laws [of UNIV],
      of ?ino "[]" "demo_os\<lparr>ms_files := (\<lambda>f. [7])\<rparr>", unfolded ino two_names_files(2)]
  show ?thesis by auto
qed

end
