(* ===== verification/Uring.thy ===== *)
theory Uring
  imports Posix "HOL-Library.Multiset"
begin

text \<open>
  The part of liburing the transfer engines call. It is a library, not code of the program:
  a record of functions over an abstract state \<open>'s\<close>, polymorphic in the type \<open>'d\<close> of the
  \<open>user_data\<close> an engine attaches to its requests. \<open>uring_laws\<close> states the documented
  behaviour the proofs rely on through a \<open>ring_view\<close> of the state: the requests prepared but
  not submitted, the requests handed to the kernel so far, in the batches they were submitted in, and the user data of
  those whose completion has not been consumed. The kernel completes requests in any order.
  \<open>sim_uring\<close> is one concrete ring, on which the laws are proved and the witnesses run.
\<close>

section \<open>Requests and completions\<close>

text \<open>
  The operations prepared with \<open>io_uring_prep_*\<close>. \<open>nbytes\<close> and \<open>flags\<close> are \<open>unsigned\<close>;
  an offset of -1 is \<open>none\<close>, as a pipe requires.
\<close>

datatype uring_op =
    Op_readv c_int "iovec list" off_t
  | Op_writev c_int "iovec list" off_t
  | Op_read c_int ptr "32 word" off_t
  | Op_write c_int ptr "32 word" off_t
  | Op_splice c_int off_t c_int off_t "32 word" "32 word"
  | Op_tee c_int c_int "32 word" "32 word"

definition SPLICE_F_MOVE :: "32 word" where "SPLICE_F_MOVE = 1"
definition SPLICE_F_MORE :: "32 word" where "SPLICE_F_MORE = 4"

record 'd sqe =
  sq_op :: uring_op
  sq_link :: bool  \<comment> \<open>\<open>IOSQE_IO_LINK\<close>: the next request starts when this one has succeeded\<close>
  sq_data :: 'd

record 'd cqe =
  cq_res :: int
  cq_data :: 'd

section \<open>The calls\<close>

text \<open>
  \<open>ur_get_sqe\<close> answers whether a free entry was found (\<open>False\<close> is a null pointer) and
  \<open>ur_prep\<close> fills the entry found last. \<open>ur_wait_cqe\<close> answers \<open>None\<close> if it never returns, an
  error code, or the completion at the head of the queue.
\<close>

record ('d, 's) uring =
  ur_init :: "nat \<Rightarrow> 's \<Rightarrow> int \<times> 's"
  ur_get_sqe :: "'s \<Rightarrow> bool \<times> 's"
  ur_prep :: "'d sqe \<Rightarrow> 's \<Rightarrow> 's"
  ur_submit :: "'s \<Rightarrow> int \<times> 's"
  ur_submit_and_wait :: "nat \<Rightarrow> 's \<Rightarrow> int \<times> 's"
  ur_wait_cqe :: "'s \<Rightarrow> (int + 'd cqe) option \<times> 's"
  ur_cqe_seen :: "'d cqe \<Rightarrow> 's \<Rightarrow> 's"
  ur_ready :: "'s \<Rightarrow> 'd cqe list"
  ur_cq_advance :: "nat \<Rightarrow> 's \<Rightarrow> 's"
  ur_exit :: "'s \<Rightarrow> 's"

text \<open>
  The idiom of the engines: get an entry and fill it. Filling an entry that was not found
  dereferences a null pointer.
\<close>

definition push_sqe :: "('d, 's) uring \<Rightarrow> 'd sqe \<Rightarrow> 's \<Rightarrow> bool \<times> 's" where
  "push_sqe ur e s =
     (case ur_get_sqe ur s of
        (True, s1) \<Rightarrow> (True, ur_prep ur e s1)
      | (False, s1) \<Rightarrow> (False, s1))"

definition push_unchecked :: "('d, 's) uring \<Rightarrow> 'd sqe \<Rightarrow> 's \<Rightarrow> (cpp_error + unit) \<times> 's" where
  "push_unchecked ur e s =
     (case push_sqe ur e s of (True, s1) \<Rightarrow> (Inr (), s1) | (False, s1) \<Rightarrow> (Inl Null_deref, s1))"

section \<open>Documented behaviour\<close>

record 'd ring_view =
  rv_pending :: "'d sqe list"
  rv_entries :: nat
  rv_batches :: "'d sqe list list"  \<comment> \<open>what each submission handed over\<close>
  rv_drained :: "bool list"  \<comment> \<open>for each, whether nothing was outstanding before it\<close>
  rv_outstanding :: "'d multiset"

definition rv_submitted :: "'d ring_view \<Rightarrow> 'd sqe list" where
  "rv_submitted v = concat (rv_batches v)"

definition view_push :: "'d sqe list \<Rightarrow> 'd ring_view \<Rightarrow> 'd ring_view" where
  "view_push es v = v\<lparr>rv_pending := rv_pending v @ es\<rparr>"

definition view_submit :: "nat \<Rightarrow> 'd ring_view \<Rightarrow> 'd ring_view" where
  "view_submit n v = v\<lparr>rv_pending := drop n (rv_pending v),
     rv_batches := rv_batches v @ [take n (rv_pending v)],
     rv_drained := rv_drained v @ [rv_outstanding v = {#}],
     rv_outstanding := rv_outstanding v + mset (map sq_data (take n (rv_pending v)))\<rparr>"

definition view_consume :: "'d multiset \<Rightarrow> 'd ring_view \<Rightarrow> 'd ring_view" where
  "view_consume M v = v\<lparr>rv_outstanding := rv_outstanding v - M\<rparr>"

definition init_law :: "('d, 's) uring \<Rightarrow> ('s \<Rightarrow> 'd ring_view) \<Rightarrow> bool" where
  "init_law ur view \<longleftrightarrow>
     (\<forall>k s r s'. ur_init ur (2 ^ k) s = (r, s') \<longrightarrow> 0 \<le> r \<longrightarrow>
        view s' = \<lparr>rv_pending = [], rv_entries = 2 ^ k, rv_batches = rv_batches (view s),
                   rv_drained = rv_drained (view s), rv_outstanding = {#}\<rparr>)"

definition get_sqe_law :: "('d, 's) uring \<Rightarrow> ('s \<Rightarrow> 'd ring_view) \<Rightarrow> bool" where
  "get_sqe_law ur view \<longleftrightarrow>
     (\<forall>s b s'. ur_get_sqe ur s = (b, s') \<longrightarrow>
        (b \<longleftrightarrow> length (rv_pending (view s)) < rv_entries (view s)) \<and>
        (if b then \<forall>e. view (ur_prep ur e s') = view_push [e] (view s) else view s' = view s))"

definition submit_law :: "('d, 's) uring \<Rightarrow> ('s \<Rightarrow> 'd ring_view) \<Rightarrow> bool" where
  "submit_law ur view \<longleftrightarrow>
     (\<forall>s r s'. ur_submit ur s = (r, s') \<longrightarrow> nat r \<le> length (rv_pending (view s)) \<and>
        view s' = view_submit (nat r) (view s))"

definition submit_and_wait_law :: "('d, 's) uring \<Rightarrow> ('s \<Rightarrow> 'd ring_view) \<Rightarrow> bool" where
  "submit_and_wait_law ur view \<longleftrightarrow>
     (\<forall>n s r s'. ur_submit_and_wait ur n s = (r, s') \<longrightarrow> nat r \<le> length (rv_pending (view s)) \<and>
        view s' = view_submit (nat r) (view s) \<and>
        (0 \<le> r \<longrightarrow> min n (size (rv_outstanding (view s'))) \<le> length (ur_ready ur s')))"

text \<open>
  A wait returns a completion only of a request that is outstanding, and blocks for ever
  only when there is none.
\<close>

definition wait_law :: "('d, 's) uring \<Rightarrow> ('s \<Rightarrow> 'd ring_view) \<Rightarrow> bool" where
  "wait_law ur view \<longleftrightarrow>
     (\<forall>s r s'. ur_wait_cqe ur s = (r, s') \<longrightarrow> view s' = view s \<and>
        (r = None \<longrightarrow> rv_outstanding (view s) = {#}) \<and>
        (\<forall>c. r = Some (Inr c) \<longrightarrow> cq_data c \<in># rv_outstanding (view s) \<and>
           view (ur_cqe_seen ur c s') = view_consume {#cq_data c#} (view s)))"

definition ready_law :: "('d, 's) uring \<Rightarrow> ('s \<Rightarrow> 'd ring_view) \<Rightarrow> bool" where
  "ready_law ur view \<longleftrightarrow>
     (\<forall>s. mset (map cq_data (ur_ready ur s)) \<subseteq># rv_outstanding (view s) \<and>
        (\<forall>n. view (ur_cq_advance ur n s) =
           view_consume (mset (map cq_data (take n (ur_ready ur s)))) (view s)))"

definition exit_law :: "('d, 's) uring \<Rightarrow> ('s \<Rightarrow> 'd ring_view) \<Rightarrow> bool" where
  "exit_law ur view \<longleftrightarrow> (\<forall>s. rv_batches (view (ur_exit ur s)) = rv_batches (view s) \<and>
     rv_drained (view (ur_exit ur s)) = rv_drained (view s))"

definition uring_laws :: "('d, 's) uring \<Rightarrow> ('s \<Rightarrow> 'd ring_view) \<Rightarrow> bool" where
  "uring_laws ur view \<longleftrightarrow>
     init_law ur view \<and> get_sqe_law ur view \<and> submit_law ur view \<and> submit_and_wait_law ur view \<and>
     wait_law ur view \<and> ready_law ur view \<and> exit_law ur view"

text \<open>
  Named assumptions about a run: creating the ring succeeds; a submission takes every
  pending request; waiting does not fail; no request fails.
\<close>

definition init_succeeds :: "('d, 's) uring \<Rightarrow> bool" where
  "init_succeeds ur \<longleftrightarrow> (\<forall>n s. 0 \<le> fst (ur_init ur n s))"

definition submits_all :: "('d, 's) uring \<Rightarrow> ('s \<Rightarrow> 'd ring_view) \<Rightarrow> bool" where
  "submits_all ur view \<longleftrightarrow>
     (\<forall>s. fst (ur_submit ur s) = int (length (rv_pending (view s))) \<and>
        (\<forall>n. fst (ur_submit_and_wait ur n s) = int (length (rv_pending (view s)))))"

definition waits_succeed :: "('d, 's) uring \<Rightarrow> bool" where
  "waits_succeed ur \<longleftrightarrow> (\<forall>s e. fst (ur_wait_cqe ur s) \<noteq> Some (Inl e))"

definition requests_succeed :: "('d, 's) uring \<Rightarrow> bool" where
  "requests_succeed ur \<longleftrightarrow>
     (\<forall>s. (\<forall>c \<in> set (ur_ready ur s). 0 \<le> cq_res c) \<and>
        (\<forall>c. fst (ur_wait_cqe ur s) = Some (Inr c) \<longrightarrow> 0 \<le> cq_res c))"

section \<open>Using the laws\<close>

lemma view_push_simps [simp]:
  "rv_pending (view_push es v) = rv_pending v @ es" "rv_entries (view_push es v) = rv_entries v"
  "rv_submitted (view_push es v) = rv_submitted v" "rv_batches (view_push es v) = rv_batches v"
  "rv_drained (view_push es v) = rv_drained v"
  "rv_outstanding (view_push es v) = rv_outstanding v"
  "view_push [] v = v" "view_push es' (view_push es v) = view_push (es @ es') v"
  by (simp_all add: view_push_def rv_submitted_def)

lemma view_submit_simps [simp]:
  "rv_pending (view_submit n v) = drop n (rv_pending v)"
  "rv_entries (view_submit n v) = rv_entries v"
  "rv_batches (view_submit n v) = rv_batches v @ [take n (rv_pending v)]"
  "rv_drained (view_submit n v) = rv_drained v @ [rv_outstanding v = {#}]"
  "rv_submitted (view_submit n v) = rv_submitted v @ take n (rv_pending v)"
  "rv_outstanding (view_submit n v) = rv_outstanding v + mset (map sq_data (take n (rv_pending v)))"
  by (simp_all add: view_submit_def rv_submitted_def)

lemma view_consume_simps [simp]:
  "rv_pending (view_consume M v) = rv_pending v" "rv_entries (view_consume M v) = rv_entries v"
  "rv_submitted (view_consume M v) = rv_submitted v" "rv_batches (view_consume M v) = rv_batches v"
  "rv_drained (view_consume M v) = rv_drained v"
  "rv_outstanding (view_consume M v) = rv_outstanding v - M"
  by (simp_all add: view_consume_def rv_submitted_def)

lemma view_consume_consume [simp]:
  "view_consume M (view_consume N v) = view_consume (N + M) v"
  by (simp add: view_consume_def)

lemma uring_lawsD:
  assumes "uring_laws ur view"
  shows "init_law ur view" "get_sqe_law ur view" "submit_law ur view" "submit_and_wait_law ur view"
    "wait_law ur view" "ready_law ur view" "exit_law ur view"
  using assms by (simp_all add: uring_laws_def)

lemma get_sqe_room:
  assumes "get_sqe_law ur view" "length (rv_pending (view s)) < rv_entries (view s)"
  obtains s1 where "ur_get_sqe ur s = (True, s1)" "\<And>e. view (ur_prep ur e s1) = view_push [e] (view s)"
proof -
  obtain b s1 where g: "ur_get_sqe ur s = (b, s1)" by fastforce
  from assms(1) [unfolded get_sqe_law_def, rule_format, OF g] assms(2) g that show thesis by auto
qed

lemma get_sqe_full:
  assumes "get_sqe_law ur view" "rv_entries (view s) \<le> length (rv_pending (view s))"
  obtains s1 where "ur_get_sqe ur s = (False, s1)" "view s1 = view s"
proof -
  obtain b s1 where g: "ur_get_sqe ur s = (b, s1)" by fastforce
  from assms(1) [unfolded get_sqe_law_def, rule_format, OF g] assms(2) g that show thesis by auto
qed

lemma push_sqe_law:
  assumes "get_sqe_law ur view" "push_sqe ur e s = (b, s')"
  shows "b \<longleftrightarrow> length (rv_pending (view s)) < rv_entries (view s)"
    and "view s' = (if b then view_push [e] (view s) else view s)"
proof -
  obtain c s1 where g: "ur_get_sqe ur s = (c, s1)" by fastforce
  note law = assms(1) [unfolded get_sqe_law_def, rule_format, OF g]
  have "b = c" "s' = (if c then ur_prep ur e s1 else s1)"
    using assms(2) g by (auto simp: push_sqe_def split: bool.splits)
  with law show "b \<longleftrightarrow> length (rv_pending (view s)) < rv_entries (view s)"
    "view s' = (if b then view_push [e] (view s) else view s)" by auto
qed

text \<open>With room in the ring an unchecked preparation is safe; without, it is not.\<close>

lemma push_unchecked_room:
  assumes "get_sqe_law ur view" "length (rv_pending (view s)) < rv_entries (view s)"
  obtains s' where "push_unchecked ur e s = (Inr (), s')" "view s' = view_push [e] (view s)"
proof -
  obtain b s' where p: "push_sqe ur e s = (b, s')" by fastforce
  from push_sqe_law [OF assms(1) p] assms(2) p that show thesis
    by (simp add: push_unchecked_def)
qed

lemma push_unchecked_full:
  assumes "get_sqe_law ur view" "rv_entries (view s) \<le> length (rv_pending (view s))"
  obtains s' where "push_unchecked ur e s = (Inl Null_deref, s')"
proof -
  obtain b s' where p: "push_sqe ur e s = (b, s')" by fastforce
  from push_sqe_law [OF assms(1) p] assms(2) p that show thesis
    by (simp add: push_unchecked_def)
qed

text \<open>Several unchecked preparations in a row.\<close>

fun push_list :: "('d, 's) uring \<Rightarrow> 'd sqe list \<Rightarrow> 's \<Rightarrow> (cpp_error + unit) \<times> 's" where
  "push_list ur [] s = (Inr (), s)"
| "push_list ur (e # es) s =
     (case push_unchecked ur e s of
        (Inl err, s1) \<Rightarrow> (Inl err, s1) | (Inr _, s1) \<Rightarrow> push_list ur es s1)"

lemma push_list_append:
  "push_list ur (es @ es') s =
     (case push_list ur es s of (Inl err, s1) \<Rightarrow> (Inl err, s1) | (Inr _, s1) \<Rightarrow> push_list ur es' s1)"
  by (induction es arbitrary: s) (auto split: prod.splits sum.splits)

lemma push_list_room:
  assumes "get_sqe_law ur view"
  shows "length (rv_pending (view s)) + length es \<le> rv_entries (view s) \<Longrightarrow>
    \<exists>s'. push_list ur es s = (Inr (), s') \<and> view s' = view_push es (view s)"
proof (induction es arbitrary: s)
  case (Cons e es)
  then have "length (rv_pending (view s)) < rv_entries (view s)" by simp
  from push_unchecked_room [OF assms this, of e] obtain s1 where
    s1: "push_unchecked ur e s = (Inr (), s1)" "view s1 = view_push [e] (view s)" .
  with Cons.IH [of s1] Cons.prems show ?case by auto
qed simp

lemma push_list_full:
  assumes "get_sqe_law ur view"
  shows "rv_entries (view s) < length (rv_pending (view s)) + length es \<Longrightarrow>
    length (rv_pending (view s)) \<le> rv_entries (view s) \<Longrightarrow>
    \<exists>s'. push_list ur es s = (Inl Null_deref, s')"
proof (induction es arbitrary: s)
  case (Cons e es)
  show ?case
  proof (cases "length (rv_pending (view s)) < rv_entries (view s)")
    case True
    from push_unchecked_room [OF assms True, of e] obtain s1 where
      s1: "push_unchecked ur e s = (Inr (), s1)" "view s1 = view_push [e] (view s)" .
    with Cons.IH [of s1] Cons.prems True show ?thesis by auto
  next
    case False
    then have "rv_entries (view s) \<le> length (rv_pending (view s))" by simp
    from push_unchecked_full [OF assms this, of e] obtain s' where
      "push_unchecked ur e s = (Inl Null_deref, s')" .
    then show ?thesis by simp
  qed
qed simp

lemma submits_allD:
  assumes "uring_laws ur view" "submits_all ur view"
  shows "ur_submit ur s = (r, s') \<Longrightarrow> view s' = view_submit (length (rv_pending (view s))) (view s)"
    and "ur_submit_and_wait ur n s = (r, s') \<Longrightarrow>
      view s' = view_submit (length (rv_pending (view s))) (view s) \<and>
      min n (size (rv_outstanding (view s'))) \<le> length (ur_ready ur s')"
proof -
  assume a: "ur_submit ur s = (r, s')"
  then have "r = int (length (rv_pending (view s)))" using assms(2) by (metis submits_all_def fst_conv)
  then show "view s' = view_submit (length (rv_pending (view s))) (view s)"
    using uring_lawsD(3) [OF assms(1), unfolded submit_law_def, rule_format, OF a] by simp
next
  assume a: "ur_submit_and_wait ur n s = (r, s')"
  then have "r = int (length (rv_pending (view s)))" using assms(2) by (metis submits_all_def fst_conv)
  then have r: "nat r = length (rv_pending (view s))" "0 \<le> r" by simp_all
  show "view s' = view_submit (length (rv_pending (view s))) (view s) \<and>
      min n (size (rv_outstanding (view s'))) \<le> length (ur_ready ur s')"
    using uring_lawsD(4) [OF assms(1), unfolded submit_and_wait_law_def, rule_format, OF a] r(2)
    unfolding r(1) by blast
qed

text \<open>With every request succeeding and something outstanding, a wait yields a completion.\<close>

lemma wait_succeeds:
  assumes "uring_laws ur view" "waits_succeed ur" "rv_outstanding (view s) \<noteq> {#}"
  obtains c s' where "ur_wait_cqe ur s = (Some (Inr c), s')" "view s' = view s"
    "cq_data c \<in># rv_outstanding (view s)"
    "view (ur_cqe_seen ur c s') = view_consume {#cq_data c#} (view s)"
proof -
  obtain r s' where r: "ur_wait_cqe ur s = (r, s')" by fastforce
  note law = uring_lawsD(5) [OF assms(1), unfolded wait_law_def, rule_format, OF r]
  with assms(3) obtain x where x: "r = Some x" by auto
  moreover have "x \<noteq> Inl e" for e using assms(2) r x by (metis waits_succeed_def fst_conv)
  ultimately obtain c where "r = Some (Inr c)" by (cases x) auto
  with law r that show thesis by blast
qed

text \<open>A ring with nothing pending and nothing outstanding.\<close>

definition ring_idle :: "nat \<Rightarrow> ('s \<Rightarrow> 'd ring_view) \<Rightarrow> 's \<Rightarrow> bool" where
  "ring_idle n view s \<longleftrightarrow>
     rv_pending (view s) = [] \<and> rv_entries (view s) = n \<and> rv_outstanding (view s) = {#}"

lemma init_idle:
  assumes "uring_laws ur view" "init_succeeds ur"
  obtains r s1 where "ur_init ur (2 ^ k) s = (r, s1)" "0 \<le> r" "ring_idle (2 ^ k) view s1"
    "rv_batches (view s1) = rv_batches (view s)"
proof -
  obtain r s1 where i: "ur_init ur (2 ^ k) s = (r, s1)" by fastforce
  have r: "0 \<le> r" using assms(2) i by (metis init_succeeds_def fst_conv)
  from uring_lawsD(1) [OF assms(1), unfolded init_law_def, rule_format, OF i r] that [OF i r]
  show thesis by (simp add: ring_idle_def rv_submitted_def)
qed

lemma init_drained:
  assumes "uring_laws ur view" "init_succeeds ur" "ur_init ur (2 ^ k) s = (r, s1)"
  shows "rv_drained (view s1) = rv_drained (view s)"
proof -
  have r: "0 \<le> r" using assms(2,3) by (metis init_succeeds_def fst_conv)
  from uring_lawsD(1) [OF assms(1), unfolded init_law_def, rule_format, OF assms(3) r] show ?thesis by simp
qed

lemma exit_batches:
  "uring_laws ur view \<Longrightarrow> rv_batches (view (ur_exit ur s)) = rv_batches (view s)"
  by (simp add: uring_laws_def exit_law_def)

lemma exit_drained:
  "uring_laws ur view \<Longrightarrow> rv_drained (view (ur_exit ur s)) = rv_drained (view s)"
  by (simp add: uring_laws_def exit_law_def)

lemma exit_submitted:
  "uring_laws ur view \<Longrightarrow> rv_submitted (view (ur_exit ur s)) = rv_submitted (view s)"
  by (simp add: exit_batches rv_submitted_def)

section \<open>A concrete ring\<close>

text \<open>
  The kernel completes the requests of a submission at once, in order, each with the
  result \<open>res\<close> gives it.
\<close>

record 'd sim =
  sim_entries :: nat
  sim_pending :: "'d sqe list"
  sim_batches :: "'d sqe list list"
  sim_drained :: "bool list"
  sim_done :: "'d sqe list"

abbreviation sim_submitted :: "'d sim \<Rightarrow> 'd sqe list" where
  "sim_submitted s \<equiv> concat (sim_batches s)"

definition sim_submit :: "'d sim \<Rightarrow> int \<times> 'd sim" where
  "sim_submit s = (int (length (sim_pending s)),
     s\<lparr>sim_pending := [], sim_batches := sim_batches s @ [sim_pending s],
       sim_drained := sim_drained s @ [sim_done s = []],
       sim_done := sim_done s @ sim_pending s\<rparr>)"

definition completion :: "('d sqe \<Rightarrow> int) \<Rightarrow> 'd sqe \<Rightarrow> 'd cqe" where
  "completion res e = \<lparr>cq_res = res e, cq_data = sq_data e\<rparr>"

text \<open>The completion of a request that was answered.\<close>

definition done_cqe :: "'d sqe \<times> int \<Rightarrow> 'd cqe" where
  "done_cqe x = \<lparr>cq_res = snd x, cq_data = sq_data (fst x)\<rparr>"

definition sim_uring :: "('d sqe \<Rightarrow> int) \<Rightarrow> ('d, 'd sim) uring" where
  "sim_uring res =
     \<lparr>ur_init = (\<lambda>n s. (0, s\<lparr>sim_entries := n, sim_pending := [], sim_done := []\<rparr>)),
      ur_get_sqe = (\<lambda>s. (length (sim_pending s) < sim_entries s, s)),
      ur_prep = (\<lambda>e s. s\<lparr>sim_pending := sim_pending s @ [e]\<rparr>),
      ur_submit = sim_submit,
      ur_submit_and_wait = (\<lambda>n. sim_submit),
      ur_wait_cqe = (\<lambda>s. (case sim_done s of [] \<Rightarrow> None | e # _ \<Rightarrow> Some (Inr (completion res e)), s)),
      ur_cqe_seen = (\<lambda>c s. s\<lparr>sim_done := tl (sim_done s)\<rparr>),
      ur_ready = (\<lambda>s. map (completion res) (sim_done s)),
      ur_cq_advance = (\<lambda>n s. s\<lparr>sim_done := drop n (sim_done s)\<rparr>),
      ur_exit = (\<lambda>s. s\<lparr>sim_pending := [], sim_done := []\<rparr>)\<rparr>"

definition sim_view :: "'d sim \<Rightarrow> 'd ring_view" where
  "sim_view s = \<lparr>rv_pending = sim_pending s, rv_entries = sim_entries s,
     rv_batches = sim_batches s, rv_drained = sim_drained s, rv_outstanding = mset (map sq_data (sim_done s))\<rparr>"

definition sim_start :: "'d sim" where
  "sim_start = \<lparr>sim_entries = 0, sim_pending = [], sim_batches = [], sim_drained = [], sim_done = []\<rparr>"

lemma completion_simps [simp]:
  "cq_res (completion res e) = res e" "cq_data (completion res e) = sq_data e"
  by (simp_all add: completion_def)

lemma completion_data [simp]: "cq_data \<circ> completion res = sq_data"
  by (simp add: fun_eq_iff)

lemma sim_advance:
  "image_mset sq_data (mset (drop n es)) =
     image_mset sq_data (mset es) - image_mset sq_data (mset (take n es))"
proof -
  have "mset es = mset (take n es) + mset (drop n es)"
    by (metis append_take_drop_id mset_append)
  then show ?thesis by simp
qed

lemma sim_uring_laws: "uring_laws (sim_uring res) sim_view"
proof -
  have "init_law (sim_uring res) sim_view"
    by (simp add: init_law_def sim_uring_def sim_view_def)
  moreover have "get_sqe_law (sim_uring res) sim_view"
    by (simp add: get_sqe_law_def sim_uring_def sim_view_def view_push_def)
  moreover have "submit_law (sim_uring res) sim_view"
    by (auto simp: submit_law_def sim_uring_def sim_view_def sim_submit_def view_submit_def)
  moreover have "submit_and_wait_law (sim_uring res) sim_view"
    by (auto simp: submit_and_wait_law_def sim_uring_def sim_view_def sim_submit_def view_submit_def)
  moreover have "wait_law (sim_uring res) sim_view"
    by (auto simp: wait_law_def sim_uring_def sim_view_def view_consume_def split: list.splits)
  moreover have "ready_law (sim_uring res) sim_view"
    by (simp add: ready_law_def sim_uring_def sim_view_def view_consume_def sim_advance take_map
        image_mset.compositionality)
  moreover have "exit_law (sim_uring res) sim_view"
    by (simp add: exit_law_def sim_uring_def sim_view_def)
  ultimately show ?thesis by (simp add: uring_laws_def)
qed

lemma sim_uring_ok:
  "init_succeeds (sim_uring res)" "submits_all (sim_uring res) sim_view" "waits_succeed (sim_uring res)"
  by (auto simp: init_succeeds_def submits_all_def waits_succeed_def sim_uring_def sim_submit_def
      sim_view_def split: list.splits)

lemma sim_requests_succeed: "(\<And>e. 0 \<le> res e) \<Longrightarrow> requests_succeed (sim_uring res)"
  by (auto simp: requests_succeed_def sim_uring_def split: list.splits)

text \<open>An \<open>fstat\<close> for the witnesses: every descriptor is a regular file of \<open>n\<close> bytes.\<close>

definition fixed_fstat :: "off_t \<Rightarrow> c_int \<Rightarrow> stat option" where
  "fixed_fstat n fd = Some \<lparr>st_mode = Regular, st_size = n\<rparr>"

lemma fixed_fstat_size [simp]: "get_file_size (fixed_fstat n) blk fd = n"
  by (simp add: get_file_size_def fixed_fstat_def)

end
