(* ===== verification/Uring_Vec.thy ===== *)
theory Uring_Vec
  imports Uring Readv_Copy
begin

text \<open>
  \<open>source/IOuring/uring_vec_broadcaster.hpp\<close> (mode 2): for each output and each 8 MiB window
  of the file, a vectored read linked to a vectored write of the same buffers. The user data
  of the write is a pointer to the window's \<open>RequestContext\<close>, allocated with \<open>new\<close> and
  deleted when the write completes; the read carries a null pointer.
\<close>

section \<open>State\<close>

definition BLOCK_SZ :: size_t where [unfolds]: "BLOCK_SZ = 64 * 1024"
definition WINDOW_SIZE :: size_t where [unfolds]: "WINDOW_SIZE = 8 * 1024 * 1024"

record request_context =
  rc_iovecs :: "iovec list"
  rc_raw_pointers :: "ptr list"
  rc_bytes :: size_t

text \<open>
  The ring, the memory the system calls manage, and the objects made with \<open>new\<close>, by their
  address; \<open>vs_next\<close> is the next address \<open>new\<close> hands out.
\<close>

record ('s, 'm) vec_state =
  vs_ring :: 's
  vs_mem :: 'm
  vs_ctxs :: "ptr \<Rightarrow> request_context option"
  vs_next :: ptr

section \<open>Contexts\<close>

text \<open>
  The constructor's loop, \<open>n\<close> blocks to go. When an allocation fails the constructor throws;
  the destructor of the half-built object does not run, so its blocks stay allocated.
\<close>

fun ctx_blocks :: "'m posix \<Rightarrow> nat \<Rightarrow> size_t \<Rightarrow> 'm \<Rightarrow> (cpp_error + iovec list \<times> ptr list) \<times> 'm" where
  "ctx_blocks px 0 remaining m = (Inr ([], []), m)"
| "ctx_blocks px (Suc n) remaining m =
     (let to_read = min remaining BLOCK_SZ in
      case px_memalign px 4096 BLOCK_SZ m of
        (None, m1) \<Rightarrow> (Inl Bad_alloc, m1)
      | (Some p, m1) \<Rightarrow>
          (case ctx_blocks px n (remaining - to_read) m1 of
             (Inl e, m2) \<Rightarrow> (Inl e, m2)
           | (Inr (vs, ps), m2) \<Rightarrow> (Inr (\<lparr>iov_base = p, iov_len = to_read\<rparr> # vs, p # ps), m2)))"

definition new_RequestContext ::
    "'m posix \<Rightarrow> nat \<Rightarrow> size_t \<Rightarrow> ('s, 'm) vec_state \<Rightarrow> (cpp_error + ptr) \<times> ('s, 'm) vec_state" where
  "new_RequestContext px blocks bytes_to_process st =
     (case ctx_blocks px blocks bytes_to_process (vs_mem st) of
        (Inl e, m) \<Rightarrow> (Inl e, st\<lparr>vs_mem := m\<rparr>)
      | (Inr (vs, ps), m) \<Rightarrow>
          (Inr (vs_next st),
           st\<lparr>vs_mem := m, vs_next := Suc (vs_next st),
              vs_ctxs := (vs_ctxs st)(vs_next st \<mapsto>
                \<lparr>rc_iovecs = vs, rc_raw_pointers = ps, rc_bytes = bytes_to_process\<rparr>)\<rparr>))"

fun free_all :: "'m posix \<Rightarrow> ptr list \<Rightarrow> 'm \<Rightarrow> 'm" where
  "free_all px [] m = m"
| "free_all px (p # ps) m = free_all px ps (px_free px p m)"

definition delete_RequestContext ::
    "'m posix \<Rightarrow> ptr \<Rightarrow> ('s, 'm) vec_state \<Rightarrow> cpp_error + ('s, 'm) vec_state" where
  "delete_RequestContext px p st =
     (case vs_ctxs st p of
        None \<Rightarrow> Inl Dangling_ref
      | Some ctx \<Rightarrow> Inr (st\<lparr>vs_mem := free_all px (rc_raw_pointers ctx) (vs_mem st),
                            vs_ctxs := (vs_ctxs st)(p := None)\<rparr>))"

section \<open>Submission\<close>

definition vec_window :: "size_t \<Rightarrow> size_t \<Rightarrow> size_t" where
  "vec_window file_sz total_processed = min WINDOW_SIZE (file_sz - total_processed)"

definition vec_blocks :: "size_t \<Rightarrow> 32 word" where
  "vec_blocks bytes_to_process = ucast ((bytes_to_process + BLOCK_SZ - 1) div BLOCK_SZ)"

text \<open>
  Getting an entry: when the ring is full it is submitted and asked again, and the second
  answer is not checked.
\<close>

definition push_or_submit :: "('d, 's) uring \<Rightarrow> 'd sqe \<Rightarrow> 's \<Rightarrow> (cpp_error + unit) \<times> 's" where
  "push_or_submit ur e r =
     (case push_sqe ur e r of
        (True, r1) \<Rightarrow> (Inr (), r1)
      | (False, r1) \<Rightarrow> (case ur_submit ur r1 of (_, r2) \<Rightarrow> push_unchecked ur e r2))"

text \<open>One window: its context, the read and the write.\<close>

definition vec_submit_window :: "(ptr option, 's) uring \<Rightarrow> 'm posix \<Rightarrow> c_int \<Rightarrow> c_int \<Rightarrow> off_t \<Rightarrow> size_t \<Rightarrow>
    ('s, 'm) vec_state \<Rightarrow> (cpp_error + unit) \<times> ('s, 'm) vec_state" where
  "vec_submit_window ur px inp out offset bytes_to_process st =
     (case new_RequestContext px (unat (vec_blocks bytes_to_process)) bytes_to_process st of
        (Inl e, st1) \<Rightarrow> (Inl e, st1)
      | (Inr ctx, st1) \<Rightarrow>
          (let vs = (case vs_ctxs st1 ctx of None \<Rightarrow> [] | Some c \<Rightarrow> rc_iovecs c) in
           case push_or_submit ur \<lparr>sq_op = Op_readv inp vs offset, sq_link = True, sq_data = None\<rparr>
                  (vs_ring st1) of
             (Inl e, r1) \<Rightarrow> (Inl e, st1\<lparr>vs_ring := r1\<rparr>)
           | (Inr _, r1) \<Rightarrow>
               (case push_or_submit ur \<lparr>sq_op = Op_writev out vs offset, sq_link = False,
                                        sq_data = Some ctx\<rparr> r1 of
                  (Inl e, r2) \<Rightarrow> (Inl e, st1\<lparr>vs_ring := r2\<rparr>)
                | (Inr _, r2) \<Rightarrow> (Inr (), st1\<lparr>vs_ring := r2\<rparr>))))"

lemma vec_progress:
  assumes "t < sz"
  shows "unat (sz - (t + vec_window sz t)) < unat (sz - t)"
proof -
  have "sz - t \<noteq> 0" using assms by auto
  then have "0 < vec_window sz t" by (simp add: vec_window_def unfolds word_gt_0)
  then show ?thesis by (rule advance_shrinks) (simp add: vec_window_def)
qed

function vec_submit_loop :: "(ptr option, 's) uring \<Rightarrow> 'm posix \<Rightarrow> c_int \<Rightarrow> c_int \<Rightarrow> off_t \<Rightarrow> size_t \<Rightarrow>
    size_t \<Rightarrow> ('s, 'm) vec_state \<Rightarrow> (cpp_error + size_t) \<times> ('s, 'm) vec_state" where
  "vec_submit_loop ur px inp out start_offset file_sz total_processed st =
     (if total_processed < file_sz then
        (let bytes_to_process = vec_window file_sz total_processed in
         case vec_submit_window ur px inp out (start_offset + total_processed) bytes_to_process st of
           (Inl e, st1) \<Rightarrow> (Inl e, st1)
         | (Inr _, st1) \<Rightarrow>
             vec_submit_loop ur px inp out start_offset file_sz (total_processed + bytes_to_process) st1)
      else (Inr total_processed, st))"
  by pat_completeness auto
termination vec_submit_loop
  by (relation "measure (\<lambda>(ur, px, inp, out, st0, sz, t, st). unat (sz - t))")
     (auto simp: vec_progress)

declare vec_submit_loop.simps [simp del]

definition submit_readV_writeV :: "(ptr option, 's) uring \<Rightarrow> 'm posix \<Rightarrow> (c_int \<Rightarrow> stat option) \<Rightarrow>
    (c_int \<Rightarrow> 64 word option) \<Rightarrow> c_int \<Rightarrow> c_int \<Rightarrow> off_t \<Rightarrow> ('s, 'm) vec_state \<Rightarrow>
    (cpp_error + size_t) \<times> ('s, 'm) vec_state" where
  "submit_readV_writeV ur px fstat blk inp out start_offset st =
     (let file_sz = get_file_size fstat blk inp in
      if file_sz \<le> 0 then (Inr 0, st)
      else
        (case vec_submit_loop ur px inp out start_offset file_sz 0 st of
           (Inl e, st1) \<Rightarrow> (Inl e, st1)
         | (Inr total_processed, st1) \<Rightarrow>
             (case ur_submit ur (vs_ring st1) of
                (_, r) \<Rightarrow> (Inr total_processed, st1\<lparr>vs_ring := r\<rparr>))))"

section \<open>Completion\<close>

definition windows_per_file :: "size_t \<Rightarrow> size_t" where
  "windows_per_file sz = (sz + WINDOW_SIZE - 1) div WINDOW_SIZE"

fun vec_submit_all :: "(ptr option, 's) uring \<Rightarrow> 'm posix \<Rightarrow> (c_int \<Rightarrow> stat option) \<Rightarrow>
    (c_int \<Rightarrow> 64 word option) \<Rightarrow> c_int \<Rightarrow> c_int list \<Rightarrow> ('s, 'm) vec_state \<Rightarrow>
    (cpp_error + unit) \<times> ('s, 'm) vec_state" where
  "vec_submit_all ur px fstat blk inp [] st = (Inr (), st)"
| "vec_submit_all ur px fstat blk inp (dest # outs) st =
     (case submit_readV_writeV ur px fstat blk inp dest 0 st of
        (Inl e, st1) \<Rightarrow> (Inl e, st1)
      | (Inr _, st1) \<Rightarrow> vec_submit_all ur px fstat blk inp outs st1)"

text \<open>
  The completion loop counts contexts only, so it may wait for ever; \<open>None\<close> is a loop that
  never ends although every wait returns.
\<close>

partial_function (option) vec_reap :: "(ptr option, 's) uring \<Rightarrow> 'm posix \<Rightarrow> size_t \<Rightarrow> size_t \<Rightarrow> size_t \<Rightarrow>
    ('s, 'm) vec_state \<Rightarrow> ((cpp_error + size_t) \<times> ('s, 'm) vec_state) option" where
  "vec_reap ur px total_expected completed total_data_out st =
     (if completed < total_expected then
        (case ur_wait_cqe ur (vs_ring st) of
           (None, r) \<Rightarrow> Some (Inl Blocks, st\<lparr>vs_ring := r\<rparr>)
         | (Some (Inl ret), r) \<Rightarrow> Some (Inr total_data_out, st\<lparr>vs_ring := r\<rparr>)
         | (Some (Inr c), r) \<Rightarrow>
             (case cq_data c of
                None \<Rightarrow> vec_reap ur px total_expected completed total_data_out
                          (st\<lparr>vs_ring := ur_cqe_seen ur c r\<rparr>)
              | Some p \<Rightarrow>
                  (case vs_ctxs st p of
                     None \<Rightarrow> Some (Inl Dangling_ref, st\<lparr>vs_ring := r\<rparr>)
                   | Some ctx \<Rightarrow>
                       (case delete_RequestContext px p (st\<lparr>vs_ring := r\<rparr>) of
                          Inl e \<Rightarrow> Some (Inl e, st\<lparr>vs_ring := r\<rparr>)
                        | Inr st1 \<Rightarrow>
                            vec_reap ur px total_expected (completed + 1)
                              (if cq_res c < 0 then total_data_out else total_data_out + rc_bytes ctx)
                              (st1\<lparr>vs_ring := ur_cqe_seen ur c (vs_ring st1)\<rparr>)))))
      else Some (Inr total_data_out, st))"

definition perform_uring_broadcast :: "(ptr option, 's) uring \<Rightarrow> 'm posix \<Rightarrow> (c_int \<Rightarrow> stat option) \<Rightarrow>
    (c_int \<Rightarrow> 64 word option) \<Rightarrow> c_int \<Rightarrow> c_int list \<Rightarrow> ('s, 'm) vec_state \<Rightarrow>
    ((cpp_error + size_t) \<times> ('s, 'm) vec_state) option" where
  "perform_uring_broadcast ur px fstat blk root_input output_files st =
     (case ur_init ur 1024 (vs_ring st) of
        (ret, r) \<Rightarrow>
          if ret < 0 then Some (Inr 0, st\<lparr>vs_ring := r\<rparr>)
          else
            (let sz = get_file_size fstat blk root_input;
                 total_expected = windows_per_file sz * of_nat (length output_files)
             in case vec_submit_all ur px fstat blk root_input output_files (st\<lparr>vs_ring := r\<rparr>) of
                  (Inl e, st1) \<Rightarrow> Some (Inl e, st1)
                | (Inr _, st1) \<Rightarrow>
                    (case vec_reap ur px total_expected 0 0 st1 of
                       None \<Rightarrow> None
                     | Some (Inl e, st2) \<Rightarrow> Some (Inl e, st2)
                     | Some (Inr total_data_out, st2) \<Rightarrow>
                         Some (Inr total_data_out, st2\<lparr>vs_ring := ur_exit ur (vs_ring st2)\<rparr>))))"

section \<open>Memory of the contexts\<close>

lemma unat_vec_consts [u64]: "unat BLOCK_SZ = 65536" "unat WINDOW_SIZE = 8388608"
  by (simp_all add: unfolds)

interpretation vw: chunk_loop vec_window 8388608
proof
  show "unat (vec_window sz t) = min 8388608 (unat sz - unat t)" if "unat t < unat sz" for t sz
    using that by (simp add: vec_window_def u64 unat_minus64)
qed simp

lemma ctx_blocks_ok:
  assumes law: "memalign_law px files mem live" and alloc: "alloc_succeeds px"
  shows "\<exists>vs ps m'. ctx_blocks px n remaining m = (Inr (vs, ps), m') \<and> ps = map iov_base vs \<and>
    distinct ps \<and> set ps \<inter> live m = {} \<and> live m' = live m \<union> set ps \<and> files m' = files m \<and>
    iov_total vs = min (unat remaining) (n * 65536)"
proof (induction n arbitrary: remaining m)
  case 0
  then show ?case by simp
next
  case (Suc n)
  have arith: "min a b + min (a - min a b) c = min a (b + c)" for a b c :: nat
    by (auto simp: min_def)
  let ?k = "min remaining BLOCK_SZ"
  obtain r m1 where r: "px_memalign px 4096 BLOCK_SZ m = (r, m1)" by fastforce
  then have "r \<noteq> None" using alloc by (metis alloc_succeeds_def fst_conv)
  then obtain p where p: "px_memalign px 4096 BLOCK_SZ m = (Some p, m1)" using r by blast
  note a = memalign_SomeD [OF law p]
  from Suc.IH [of "remaining - ?k" m1] obtain vs ps m' where
    IH: "ctx_blocks px n (remaining - ?k) m1 = (Inr (vs, ps), m')" "ps = map iov_base vs"
      "distinct ps" "set ps \<inter> live m1 = {}" "live m' = live m1 \<union> set ps" "files m' = files m1"
      "iov_total vs = min (unat (remaining - ?k)) (n * 65536)" by blast
  have k: "unat ?k = min (unat remaining) 65536" by (simp add: u64)
  have "unat (remaining - ?k) = unat remaining - unat ?k" by (rule unat_minus64) simp
  then have "iov_total (\<lparr>iov_base = p, iov_len = ?k\<rparr> # vs) = min (unat remaining) (Suc n * 65536)"
    using IH(7) k arith [of "unat remaining" 65536 "n * 65536"] by simp
  with IH a p show ?case by (auto simp: Let_def)
qed

lemma free_all_live:
  assumes "free_law px files live"
  shows "distinct ps \<Longrightarrow> set ps \<subseteq> live m \<Longrightarrow>
    files (free_all px ps m) = files m \<and> live (free_all px ps m) = live m - set ps"
proof (induction ps arbitrary: m)
  case (Cons p ps)
  have "files (px_free px p m) = files m" "live (px_free px p m) = live m - {p}"
    using assms Cons.prems(2) by (simp_all add: free_law_def)
  with Cons.IH [of "px_free px p m"] Cons.prems show ?case by auto
qed simp

text \<open>
  The blocks in use are those of the live contexts, each owned by one of them, and whatever
  was allocated before.
\<close>

definition mem_ok :: "('m \<Rightarrow> ptr set) \<Rightarrow> ptr set \<Rightarrow> 'm \<Rightarrow> (ptr \<Rightarrow> request_context option) \<Rightarrow> bool" where
  "mem_ok live L0 m C \<longleftrightarrow>
     (\<forall>p q c d. C p = Some c \<longrightarrow> C q = Some d \<longrightarrow> p \<noteq> q \<longrightarrow>
        set (rc_raw_pointers c) \<inter> set (rc_raw_pointers d) = {}) \<and>
     (\<forall>c \<in> ran C. distinct (rc_raw_pointers c) \<and> set (rc_raw_pointers c) \<inter> L0 = {}) \<and>
     live m = L0 \<union> (\<Union>c \<in> ran C. set (rc_raw_pointers c))"

lemma mem_ok_empty: "mem_ok live (live m) m Map.empty"
  by (simp add: mem_ok_def)

lemma mem_ok_disjoint:
  assumes "mem_ok live L0 m C" "C p = Some c" "C q = Some d" "p \<noteq> q"
  shows "set (rc_raw_pointers c) \<inter> set (rc_raw_pointers d) = {}"
  using assms(1) [unfolded mem_ok_def, THEN conjunct1, rule_format, OF assms(2-4)] .

lemma mem_ok_new:
  assumes ok: "mem_ok live L0 m C" and q: "C q = None"
    and c: "distinct (rc_raw_pointers c)" "set (rc_raw_pointers c) \<inter> live m = {}"
      "live m' = live m \<union> set (rc_raw_pointers c)"
  shows "mem_ok live L0 m' (C(q \<mapsto> c))"
proof -
  have sub: "set (rc_raw_pointers d) \<subseteq> live m" if "C p = Some d" for p d
    using ok that by (auto simp: mem_ok_def ran_def)
  have L0: "L0 \<subseteq> live m" using ok by (auto simp: mem_ok_def)
  have ran: "ran (C(q \<mapsto> c)) = insert c (ran C)" using q by (rule ran_map_upd)
  have new: "set (rc_raw_pointers c) \<inter> set (rc_raw_pointers d) = {}"
    "set (rc_raw_pointers d) \<inter> set (rc_raw_pointers c) = {}" if "C p = Some d" for p d
    using sub [OF that] c(2) by blast+
  have old: "set (rc_raw_pointers d) \<inter> set (rc_raw_pointers e) = {}"
    if "C p = Some d" "C r = Some e" "p \<noteq> r" for p r d e
    by (rule mem_ok_disjoint [OF ok that])
  show ?thesis
    unfolding mem_ok_def ran
  proof (intro conjI allI impI)
    fix p p' d d' assume "(C(q \<mapsto> c)) p = Some d" "(C(q \<mapsto> c)) p' = Some d'" "p \<noteq> p'"
    then show "set (rc_raw_pointers d) \<inter> set (rc_raw_pointers d') = {}"
      using new [of p d] new [of p' d'] old [of p d p' d'] by (simp split: if_splits)
  next
    show "\<forall>d \<in> insert c (ran C). distinct (rc_raw_pointers d) \<and> set (rc_raw_pointers d) \<inter> L0 = {}"
      using ok c(1,2) L0 by (auto simp: mem_ok_def)
    show "live m' = L0 \<union> (\<Union>d \<in> insert c (ran C). set (rc_raw_pointers d))"
      using ok c(3) by (auto simp: mem_ok_def)
  qed
qed

lemma mem_ok_delete:
  assumes ok: "mem_ok live L0 m C" and q: "C q = Some c"
    and m': "live m' = live m - set (rc_raw_pointers c)"
  shows "mem_ok live L0 m' (C(q := None))"
proof -
  have ran: "d \<in> ran (C(q := None)) \<longleftrightarrow> (\<exists>p. p \<noteq> q \<and> C p = Some d)" for d
    by (auto simp: ran_def)
  have dis: "set (rc_raw_pointers d) \<inter> set (rc_raw_pointers c) = {}" if "C p = Some d" "p \<noteq> q" for p d
    by (rule mem_ok_disjoint [OF ok that(1) q that(2)])
  have cL0: "set (rc_raw_pointers c) \<inter> L0 = {}" using ok q by (auto simp: mem_ok_def ran_def)
  have old: "set (rc_raw_pointers d) \<inter> set (rc_raw_pointers e) = {}"
    if "C p = Some d" "C r = Some e" "p \<noteq> r" for p r d e
    by (rule mem_ok_disjoint [OF ok that])
  show ?thesis
    unfolding mem_ok_def
  proof (intro conjI allI impI)
    fix p p' d d' assume "(C(q := None)) p = Some d" "(C(q := None)) p' = Some d'" "p \<noteq> p'"
    then show "set (rc_raw_pointers d) \<inter> set (rc_raw_pointers d') = {}"
      using old [of p d p' d'] by (simp split: if_splits)
  next
    show "\<forall>d \<in> ran (C(q := None)). distinct (rc_raw_pointers d) \<and> set (rc_raw_pointers d) \<inter> L0 = {}"
      using ok unfolding mem_ok_def Ball_def ran by (auto simp: ran_def)
    have "x \<in> live m - set (rc_raw_pointers c) \<longleftrightarrow>
        x \<in> L0 \<or> (\<exists>d p. p \<noteq> q \<and> C p = Some d \<and> x \<in> set (rc_raw_pointers d))" for x
    proof -
      have "x \<in> live m \<longleftrightarrow> x \<in> L0 \<or> (\<exists>d p. C p = Some d \<and> x \<in> set (rc_raw_pointers d))"
        using ok by (auto simp: mem_ok_def ran_def)
      moreover have "x \<notin> set (rc_raw_pointers c)" if "C p = Some d" "p \<noteq> q" "x \<in> set (rc_raw_pointers d)" for p d
        using dis [OF that(1,2)] that(3) by blast
      moreover have "x \<notin> set (rc_raw_pointers c)" if "x \<in> L0" using cL0 that by blast
      ultimately show ?thesis using q by (metis Diff_iff option.inject)
    qed
    moreover have "x \<in> (\<Union>d \<in> ran (C(q := None)). set (rc_raw_pointers d)) \<longleftrightarrow>
        (\<exists>d p. p \<noteq> q \<and> C p = Some d \<and> x \<in> set (rc_raw_pointers d))" for x
      using ran by blast
    ultimately show "live m' = L0 \<union> (\<Union>d \<in> ran (C(q := None)). set (rc_raw_pointers d))"
      by (intro set_eqI) (simp only: m' Un_iff)
  qed
qed

section \<open>Submission keeps pairs together\<close>

text \<open>A submission is made of whole pairs: a linked request, then an unlinked one.\<close>

fun link_pairs :: "'d sqe list \<Rightarrow> bool" where
  "link_pairs [] = True"
| "link_pairs [e] = False"
| "link_pairs (e # f # es) = (sq_link e \<and> \<not> sq_link f \<and> link_pairs es)"

lemma link_pairs_append: "link_pairs es \<Longrightarrow> link_pairs (es @ fs) = link_pairs fs"
  by (induction es rule: link_pairs.induct) auto

lemma link_pairs_even: "link_pairs es \<Longrightarrow> even (length es)"
  by (induction es rule: link_pairs.induct) auto

text \<open>The pair of requests for one window: the same buffers, read then written.\<close>

definition vec_pair :: "c_int \<Rightarrow> c_int \<times> nat \<times> nat \<Rightarrow> (ptr option) sqe list \<Rightarrow> bool" where
  "vec_pair inp w es \<longleftrightarrow>
     (case w of (out, q, l) \<Rightarrow> \<exists>vs p. iov_total vs = l \<and>
        es = [\<lparr>sq_op = Op_readv inp vs (of_nat q), sq_link = True, sq_data = None\<rparr>,
              \<lparr>sq_op = Op_writev out vs (of_nat q), sq_link = False, sq_data = Some p\<rparr>])"

text \<open>The buffers a pair of requests works on.\<close>

definition pair_iov :: "'d sqe list \<Rightarrow> iovec list" where
  "pair_iov es =
     (case es of [] \<Rightarrow> [] | e # _ \<Rightarrow> (case sq_op e of Op_readv fd vs off \<Rightarrow> vs | _ \<Rightarrow> []))"

abbreviation trace_bases :: "'d sqe list list \<Rightarrow> ptr list" where
  "trace_bases prs \<equiv> concat (map (\<lambda>es. map iov_base (pair_iov es)) prs)"

lemma push_or_submit_room:
  assumes laws: "uring_laws ur view" "submits_all ur view"
    and len: "0 < rv_entries (view r)" "length (rv_pending (view r)) \<le> rv_entries (view r)"
  shows "\<exists>r'. push_or_submit ur e r = (Inr (), r') \<and>
    view r' = view_push [e] (if length (rv_pending (view r)) < rv_entries (view r) then view r
                             else view_submit (length (rv_pending (view r))) (view r))"
proof -
  obtain b r1 where p: "push_sqe ur e r = (b, r1)" by fastforce
  note pl = push_sqe_law [OF uring_lawsD(2) [OF laws(1)] p]
  show ?thesis
  proof (cases b)
    case True
    with p pl show ?thesis by (simp add: push_or_submit_def)
  next
    case False
    with pl have full: "\<not> length (rv_pending (view r)) < rv_entries (view r)" "view r1 = view r" by auto
    obtain k r2 where s: "ur_submit ur r1 = (k, r2)" by fastforce
    have v2: "view r2 = view_submit (length (rv_pending (view r))) (view r)"
      using submits_allD(1) [OF laws s] full(2) by simp
    then have "length (rv_pending (view r2)) < rv_entries (view r2)" using len(1) by simp
    from push_unchecked_room [OF uring_lawsD(2) [OF laws(1)] this, of e] obtain r3 where
      "push_unchecked ur e r2 = (Inr (), r3)" "view r3 = view_push [e] (view r2)" .
    with p s False full v2 show ?thesis by (simp add: push_or_submit_def)
  qed
qed

text \<open>With an even ring and whole pairs pending, a pair is never split by a submission.\<close>

lemma push_pair:
  assumes laws: "uring_laws ur view" "submits_all ur view"
    and v: "rv_entries (view r) = 1024" "length (rv_pending (view r)) \<le> 1024" "link_pairs (rv_pending (view r))"
  obtains r1 r2 where "push_or_submit ur e r = (Inr (), r1)" "push_or_submit ur f r1 = (Inr (), r2)"
    "view r2 = view_push [e, f] (if length (rv_pending (view r)) < 1024 then view r
                                 else view_submit 1024 (view r))"
proof -
  from push_or_submit_room [OF laws, of r e] v obtain r1 where
    r1: "push_or_submit ur e r = (Inr (), r1)"
      "view r1 = view_push [e] (if length (rv_pending (view r)) < 1024 then view r
                             else view_submit (length (rv_pending (view r))) (view r))" by auto
  have "length (rv_pending (view r)) < 1024 \<Longrightarrow> Suc (length (rv_pending (view r))) < 1024"
    using link_pairs_even [OF v(3)] by presburger
  then have room: "length (rv_pending (view r1)) < rv_entries (view r1)"
    using r1(2) v(1) by (simp split: if_splits)
  with push_or_submit_room [OF laws, of r1 f] obtain r2 where
    "push_or_submit ur f r1 = (Inr (), r2)" "view r2 = view_push [f] (view r1)" by auto
  with that r1 v(2) show thesis by (cases "length (rv_pending (view r)) < 1024") simp_all
qed

section \<open>The invariant\<close>

text \<open>
  The contexts: each live one is the user data of exactly one request that is prepared or
  outstanding, and of no other.
\<close>

definition ctx_ok :: "ptr option multiset \<Rightarrow> (ptr \<Rightarrow> request_context option) \<Rightarrow> ptr \<Rightarrow> bool" where
  "ctx_ok D C next_p \<longleftrightarrow> finite (dom C) \<and>
     (\<forall>p. count D (Some p) = (if C p = None then 0 else 1)) \<and> (\<forall>p. C p \<noteq> None \<longrightarrow> p < next_p)"

definition ctx_bytes :: "(ptr \<Rightarrow> request_context option) \<Rightarrow> size_t" where
  "ctx_bytes C = (\<Sum>p \<in> dom C. rc_bytes (the (C p)))"

definition in_flight :: "('s \<Rightarrow> (ptr option) ring_view) \<Rightarrow> 's \<Rightarrow> ptr option multiset" where
  "in_flight view r = rv_outstanding (view r) + mset (map sq_data (rv_pending (view r)))"

text \<open>
  What has been handed over since the batches \<open>B0\<close>, and is pending, is one pair per window of
  \<open>ws\<close>, in order, no pair split between two submissions, and no block used by two pairs; the
  blocks lie in \<open>L\<close>, those that are allocated.
\<close>

definition trace_ok :: "c_int \<Rightarrow> (ptr option) sqe list list \<Rightarrow> (c_int \<times> nat \<times> nat) list \<Rightarrow> ptr set \<Rightarrow>
    (ptr option) ring_view \<Rightarrow> bool" where
  "trace_ok inp B0 ws L v \<longleftrightarrow>
     rv_entries v = 1024 \<and> length (rv_pending v) \<le> 1024 \<and> link_pairs (rv_pending v) \<and>
     (\<exists>bs prs. rv_batches v = B0 @ bs \<and> (\<forall>b \<in> set bs. link_pairs b) \<and>
        concat bs @ rv_pending v = concat prs \<and> list_all2 (vec_pair inp) ws prs \<and>
        distinct (trace_bases prs) \<and> set (trace_bases prs) \<subseteq> L)"

definition vec_inv :: "('s \<Rightarrow> (ptr option) ring_view) \<Rightarrow> ('m \<Rightarrow> ptr set) \<Rightarrow> ptr set \<Rightarrow> c_int \<Rightarrow>
    (ptr option) sqe list list \<Rightarrow> (c_int \<times> nat \<times> nat) list \<Rightarrow> ('s, 'm) vec_state \<Rightarrow> bool" where
  "vec_inv view live L0 inp B0 ws st \<longleftrightarrow>
     trace_ok inp B0 ws (live (vs_mem st)) (view (vs_ring st)) \<and>
     ctx_ok (in_flight view (vs_ring st)) (vs_ctxs st) (vs_next st) \<and>
     mem_ok live L0 (vs_mem st) (vs_ctxs st)"

lemma trace_ok_pair:
  assumes t: "trace_ok inp B0 ws L v" and p: "vec_pair inp w [e, f]"
    and ps: "map iov_base (pair_iov [e, f]) = ps" "distinct ps" "set ps \<inter> L = {}"
    and v': "v' = view_push [e, f] (if length (rv_pending v) < 1024 then v else view_submit 1024 v)"
  shows "trace_ok inp B0 (ws @ [w]) (L \<union> set ps) v'"
proof -
  from t obtain bs prs where tr: "rv_batches v = B0 @ bs" "\<forall>b \<in> set bs. link_pairs b"
    "concat bs @ rv_pending v = concat prs" "list_all2 (vec_pair inp) ws prs"
    and old: "distinct (trace_bases prs)" "set (trace_bases prs) \<subseteq> L"
    and pend: "rv_entries v = 1024" "length (rv_pending v) \<le> 1024" "link_pairs (rv_pending v)"
    unfolding trace_ok_def by blast
  have bases: "trace_bases (prs @ [[e, f]]) = trace_bases prs @ ps" using ps(1) by simp
  have disj: "distinct (trace_bases (prs @ [[e, f]]))" "set (trace_bases (prs @ [[e, f]])) \<subseteq> L \<union> set ps"
    unfolding bases using old ps(2,3) by auto
  have l2: "list_all2 (vec_pair inp) (ws @ [w]) (prs @ [[e, f]])"
    using tr(4) p by (simp add: list_all2_appendI)
  have ef: "sq_link e" "\<not> sq_link f" using p by (auto simp: vec_pair_def)
  show ?thesis
  proof (cases "length (rv_pending v) < 1024")
    case True
    then have "Suc (Suc (length (rv_pending v))) \<le> 1024"
      using link_pairs_even [OF pend(3)] by presburger
    moreover have "concat bs @ rv_pending v' = concat (prs @ [[e, f]])"
      using tr(3) True by (simp add: v' flip: append_assoc)
    ultimately show ?thesis
      using True pend tr(1,2) l2 ef disj unfolding trace_ok_def
      by (intro conjI exI [of _ bs] exI [of _ "prs @ [[e, f]]"]) (simp_all add: v' link_pairs_append)
  next
    case False
    then have "take 1024 (rv_pending v) = rv_pending v" "drop 1024 (rv_pending v) = []"
      using pend(2) by simp_all
    moreover from this have "concat (bs @ [rv_pending v]) @ rv_pending v' = concat (prs @ [[e, f]])"
      using tr(3) False by (simp add: v' flip: append_assoc)
    ultimately show ?thesis
      using False pend tr(1,2) l2 ef disj unfolding trace_ok_def
      by (intro conjI exI [of _ "bs @ [rv_pending v]"] exI [of _ "prs @ [[e, f]]"]) (simp_all add: v')
  qed
qed

lemma ctx_ok_fresh: "ctx_ok D C n \<Longrightarrow> C n = None"
  by (auto simp: ctx_ok_def)

lemma ctx_ok_new:
  assumes "ctx_ok D C n"
  shows "ctx_ok (D + {#None, Some n#}) (C(n \<mapsto> c)) (Suc n)"
  using assms ctx_ok_fresh [OF assms] by (auto simp: ctx_ok_def less_Suc_eq)

lemma ctx_bytes_new:
  "finite (dom C) \<Longrightarrow> C n = None \<Longrightarrow> ctx_bytes (C(n \<mapsto> c)) = ctx_bytes C + rc_bytes c \<and>
   card (dom (C(n \<mapsto> c))) = Suc (card (dom C))"
proof -
  assume a: "finite (dom C)" "C n = None"
  then have n: "n \<notin> dom C" by auto
  have "(\<Sum>p \<in> dom C. rc_bytes (the ((C(n \<mapsto> c)) p))) = ctx_bytes C"
    unfolding ctx_bytes_def using n by (intro sum.cong) auto
  with a n show ?thesis by (simp add: ctx_bytes_def add.commute)
qed

lemma ctx_bytes_delete:
  "finite (dom C) \<Longrightarrow> C q = Some c \<Longrightarrow> ctx_bytes C = rc_bytes c + ctx_bytes (C(q := None)) \<and>
   card (dom C) = Suc (card (dom (C(q := None))))"
proof -
  assume a: "finite (dom C)" "C q = Some c"
  then have q: "q \<in> dom C" by auto
  have "(\<Sum>p \<in> dom C - {q}. rc_bytes (the ((C(q := None)) p))) = (\<Sum>p \<in> dom C - {q}. rc_bytes (the (C p)))"
    by (intro sum.cong) auto
  then have "ctx_bytes (C(q := None)) = (\<Sum>p \<in> dom C - {q}. rc_bytes (the (C p)))"
    by (simp add: ctx_bytes_def)
  moreover have "card (dom C) = Suc (card (dom C - {q}))"
    by (metis a(1) q card_Suc_Diff1)
  ultimately show ?thesis
    using sum.remove [OF a(1) q, of "\<lambda>p. rc_bytes (the (C p))"] a(2) by (simp add: ctx_bytes_def)
qed

section \<open>Submitting everything\<close>

lemma unat_vec_blocks:
  assumes "unat p \<le> 8388608"
  shows "unat (vec_blocks p) = (unat p + 65535) div 65536"
proof -
  have "unat (p + BLOCK_SZ) = unat p + 65536" using assms by (simp add: unat_plus64 u64)
  then have "unat (p + BLOCK_SZ - 1) = unat p + 65535" by (simp add: unat_minus64 word_le_unat)
  then have q: "unat ((p + BLOCK_SZ - 1) div BLOCK_SZ) = (unat p + 65535) div 65536"
    by (simp add: unat_div u64)
  moreover have "(unat p + 65535) div 65536 < 4294967296" using assms by simp
  ultimately show ?thesis by (simp add: vec_blocks_def unsigned_ucast_eq take_bit_eq_mod)
qed

lemma vec_submit_window_ok:
  assumes laws: "uring_laws ur view" "submits_all ur view"
    and mem: "memalign_law px files mem live" "alloc_succeeds px"
    and inv: "vec_inv view live L0 inp B0 ws st" and p: "unat p \<le> 8388608"
  shows "\<exists>st'. vec_submit_window ur px inp out off p st = (Inr (), st') \<and>
    vec_inv view live L0 inp B0 (ws @ [(out, unat off, unat p)]) st' \<and>
    ctx_bytes (vs_ctxs st') = ctx_bytes (vs_ctxs st) + p \<and>
    card (dom (vs_ctxs st')) = Suc (card (dom (vs_ctxs st)))"
proof -
  have i: "trace_ok inp B0 ws (live (vs_mem st)) (view (vs_ring st))"
    "ctx_ok (in_flight view (vs_ring st)) (vs_ctxs st) (vs_next st)"
    "mem_ok live L0 (vs_mem st) (vs_ctxs st)" using inv by (simp_all add: vec_inv_def)
  have v: "rv_entries (view (vs_ring st)) = 1024" "length (rv_pending (view (vs_ring st))) \<le> 1024"
    "link_pairs (rv_pending (view (vs_ring st)))" using i(1) by (simp_all add: trace_ok_def)
  from ctx_blocks_ok [OF mem, of "unat (vec_blocks p)" p "vs_mem st"] obtain vs ps m' where
    b: "ctx_blocks px (unat (vec_blocks p)) p (vs_mem st) = (Inr (vs, ps), m')"
      and bases: "ps = map iov_base vs"
      and b': "distinct ps" "set ps \<inter> live (vs_mem st) = {}" "live m' = live (vs_mem st) \<union> set ps"
      "iov_total vs = min (unat p) (unat (vec_blocks p) * 65536)" by blast
  have total: "iov_total vs = unat p" using b'(4) unat_vec_blocks [OF p] by simp
  let ?q = "vs_next st" and ?c = "\<lparr>rc_iovecs = vs, rc_raw_pointers = ps, rc_bytes = p\<rparr>"
  let ?e = "\<lparr>sq_op = Op_readv inp vs off, sq_link = True, sq_data = None\<rparr>"
  let ?f = "\<lparr>sq_op = Op_writev out vs off, sq_link = False, sq_data = Some ?q\<rparr>"
  from push_pair [OF laws v, of ?e ?f] obtain r1 r2 where r:
    "push_or_submit ur ?e (vs_ring st) = (Inr (), r1)" "push_or_submit ur ?f r1 = (Inr (), r2)"
    "view r2 = view_push [?e, ?f] (if length (rv_pending (view (vs_ring st))) < 1024
       then view (vs_ring st) else view_submit 1024 (view (vs_ring st)))" .
  let ?st = "st\<lparr>vs_mem := m', vs_next := Suc ?q, vs_ctxs := (vs_ctxs st)(?q \<mapsto> ?c), vs_ring := r2\<rparr>"
  have "vec_submit_window ur px inp out off p st = (Inr (), ?st)"
    using b(1) r(1,2) by (simp add: vec_submit_window_def new_RequestContext_def Let_def)
  moreover have "vec_pair inp (out, unat off, unat p) [?e, ?f]" by (simp add: vec_pair_def total)
  then have "trace_ok inp B0 (ws @ [(out, unat off, unat p)]) (live m') (view r2)"
    unfolding b'(3) by (rule trace_ok_pair [OF i(1) _ _ b'(1,2) r(3)]) (simp add: pair_iov_def bases)
  moreover have "in_flight view r2 = in_flight view (vs_ring st) + {#None, Some ?q#}"
    using v(2) by (simp add: in_flight_def r(3))
  then have "ctx_ok (in_flight view r2) ((vs_ctxs st)(?q \<mapsto> ?c)) (Suc ?q)"
    using ctx_ok_new [OF i(2)] by simp
  moreover have "mem_ok live L0 m' ((vs_ctxs st)(?q \<mapsto> ?c))"
    using b' by (intro mem_ok_new [OF i(3) ctx_ok_fresh [OF i(2)]]) simp_all
  moreover have "ctx_bytes ((vs_ctxs st)(?q \<mapsto> ?c)) = ctx_bytes (vs_ctxs st) + p \<and>
      card (dom ((vs_ctxs st)(?q \<mapsto> ?c))) = Suc (card (dom (vs_ctxs st)))"
    using ctx_bytes_new [of "vs_ctxs st" ?q ?c] i(2) ctx_ok_fresh [OF i(2)] by (simp add: ctx_ok_def)
  ultimately show ?thesis by (intro exI [of _ ?st]) (simp add: vec_inv_def)
qed

abbreviation file_windows :: "c_int \<Rightarrow> nat \<Rightarrow> nat \<Rightarrow> (c_int \<times> nat \<times> nat) list" where
  "file_windows out sz t \<equiv> map (\<lambda>(q, l). (out, q, l)) (plan 8388608 sz t)"

lemma vec_submit_loop_ok:
  assumes laws: "uring_laws ur view" "submits_all ur view"
    and mem: "memalign_law px files mem live" "alloc_succeeds px"
  shows "unat t \<le> unat sz \<Longrightarrow> vec_inv view live L0 inp B0 ws st \<Longrightarrow>
    \<exists>st'. vec_submit_loop ur px inp out 0 sz t st = (Inr sz, st') \<and>
      vec_inv view live L0 inp B0 (ws @ file_windows out (unat sz) (unat t)) st' \<and>
      ctx_bytes (vs_ctxs st') = ctx_bytes (vs_ctxs st) + (sz - t) \<and>
      card (dom (vs_ctxs st')) = card (dom (vs_ctxs st)) + length (plan 8388608 (unat sz) (unat t))"
proof (induction "unat (sz - t)" arbitrary: t ws st rule: less_induct)
  case less
  show ?case
  proof (cases "t < sz")
    case False
    with less.prems(1) have "t = sz" by (simp add: word_less_unat word_unat_eq_iff)
    with less.prems(2) show ?thesis by (subst vec_submit_loop.simps) simp
  next
    case True
    let ?p = "vec_window sz t"
    have lt: "unat t < unat sz" using True by (simp add: word_less_unat)
    from vec_submit_window_ok [OF laws mem less.prems(2) vw.step_le [OF lt], of out "0 + t"] obtain st1 where
      st1: "vec_submit_window ur px inp out (0 + t) ?p st = (Inr (), st1)"
        "vec_inv view live L0 inp B0 (ws @ [(out, unat t, unat ?p)]) st1"
        "ctx_bytes (vs_ctxs st1) = ctx_bytes (vs_ctxs st) + ?p"
        "card (dom (vs_ctxs st1)) = Suc (card (dom (vs_ctxs st)))" by auto
    have step: "vec_submit_loop ur px inp out 0 sz t st = vec_submit_loop ur px inp out 0 sz (t + ?p) st1"
      using True st1(1) by (subst vec_submit_loop.simps) (simp add: Let_def)
    have bytes: "ctx_bytes (vs_ctxs st) + ?p + (sz - (t + ?p)) = ctx_bytes (vs_ctxs st) + (sz - t)"
      by simp
    from less.hyps [OF vec_progress [OF True] vw.advance_le [OF lt] st1(2)]
    show ?thesis unfolding step st1(3,4) bytes by (simp add: vw.plan_unfold [OF lt])
  qed
qed

lemma vec_inv_submit:
  assumes laws: "uring_laws ur view" "submits_all ur view"
    and inv: "vec_inv view live L0 inp B0 ws st" and s: "ur_submit ur (vs_ring st) = (r, r1)"
  shows "vec_inv view live L0 inp B0 ws (st\<lparr>vs_ring := r1\<rparr>)" and "rv_pending (view r1) = []"
proof -
  let ?v = "view (vs_ring st)"
  have v1: "view r1 = view_submit (length (rv_pending ?v)) ?v" by (rule submits_allD(1) [OF laws s])
  then show "rv_pending (view r1) = []" by simp
  have "in_flight view r1 = in_flight view (vs_ring st)" by (simp add: in_flight_def v1)
  moreover have "trace_ok inp B0 ws (live (vs_mem st)) (view r1)"
  proof -
    from inv obtain bs prs where tr: "rv_batches ?v = B0 @ bs" "\<forall>b \<in> set bs. link_pairs b"
      "concat bs @ rv_pending ?v = concat prs" "list_all2 (vec_pair inp) ws prs"
      "distinct (trace_bases prs)" "set (trace_bases prs) \<subseteq> live (vs_mem st)"
      "rv_entries ?v = 1024" "link_pairs (rv_pending ?v)"
      unfolding vec_inv_def trace_ok_def by blast
    then show ?thesis
      unfolding trace_ok_def
      by (intro conjI exI [of _ "bs @ [rv_pending ?v]"] exI [of _ prs]) (simp_all add: v1)
  qed
  ultimately show "vec_inv view live L0 inp B0 ws (st\<lparr>vs_ring := r1\<rparr>)"
    using inv by (simp add: vec_inv_def)
qed

lemma submit_readV_writeV_ok:
  assumes laws: "uring_laws ur view" "submits_all ur view"
    and mem: "memalign_law px files mem live" "alloc_succeeds px"
    and sz: "get_file_size fstat blk inp = sz"
    and inv: "vec_inv view live L0 inp B0 ws st" "rv_pending (view (vs_ring st)) = []"
  shows "\<exists>st'. submit_readV_writeV ur px fstat blk inp out 0 st = (Inr sz, st') \<and>
      vec_inv view live L0 inp B0 (ws @ file_windows out (unat sz) 0) st' \<and>
      rv_pending (view (vs_ring st')) = [] \<and>
      ctx_bytes (vs_ctxs st') = ctx_bytes (vs_ctxs st) + sz \<and>
      card (dom (vs_ctxs st')) = card (dom (vs_ctxs st)) + length (plan 8388608 (unat sz) 0)"
proof (cases "sz = 0")
  case True
  with inv show ?thesis by (simp add: submit_readV_writeV_def sz)
next
  case False
  from vec_submit_loop_ok [OF laws mem _ inv(1), of 0 sz out] obtain st1 where
    st1: "vec_submit_loop ur px inp out 0 sz 0 st = (Inr sz, st1)"
      "vec_inv view live L0 inp B0 (ws @ file_windows out (unat sz) 0) st1"
      "ctx_bytes (vs_ctxs st1) = ctx_bytes (vs_ctxs st) + sz"
      "card (dom (vs_ctxs st1)) = card (dom (vs_ctxs st)) + length (plan 8388608 (unat sz) 0)" by auto
  obtain k r1 where s: "ur_submit ur (vs_ring st1) = (k, r1)" by fastforce
  from False have "\<not> sz \<le> 0" by simp
  then have "submit_readV_writeV ur px fstat blk inp out 0 st = (Inr sz, st1\<lparr>vs_ring := r1\<rparr>)"
    using st1(1) s by (simp add: submit_readV_writeV_def sz)
  with vec_inv_submit [OF laws st1(2) s] st1(3,4) show ?thesis by simp
qed

lemma vec_submit_all_ok:
  assumes laws: "uring_laws ur view" "submits_all ur view"
    and mem: "memalign_law px files mem live" "alloc_succeeds px"
    and sz: "get_file_size fstat blk inp = sz"
  shows "vec_inv view live L0 inp B0 ws st \<Longrightarrow> rv_pending (view (vs_ring st)) = [] \<Longrightarrow>
    \<exists>st'. vec_submit_all ur px fstat blk inp outs st = (Inr (), st') \<and>
      vec_inv view live L0 inp B0 (ws @ concat (map (\<lambda>out. file_windows out (unat sz) 0) outs)) st' \<and>
      rv_pending (view (vs_ring st')) = [] \<and>
      ctx_bytes (vs_ctxs st') = ctx_bytes (vs_ctxs st) + of_nat (length outs) * sz \<and>
      card (dom (vs_ctxs st')) = card (dom (vs_ctxs st)) + length outs * length (plan 8388608 (unat sz) 0)"
proof (induction outs arbitrary: ws st)
  case Nil
  then show ?case by simp
next
  case (Cons out outs)
  from submit_readV_writeV_ok [OF laws mem sz Cons.prems, of out] obtain st1 where
    st1: "submit_readV_writeV ur px fstat blk inp out 0 st = (Inr sz, st1)"
      "vec_inv view live L0 inp B0 (ws @ file_windows out (unat sz) 0) st1"
      "rv_pending (view (vs_ring st1)) = []"
      "ctx_bytes (vs_ctxs st1) = ctx_bytes (vs_ctxs st) + sz"
      "card (dom (vs_ctxs st1)) = card (dom (vs_ctxs st)) + length (plan 8388608 (unat sz) 0)" by blast
  from Cons.IH [OF st1(2,3)] show ?case
    using st1(1,4,5) by (simp add: algebra_simps)
qed

section \<open>Reaping everything\<close>

lemma ctx_ok_read: "ctx_ok (add_mset None D) C n \<Longrightarrow> ctx_ok D C n"
  by (simp add: ctx_ok_def)

lemma ctx_ok_delete: "ctx_ok (add_mset (Some p) D) C n \<Longrightarrow> ctx_ok D (C(p := None)) n"
proof -
  assume a: "ctx_ok (add_mset (Some p) D) C n"
  have c: "count (add_mset (Some p) D) (Some q) = (if C q = None then 0 else 1)" for q
    using a by (simp add: ctx_ok_def)
  have "count D (Some q) = (if (C(p := None)) q = None then 0 else 1)" for q
    using c [of q] c [of p] by (cases "q = p") (simp_all split: if_splits)
  moreover have "finite (dom (C(p := None)))" "\<forall>q. (C(p := None)) q \<noteq> None \<longrightarrow> q < n"
    using a by (simp_all add: ctx_ok_def)
  ultimately show ?thesis unfolding ctx_ok_def by blast
qed

lemma vec_reap_ok:
  assumes laws: "uring_laws ur view" "waits_succeed ur"
    and mem: "free_law px files live" and N: "N = unat total_expected"
  shows "rv_pending (view (vs_ring st)) = [] \<Longrightarrow>
    ctx_ok (rv_outstanding (view (vs_ring st))) (vs_ctxs st) (vs_next st) \<Longrightarrow>
    mem_ok live L0 (vs_mem st) (vs_ctxs st) \<Longrightarrow> unat completed + card (dom (vs_ctxs st)) = N \<Longrightarrow>
    \<exists>n st'. vec_reap ur px total_expected completed out_sum st = Some (Inr n, st') \<and>
      (requests_succeed ur \<longrightarrow> n = out_sum + ctx_bytes (vs_ctxs st)) \<and>
      vs_ctxs st' = Map.empty \<and> live (vs_mem st') = L0 \<and>
      rv_batches (view (vs_ring st')) = rv_batches (view (vs_ring st)) \<and>
      (\<forall>p. Some p \<notin># rv_outstanding (view (vs_ring st')))"
proof (induction "size (rv_outstanding (view (vs_ring st)))" arbitrary: st completed out_sum rule: less_induct)
  case less
  let ?C = "vs_ctxs st" and ?D = "rv_outstanding (view (vs_ring st))"
  have fin: "finite (dom ?C)" using less.prems(2) by (simp add: ctx_ok_def)
  show ?case
  proof (cases "completed < total_expected")
    case False
    then have "card (dom ?C) = 0" using less.prems(4) N by (simp add: word_less_unat)
    then have "?C = Map.empty" using fin by simp
    moreover have "Some p \<notin># ?D" for p
      using less.prems(2) calculation by (auto simp: ctx_ok_def not_in_iff)
    ultimately show ?thesis using False less.prems(3)
      by (subst vec_reap.simps) (simp add: ctx_bytes_def mem_ok_def)
  next
    case True
    then have "0 < card (dom ?C)" using less.prems(4) N by (simp add: word_less_unat)
    then obtain p where "p \<in> dom ?C" by (metis all_not_in_conv card.empty less_numeral_extra(3))
    then have "count ?D (Some p) = 1" using less.prems(2) by (auto simp: ctx_ok_def)
    then have "?D \<noteq> {#}" by auto
    from wait_succeeds [OF laws(1,2) this] obtain c r where
      c: "ur_wait_cqe ur (vs_ring st) = (Some (Inr c), r)" "view r = view (vs_ring st)"
        "cq_data c \<in># ?D" "view (ur_cqe_seen ur c r) = view_consume {#cq_data c#} (view (vs_ring st))" by blast
    have D: "?D = add_mset (cq_data c) (?D - {#cq_data c#})" using c(3) by simp
    let ?r = "ur_cqe_seen ur c r"
    have v: "rv_pending (view ?r) = []" "rv_outstanding (view ?r) = ?D - {#cq_data c#}"
      "rv_batches (view ?r) = rv_batches (view (vs_ring st))"
      using c(4) less.prems(1) by simp_all
    have smaller: "size (rv_outstanding (view ?r)) < size ?D"
      using c(3) by (simp add: v(2) size_Diff1_less)
    have res: "0 \<le> cq_res c" if "requests_succeed ur" using that c(1) by (metis requests_succeed_def fst_conv)
    show ?thesis
    proof (cases "cq_data c")
      case None
      let ?st = "st\<lparr>vs_ring := ?r\<rparr>"
      have step: "vec_reap ur px total_expected completed out_sum st = vec_reap ur px total_expected completed out_sum ?st"
        using True c(1) None by (subst vec_reap.simps) simp
      have "ctx_ok (?D - {#cq_data c#}) ?C (vs_next st)"
        using less.prems(2) D None ctx_ok_read by metis
      with less.hyps [of ?st completed out_sum] less.prems(3,4) v smaller
      show ?thesis unfolding step by simp
    next
      case (Some q)
      have "count ?D (Some q) \<noteq> 0" using c(3) Some by simp
      then obtain x where x: "?C q = Some x" using less.prems(2) by (auto simp: ctx_ok_def split: if_splits)
      let ?m = "free_all px (rc_raw_pointers x) (vs_mem st)"
      let ?st = "st\<lparr>vs_mem := ?m, vs_ctxs := ?C(q := None), vs_ring := ?r\<rparr>"
      let ?sum = "if cq_res c < 0 then out_sum else out_sum + rc_bytes x"
      have step: "vec_reap ur px total_expected completed out_sum st =
          vec_reap ur px total_expected (completed + 1) ?sum ?st"
        using True c(1) Some x by (subst vec_reap.simps) (simp add: delete_RequestContext_def)
      have counted: "?sum = out_sum + rc_bytes x" if "requests_succeed ur"
        using res [OF that] by simp
      have raw: "distinct (rc_raw_pointers x)" "set (rc_raw_pointers x) \<subseteq> live (vs_mem st)"
        using less.prems(3) x by (auto simp: mem_ok_def ran_def)
      have m: "mem_ok live L0 ?m (?C(q := None))"
        using free_all_live [OF mem raw] by (intro mem_ok_delete [OF less.prems(3) x]) simp
      have ctx: "ctx_ok (?D - {#cq_data c#}) (?C(q := None)) (vs_next st)"
        using less.prems(2) D Some ctx_ok_delete by metis
      note bytes = ctx_bytes_delete [OF fin x]
      have "unat (completed + 1) = Suc (unat completed)"
        using True unat_less64 [of total_expected] by (simp add: word_less_unat unat_plus64)
      then have cnt: "unat (completed + 1) + card (dom (?C(q := None))) = N"
        using less.prems(4) bytes by simp
      from less.hyps [of ?st "completed + 1" ?sum] smaller v m ctx cnt obtain n st' where
        "vec_reap ur px total_expected (completed + 1) ?sum ?st = Some (Inr n, st')"
        "requests_succeed ur \<longrightarrow> n = ?sum + ctx_bytes (?C(q := None))"
        "vs_ctxs st' = Map.empty" "live (vs_mem st') = L0"
        "rv_batches (view (vs_ring st')) = rv_batches (view (vs_ring st))"
        "\<forall>p. Some p \<notin># rv_outstanding (view (vs_ring st'))" by auto
      then show ?thesis unfolding step using bytes counted by (auto simp: add.assoc)
    qed
  qed
qed

section \<open>Properties\<close>

lemma unat_windows_per_file:
  assumes "unat sz < 9223372036854775808"
  shows "unat (windows_per_file sz) = length (plan 8388608 (unat sz) 0)"
proof -
  have "unat (sz + WINDOW_SIZE) = unat sz + 8388608" using assms by (simp add: unat_plus64 u64)
  then have "unat (sz + WINDOW_SIZE - 1) = unat sz + 8388607" by (simp add: unat_minus64 word_le_unat)
  then show ?thesis by (simp add: windows_per_file_def unat_div u64 plan_length)
qed

text \<open>
  The stages of the run, whatever the requests answer: the value is fixed by the sizes when none of
  them fails.
\<close>

lemma uring_broadcast_stages:
  assumes "uring_laws ur view" "init_succeeds ur" "submits_all ur view" "waits_succeed ur"
    and "memalign_law px files mem live" "free_law px files live" "alloc_succeeds px"
    and sz: "get_file_size fstat blk inp = sz" "0 \<le>s sz"
    and few: "length outs * length (plan 8388608 (unat sz) 0) < 18446744073709551616"
    and empty: "vs_ctxs st = Map.empty"
  obtains r r1 st1 st2 n bs prs where "ur_init ur 1024 (vs_ring st) = (r, r1)" "0 \<le> r"
    "vec_submit_all ur px fstat blk inp outs (st\<lparr>vs_ring := r1\<rparr>) = (Inr (), st1)"
    "vec_reap ur px (windows_per_file sz * of_nat (length outs)) 0 0 st1 = Some (Inr n, st2)"
    "perform_uring_broadcast ur px fstat blk inp outs st =
      Some (Inr n, st2\<lparr>vs_ring := ur_exit ur (vs_ring st2)\<rparr>)"
    "requests_succeed ur \<longrightarrow> n = of_nat (length outs) * sz"
    "vs_ctxs st2 = Map.empty" "live (vs_mem st2) = live (vs_mem st)"
    "rv_batches (view r1) = rv_batches (view (vs_ring st))"
    "rv_batches (view (vs_ring st2)) = rv_batches (view (vs_ring st)) @ bs"
    "\<forall>p. Some p \<notin># rv_outstanding (view (vs_ring st2))"
    "\<forall>b \<in> set bs. link_pairs b" "concat bs = concat prs"
    "list_all2 (vec_pair inp) (concat (map (\<lambda>out. file_windows out (unat sz) 0) outs)) prs"
    "distinct (trace_bases prs)"
proof -
  let ?B0 = "rv_batches (view (vs_ring st))" and ?L0 = "live (vs_mem st)"
  let ?ws = "concat (map (\<lambda>out. file_windows out (unat sz) 0) outs)"
  obtain r r1 where i: "ur_init ur 1024 (vs_ring st) = (r, r1)" "0 \<le> r"
    and idle: "ring_idle 1024 view r1" "rv_batches (view r1) = ?B0"
    using init_idle [OF assms(1,2), of 10] by auto
  have "trace_ok inp ?B0 [] ?L0 (view r1)"
    unfolding trace_ok_def using idle
    by (intro conjI exI [of _ "[]"]) (simp_all add: ring_idle_def)
  then have inv: "vec_inv view live ?L0 inp ?B0 [] (st\<lparr>vs_ring := r1\<rparr>)"
    "rv_pending (view (vs_ring (st\<lparr>vs_ring := r1\<rparr>))) = []"
    using idle empty mem_ok_empty by (simp_all add: vec_inv_def ctx_ok_def in_flight_def ring_idle_def)
  from vec_submit_all_ok [OF assms(1,3,5,7) sz(1) inv, of outs] obtain st1 where
    st1: "vec_submit_all ur px fstat blk inp outs (st\<lparr>vs_ring := r1\<rparr>) = (Inr (), st1)"
      "vec_inv view live ?L0 inp ?B0 ?ws st1" "rv_pending (view (vs_ring st1)) = []"
      "ctx_bytes (vs_ctxs st1) = of_nat (length outs) * sz"
      "card (dom (vs_ctxs st1)) = length outs * length (plan 8388608 (unat sz) 0)"
    using empty by (auto simp: ctx_bytes_def)
  have "unat sz < 9223372036854775808" using sz(2) by (simp add: nonneg_iff_unat64)
  then have "unat (windows_per_file sz * of_nat (length outs)) = length outs * length (plan 8388608 (unat sz) 0)"
    using few by (simp only: unat_word_ariths unat_windows_per_file unat_of_nat take_bit_eq_mod)
      (simp add: mod_mult_right_eq mult.commute)
  then have cnt: "unat (0 :: size_t) + card (dom (vs_ctxs st1)) =
      unat (windows_per_file sz * of_nat (length outs))" using st1(5) by simp
  have ok: "ctx_ok (rv_outstanding (view (vs_ring st1))) (vs_ctxs st1) (vs_next st1)"
    "mem_ok live ?L0 (vs_mem st1) (vs_ctxs st1)" "trace_ok inp ?B0 ?ws (live (vs_mem st1)) (view (vs_ring st1))"
    using st1(2,3) by (simp_all add: vec_inv_def in_flight_def)
  from vec_reap_ok [OF assms(1,4,6) refl st1(3) ok(1,2) cnt, of 0] obtain n st2 where
    st2: "vec_reap ur px (windows_per_file sz * of_nat (length outs)) 0 0 st1 = Some (Inr n, st2)"
      "requests_succeed ur \<longrightarrow> n = of_nat (length outs) * sz"
      "vs_ctxs st2 = Map.empty" "live (vs_mem st2) = ?L0"
      "rv_batches (view (vs_ring st2)) = rv_batches (view (vs_ring st1))"
      "\<forall>p. Some p \<notin># rv_outstanding (view (vs_ring st2))" using st1(4) by auto
  have "perform_uring_broadcast ur px fstat blk inp outs st =
      Some (Inr n, st2\<lparr>vs_ring := ur_exit ur (vs_ring st2)\<rparr>)"
    using i st1(1) st2(1) by (simp add: perform_uring_broadcast_def sz(1) Let_def)
  then show thesis
    using that [OF i st1(1) st2(1)] st2 ok(3) st1(3) idle(2) unfolding trace_ok_def by auto
qed

lemma uring_broadcast_runs:
  assumes "uring_laws ur view" "init_succeeds ur" "submits_all ur view" "waits_succeed ur"
    and "memalign_law px files mem live" "free_law px files live" "alloc_succeeds px"
    and sz: "get_file_size fstat blk inp = sz" "0 \<le>s sz"
    and few: "length outs * length (plan 8388608 (unat sz) 0) < 18446744073709551616"
    and empty: "vs_ctxs st = Map.empty"
  shows "\<exists>n st' bs prs. perform_uring_broadcast ur px fstat blk inp outs st = Some (Inr n, st') \<and>
    (requests_succeed ur \<longrightarrow> n = of_nat (length outs) * sz) \<and>
    vs_ctxs st' = Map.empty \<and> live (vs_mem st') = live (vs_mem st) \<and>
    rv_batches (view (vs_ring st')) = rv_batches (view (vs_ring st)) @ bs \<and>
    (\<forall>b \<in> set bs. link_pairs b) \<and> concat bs = concat prs \<and>
    list_all2 (vec_pair inp) (concat (map (\<lambda>out. file_windows out (unat sz) 0) outs)) prs \<and>
    distinct (trace_bases prs)"
proof -
  obtain st2 n bs prs where
    "perform_uring_broadcast ur px fstat blk inp outs st = Some (Inr n, st2\<lparr>vs_ring := ur_exit ur (vs_ring st2)\<rparr>)"
    "requests_succeed ur \<longrightarrow> n = of_nat (length outs) * sz"
    "vs_ctxs st2 = Map.empty" "live (vs_mem st2) = live (vs_mem st)"
    "rv_batches (view (vs_ring st2)) = rv_batches (view (vs_ring st)) @ bs"
    "\<forall>b \<in> set bs. link_pairs b" "concat bs = concat prs"
    "list_all2 (vec_pair inp) (concat (map (\<lambda>out. file_windows out (unat sz) 0) outs)) prs"
    "distinct (trace_bases prs)"
    by (rule uring_broadcast_stages [OF assms]) (rule that)
  then show ?thesis using exit_batches [OF assms(1)] by auto
qed

text \<open>
  The vectored broadcast is correct and leaks nothing. With a ring that behaves as
  documented, no failing request and succeeding allocations, starting with no contexts, the
  completion loop ends and the result is the number of outputs times the file size; every
  context has been deleted exactly once and every block freed, none used after it was
  freed; what was submitted is, for each output and each 8 MiB window in order, a read of the
  window linked to a write of the same buffers, and no submission splits such a pair.
\<close>

lemma uring_broadcast_correct:
  assumes "uring_laws ur view" "init_succeeds ur" "submits_all ur view" "waits_succeed ur"
      "requests_succeed ur"
    and "memalign_law px files mem live" "free_law px files live" "alloc_succeeds px"
    and "get_file_size fstat blk inp = sz" "0 \<le>s sz"
    and "length outs * length (plan 8388608 (unat sz) 0) < 18446744073709551616"
    and "vs_ctxs st = Map.empty"
  shows "\<exists>st' bs prs. perform_uring_broadcast ur px fstat blk inp outs st =
      Some (Inr (of_nat (length outs) * sz), st') \<and>
    vs_ctxs st' = Map.empty \<and> live (vs_mem st') = live (vs_mem st) \<and>
    rv_batches (view (vs_ring st')) = rv_batches (view (vs_ring st)) @ bs \<and>
    (\<forall>b \<in> set bs. link_pairs b) \<and> concat bs = concat prs \<and>
    list_all2 (vec_pair inp) (concat (map (\<lambda>out. file_windows out (unat sz) 0) outs)) prs"
  using uring_broadcast_runs [OF assms(1-4,6-)] assms(5) by blast

text \<open>
  C22: the vectored broadcast ends and gives everything back even when requests fail. Whatever
  the kernel answers to each request, and in whatever order, the completion loop ends, every
  context is deleted exactly once, none is used after that, and every block is freed.
\<close>

theorem uring_broadcast_terminates:
  assumes "uring_laws ur view" "init_succeeds ur" "submits_all ur view" "waits_succeed ur"
    and "memalign_law px files mem live" "free_law px files live" "alloc_succeeds px"
    and "get_file_size fstat blk inp = sz" "0 \<le>s sz"
    and "length outs * length (plan 8388608 (unat sz) 0) < 18446744073709551616"
    and "vs_ctxs st = Map.empty"
  shows "\<exists>n st'. perform_uring_broadcast ur px fstat blk inp outs st = Some (Inr n, st') \<and>
    vs_ctxs st' = Map.empty \<and> live (vs_mem st') = live (vs_mem st)"
  using uring_broadcast_runs [OF assms] by blast

definition vec_demo :: "((ptr option) sim, mem_state) vec_state" where
  "vec_demo = \<lparr>vs_ring = sim_start, vs_mem = demo_os, vs_ctxs = Map.empty, vs_next = 0\<rparr>"

lemma uring_broadcast_correct_witness:
  "\<exists>st'. perform_uring_broadcast (sim_uring (\<lambda>e. 1)) mem_os (fixed_fstat 10000000) Map.empty 3 [5, 6]
      vec_demo = Some (Inr 20000000, st') \<and> mem_live (vs_mem st') = {} \<and>
    length (sim_submitted (vs_ring st')) = 8"
proof -
  have p: "plan 8388608 10000000 0 = [(0, 8388608), (8388608, 1611392)]" by (simp add: plan_step)
  have ok: "requests_succeed (sim_uring (\<lambda>e :: (ptr option) sqe. 1))" by (rule sim_requests_succeed) simp
  have sz: "(0 :: off_t) \<le>s 10000000" by code_simp
  have laws: "memalign_law mem_os ms_files ms_mem mem_live" "free_law mem_os ms_files mem_live"
    using mem_os_laws [of UNIV] by (simp_all add: posix_laws_def)
  have few: "length [5, 6 :: c_int] * length (plan 8388608 (unat (10000000 :: off_t)) 0) < 18446744073709551616"
    by (simp add: p)
  have c: "vs_ctxs vec_demo = Map.empty" by (simp add: vec_demo_def)
  from uring_broadcast_correct [OF sim_uring_laws sim_uring_ok ok laws mem_os_alloc fixed_fstat_size sz few c,
      of Map.empty 3]
  obtain st' bs prs where r: "perform_uring_broadcast (sim_uring (\<lambda>e. 1)) mem_os (fixed_fstat 10000000) Map.empty 3
      [5, 6] vec_demo = Some (Inr 20000000, st')"
    "mem_live (vs_mem st') = {}" "sim_batches (vs_ring st') = bs" "concat bs = concat prs"
    "list_all2 (vec_pair 3) [(5, 0, 8388608), (5, 8388608, 1611392), (6, 0, 8388608), (6, 8388608, 1611392)] prs"
    by (auto simp: p sim_view_def vec_demo_def sim_start_def demo_os_def)
  have "length (concat prs) = 8" using r(5) by (auto simp: list_all2_Cons1 vec_pair_def)
  with r show ?thesis by auto
qed

text \<open>A ring on which every request fails.\<close>

theorem uring_broadcast_terminates_witness:
  "\<exists>n st'. perform_uring_broadcast (sim_uring (\<lambda>e. -5)) mem_os (fixed_fstat 10000000) Map.empty 3 [5, 6]
      vec_demo = Some (Inr n, st') \<and> vs_ctxs st' = Map.empty \<and> mem_live (vs_mem st') = {}"
proof -
  have p: "length (plan 8388608 10000000 0) = 2" by (simp add: plan_step)
  have sz: "(0 :: off_t) \<le>s 10000000" by code_simp
  have laws: "memalign_law mem_os ms_files ms_mem mem_live" "free_law mem_os ms_files mem_live"
    using mem_os_laws [of UNIV] by (simp_all add: posix_laws_def)
  have few: "length [5, 6 :: c_int] * length (plan 8388608 (unat (10000000 :: off_t)) 0) < 18446744073709551616"
    by (simp add: p)
  have c: "vs_ctxs vec_demo = Map.empty" "mem_live (vs_mem vec_demo) = {}"
    by (simp_all add: vec_demo_def demo_os_def)
  from uring_broadcast_terminates [OF sim_uring_laws sim_uring_ok laws mem_os_alloc fixed_fstat_size sz few c(1)]
  show ?thesis unfolding c(2) by blast
qed

text \<open>
  \<open>windows_per_file\<close> counts the windows of every file of known size, and is 0 when the
  size is unknown: -1 becomes \<open>2 ^ 64 - 1\<close>, passes the \<open>file_sz <= 0\<close> check of the submission
  loop, and wraps around in the rounding up, so no completion would be waited for.
\<close>

lemma windows_per_file_counts:
  "(0 \<le>s sz \<longrightarrow> unat (windows_per_file sz) = length (plan 8388608 (unat sz) 0)) \<and>
   windows_per_file (-1) = 0 \<and> \<not> (-1 :: size_t) \<le> 0"
proof -
  have "windows_per_file (-1) = 0"
    by (simp add: windows_per_file_def unfolds word_unat_eq_iff unat_div)
  then show ?thesis by (simp add: unat_windows_per_file nonneg_iff_unat64)
qed

lemma windows_per_file_counts_witness:
  "unat (windows_per_file 10000000) = length (plan 8388608 10000000 0)"
proof -
  have "(0 :: size_t) \<le>s 10000000" by code_simp
  with windows_per_file_counts [of 10000000] show ?thesis by simp
qed

end
