(* ===== verification/Uring_Exec.thy ===== *)
theory Uring_Exec
  imports Uring Chunking
begin

text \<open>
  What the kernel does with the requests of a ring. The effect of a request on files, pipes
  and buffers is the kernel's: a parameter \<open>exec\<close> over an abstract state, read through
  \<open>look\<close>, with its documented behaviour as the law \<open>exec_law\<close>. Its order is the kernel's too,
  and documented only for linked requests: each chain of links runs in order, one request
  after the other, and chains run side by side. \<open>kernel_step\<close> is one request of any of the
  chains in flight; a property of the files after a run is stated for every such run.
\<close>

section \<open>Chains\<close>

text \<open>A submission is cut after each request that is not linked to the next one.\<close>

fun link_chains :: "'d sqe list \<Rightarrow> 'd sqe list list" where
  "link_chains [] = []"
| "link_chains (e # es) =
     (if sq_link e then (case link_chains es of [] \<Rightarrow> [[e]] | c # cs \<Rightarrow> (e # c) # cs)
      else [e] # link_chains es)"

definition linked_chain :: "'d sqe list \<Rightarrow> bool" where
  "linked_chain c \<longleftrightarrow> c \<noteq> [] \<and> (\<forall>e \<in> set (butlast c). sq_link e) \<and> \<not> sq_link (last c)"

lemma chains_linked_append: "linked_chain c \<Longrightarrow> link_chains (c @ es) = c # link_chains es"
proof (induction c)
  case (Cons e c)
  show ?case
  proof (cases "c = []")
    case False
    with Cons.prems have "linked_chain c" "sq_link e" by (simp_all add: linked_chain_def)
    with Cons.IH show ?thesis by simp
  qed (use Cons.prems in \<open>simp add: linked_chain_def\<close>)
qed (simp add: linked_chain_def)

lemma chains_concat: "\<forall>c \<in> set cs. linked_chain c \<Longrightarrow> link_chains (concat cs) = cs"
  by (induction cs) (simp_all add: chains_linked_append)

section \<open>Effects\<close>

text \<open>
  Files by descriptor, pipes by number with the oldest byte first, buffers by address.
  \<open>pipe_of\<close> says which pipe, if any, a descriptor is an end of.
\<close>

record world =
  wd_files :: "c_int \<Rightarrow> byte list"
  wd_pipes :: "nat \<Rightarrow> byte list"
  wd_mem :: "ptr \<Rightarrow> byte list"

type_synonym pipe_ends = "c_int \<Rightarrow> nat option"

text \<open>The bytes of a file from an offset on, \<open>n\<close> at most.\<close>

definition piece :: "nat \<Rightarrow> nat \<Rightarrow> byte list \<Rightarrow> byte list" where
  "piece off n bs = take n (drop off bs)"

definition file_write :: "c_int \<Rightarrow> nat \<Rightarrow> byte list \<Rightarrow> world \<Rightarrow> world" where
  "file_write fd off d w = w\<lparr>wd_files := (wd_files w)(fd := write_at (wd_files w fd) off d)\<rparr>"

definition pipe_put :: "nat \<Rightarrow> byte list \<Rightarrow> world \<Rightarrow> world" where
  "pipe_put p d w = w\<lparr>wd_pipes := (wd_pipes w)(p := wd_pipes w p @ d)\<rparr>"

definition pipe_drop :: "nat \<Rightarrow> nat \<Rightarrow> world \<Rightarrow> world" where
  "pipe_drop p n w = w\<lparr>wd_pipes := (wd_pipes w)(p := drop n (wd_pipes w p))\<rparr>"

definition mem_scatter :: "byte list \<Rightarrow> iovec list \<Rightarrow> world \<Rightarrow> world" where
  "mem_scatter d vs w = w\<lparr>wd_mem := scatter d vs (wd_mem w)\<rparr>"

text \<open>
  The effect of a request that moves all it can: a read all the file has, a splice from a
  pipe all the pipe holds, up to the count asked for; \<open>tee\<close> copies without consuming.
\<close>

fun effect :: "pipe_ends \<Rightarrow> uring_op \<Rightarrow> world \<Rightarrow> world" where
  "effect pipe_of (Op_readv fd vs off) w =
     mem_scatter (piece (unat off) (iov_total vs) (wd_files w fd)) vs w"
| "effect pipe_of (Op_writev fd vs off) w = file_write fd (unat off) (gather (wd_mem w) vs) w"
| "effect pipe_of (Op_read fd p n off) w =
     mem_scatter (piece (unat off) (unat n) (wd_files w fd)) [\<lparr>iov_base = p, iov_len = ucast n\<rparr>] w"
| "effect pipe_of (Op_write fd p n off) w =
     file_write fd (unat off) (gather (wd_mem w) [\<lparr>iov_base = p, iov_len = ucast n\<rparr>]) w"
| "effect pipe_of (Op_splice i off_in out off_out n flags) w =
     (case (pipe_of i, pipe_of out) of
        (None, Some q) \<Rightarrow> pipe_put q (piece (unat off_in) (unat n) (wd_files w i)) w
      | (Some p, None) \<Rightarrow>
          pipe_drop p (unat n) (file_write out (unat off_out) (take (unat n) (wd_pipes w p)) w)
      | (Some p, Some q) \<Rightarrow> pipe_drop p (unat n) (pipe_put q (take (unat n) (wd_pipes w p)) w)
      | (None, None) \<Rightarrow> w)"
| "effect pipe_of (Op_tee i out n flags) w =
     (case (pipe_of i, pipe_of out) of
        (Some p, Some q) \<Rightarrow> pipe_put q (take (unat n) (wd_pipes w p)) w
      | _ \<Rightarrow> w)"

text \<open>
  When a request can move all it asks for: a pipe read from holds that much, a pipe written
  to has room for it.
\<close>

fun unhindered :: "pipe_ends \<Rightarrow> nat \<Rightarrow> uring_op \<Rightarrow> world \<Rightarrow> bool" where
  "unhindered pipe_of cap (Op_splice i off_in out off_out n flags) w =
     (case (pipe_of i, pipe_of out) of
        (None, Some q) \<Rightarrow> length (wd_pipes w q) + unat n \<le> cap
      | (Some p, None) \<Rightarrow> unat n \<le> length (wd_pipes w p)
      | _ \<Rightarrow> False)"
| "unhindered pipe_of cap (Op_tee i out n flags) w =
     (case (pipe_of i, pipe_of out) of
        (Some p, Some q) \<Rightarrow> p \<noteq> q \<and> unat n \<le> length (wd_pipes w p) \<and> length (wd_pipes w q) + unat n \<le> cap
      | _ \<Rightarrow> False)"
| "unhindered pipe_of cap op w = True"

text \<open>
  The assumption on the kernel: a request that nothing hinders has its full effect (the
  counterpart of \<open>transfers_complete\<close> for system calls).
\<close>

definition exec_law :: "(uring_op \<Rightarrow> 'w \<Rightarrow> 'w) \<Rightarrow> ('w \<Rightarrow> world) \<Rightarrow> pipe_ends \<Rightarrow> nat \<Rightarrow> bool" where
  "exec_law exec look pipe_of cap \<longleftrightarrow>
     (\<forall>op w. unhindered pipe_of cap op (look w) \<longrightarrow> look (exec op w) = effect pipe_of op (look w))"

lemma exec_lawD:
  "exec_law exec look pipe_of cap \<Longrightarrow> unhindered pipe_of cap op (look w) \<Longrightarrow>
   look (exec op w) = effect pipe_of op (look w)"
  by (simp add: exec_law_def)

text \<open>The law holds of the kernel that does just this.\<close>

lemma effect_exec_law: "exec_law (effect pipe_of) (\<lambda>w. w) pipe_of cap"
  by (simp add: exec_law_def)

lemma file_write_simps [simp]:
  "wd_files (file_write fd off d w) = (wd_files w)(fd := write_at (wd_files w fd) off d)"
  "wd_pipes (file_write fd off d w) = wd_pipes w" "wd_mem (file_write fd off d w) = wd_mem w"
  by (simp_all add: file_write_def)

lemma pipe_put_simps [simp]:
  "wd_pipes (pipe_put p d w) = (wd_pipes w)(p := wd_pipes w p @ d)"
  "wd_files (pipe_put p d w) = wd_files w" "wd_mem (pipe_put p d w) = wd_mem w"
  by (simp_all add: pipe_put_def)

lemma pipe_drop_simps [simp]:
  "wd_pipes (pipe_drop p n w) = (wd_pipes w)(p := drop n (wd_pipes w p))"
  "wd_files (pipe_drop p n w) = wd_files w" "wd_mem (pipe_drop p n w) = wd_mem w"
  by (simp_all add: pipe_drop_def)

lemma mem_scatter_simps [simp]:
  "wd_mem (mem_scatter d vs w) = scatter d vs (wd_mem w)"
  "wd_files (mem_scatter d vs w) = wd_files w" "wd_pipes (mem_scatter d vs w) = wd_pipes w"
  by (simp_all add: mem_scatter_def)

section \<open>Slices\<close>

lemma length_piece: "off + n \<le> length bs \<Longrightarrow> length (piece off n bs) = n"
  by (simp add: piece_def)

text \<open>A write fills its own piece and leaves one it does not overlap alone.\<close>

lemma piece_write_same: "d \<noteq> [] \<Longrightarrow> piece q (length d) (write_at bs q d) = d"
  by (simp add: piece_def write_at_def)

lemma piece_write_other:
  assumes "q + l \<le> length bs" "q + l \<le> q' \<or> q' + length d \<le> q"
  shows "piece q l (write_at bs q' d) = piece q l bs"
proof (rule nth_equalityI)
  have n: "q + l \<le> length (write_at bs q' d)"
    using assms(1) by (cases "d = []") (simp_all add: length_write_at)
  then show "length (piece q l (write_at bs q' d)) = length (piece q l bs)"
    using assms(1) by (simp add: piece_def)
  fix k assume "k < length (piece q l (write_at bs q' d))"
  with n have k: "k < l" by (simp add: length_piece)
  then have "write_at bs q' d ! (q + k) = bs ! (q + k)"
    using assms by (auto simp: write_at_def nth_append)
  then show "piece q l (write_at bs q' d) ! k = piece q l bs ! k"
    using k assms(1) n by (simp add: piece_def)
qed

text \<open>A file no longer than the source that agrees with it on every piece of a cutting is it.\<close>

lemma pieces_determine:
  "0 < C \<Longrightarrow> length bs \<le> length src \<Longrightarrow>
   (\<And>q l. (q, l) \<in> set (plan C (length src) t) \<Longrightarrow> piece q l bs = piece q l src) \<Longrightarrow>
   drop t bs = drop t src"
proof (induction C "length src" t rule: plan.induct)
  case (1 C t)
  show ?case
  proof (cases "t < length src")
    case True
    let ?c = "min C (length src - t)"
    have "piece t ?c bs = piece t ?c src" using "1.prems"(1,3) True by (simp add: plan_step)
    moreover have "drop (t + ?c) bs = drop (t + ?c) src"
      using 1 True by (intro "1.hyps") (simp_all add: plan_step)
    ultimately have "take ?c (drop t bs) @ drop (t + ?c) bs = take ?c (drop t src) @ drop (t + ?c) src"
      by (simp only: piece_def)
    moreover have "take ?c (drop t xs) @ drop (t + ?c) xs = drop t xs" for xs :: "byte list"
      using append_take_drop_id [of ?c "drop t xs"] by (simp only: drop_drop add.commute)
    ultimately show ?thesis by (simp only:)
  next
    case False
    with "1.prems"(2) show ?thesis by simp
  qed
qed

lemma pieces_determine_file:
  assumes "0 < C" "length bs \<le> length src"
    and "\<And>q l. (q, l) \<in> set (plan C (length src) 0) \<Longrightarrow> piece q l bs = piece q l src"
  shows "bs = src"
  using pieces_determine [of C bs src 0] assms by simp

section \<open>Copies under way\<close>

text \<open>The files when the first \<open>t\<close> bytes of the input have been copied to every output.\<close>

definition copied :: "c_int \<Rightarrow> c_int list \<Rightarrow> byte list \<Rightarrow> (c_int \<Rightarrow> byte list) \<Rightarrow> nat \<Rightarrow> world \<Rightarrow> bool" where
  "copied src outs bytes files0 t w \<longleftrightarrow>
     wd_files w src = bytes \<and>
     (\<forall>g. wd_files w g = (if g \<in> set outs then take t bytes @ drop t (files0 g) else files0 g))"

lemma copied_src: "copied src outs bytes files0 t w \<Longrightarrow> wd_files w src = bytes"
  unfolding copied_def by (rule conjunct1)

lemma copied_start: "wd_files w src = bytes \<Longrightarrow> copied src outs bytes (wd_files w) 0 w"
  by (simp add: copied_def)

lemma copied_advance:
  assumes c: "copied src outs bytes files0 t w" and src: "src \<notin> set outs" and l: "t + l \<le> length bytes"
    and w': "\<And>g. wd_files w' g =
      (if g \<in> set outs then write_at (wd_files w g) t (piece t l bytes) else wd_files w g)"
  shows "copied src outs bytes files0 (t + l) w'"
proof -
  have d: "length (piece t l bytes) = l" using l by (rule length_piece)
  have overlay: "write_at (take t bytes @ drop t old) t (piece t l bytes) =
      take (t + l) bytes @ drop (t + l) old" for old
    using write_at_overlay [of t "piece t l bytes" bytes old] l d by (simp add: piece_def)
  have "wd_files w' src = bytes" using copied_src [OF c] src w' by simp
  moreover have "wd_files w' g =
      (if g \<in> set outs then take (t + l) bytes @ drop (t + l) (files0 g) else files0 g)" for g
    using c by (simp add: copied_def w' overlay)
  ultimately show ?thesis unfolding copied_def by blast
qed

lemma copied_end:
  "copied src outs bytes files0 (length bytes) w \<Longrightarrow>
   (\<forall>out \<in> set outs. wd_files w out = bytes @ drop (length bytes) (files0 out)) \<and>
   (\<forall>g. g \<notin> set outs \<longrightarrow> wd_files w g = files0 g)"
  by (simp add: copied_def)

section \<open>Runs\<close>

text \<open>The chains in flight, each what is left of it, and the state.\<close>

inductive kernel_step :: "(uring_op \<Rightarrow> 'w \<Rightarrow> 'w) \<Rightarrow> 'd sqe list list \<times> 'w \<Rightarrow> 'd sqe list list \<times> 'w \<Rightarrow> bool"
  for exec where
  run_head: "i < length cs \<Longrightarrow> cs ! i = e # es \<Longrightarrow>
    kernel_step exec (cs, w) (cs[i := es], exec (sq_op e) w)"

inductive_cases kernel_stepE: "kernel_step exec (cs, w) s'"

definition all_run :: "'d sqe list list \<Rightarrow> bool" where
  "all_run cs \<longleftrightarrow> (\<forall>c \<in> set cs. c = [])"

text \<open>Every run ends, with everything run: each step takes one request off the chains.\<close>

lemma kernel_step_shrinks:
  "kernel_step exec s s' \<Longrightarrow> Suc (sum_list (map length (fst s'))) = sum_list (map length (fst s))"
proof (induction rule: kernel_step.induct)
  case (run_head i cs e es w)
  have "length (cs ! i) \<le> sum_list (map length cs)"
    using elem_le_sum_list [of i "map length cs"] run_head(1) by simp
  with run_head show ?case by (simp add: map_update sum_list_update)
qed

lemma kernel_stuck:
  assumes "\<And>s'. \<not> kernel_step exec (cs, w) s'"
  shows "all_run cs"
proof -
  have "cs ! i = []" if "i < length cs" for i
  proof (cases "cs ! i")
    case (Cons e es)
    from run_head [OF that this, of exec w] assms show ?thesis by blast
  qed
  then show ?thesis by (auto simp: all_run_def in_set_conv_nth)
qed

lemma kernel_run_exists:
  "\<exists>cs' w'. (kernel_step exec)\<^sup>*\<^sup>* (cs, w) (cs', w') \<and> all_run cs'"
proof (induction "sum_list (map length cs)" arbitrary: cs w rule: less_induct)
  case less
  show ?case
  proof (cases "\<exists>s'. kernel_step exec (cs, w) s'")
    case True
    then obtain cs1 w1 where s: "kernel_step exec (cs, w) (cs1, w1)" by (metis surj_pair)
    from kernel_step_shrinks [OF s] have "sum_list (map length cs1) < sum_list (map length cs)" by simp
    from less [OF this] obtain cs' w' where "(kernel_step exec)\<^sup>*\<^sup>* (cs1, w1) (cs', w')" "all_run cs'" by blast
    with s show ?thesis by (blast intro: converse_rtranclp_into_rtranclp)
  next
    case False
    then show ?thesis using kernel_stuck [of exec cs w] by blast
  qed
qed

text \<open>Running a single chain is running its requests in order.\<close>

fun run_all :: "(uring_op \<Rightarrow> 'w \<Rightarrow> 'w) \<Rightarrow> 'd sqe list \<Rightarrow> 'w \<Rightarrow> 'w" where
  "run_all exec [] w = w"
| "run_all exec (e # es) w = run_all exec es (exec (sq_op e) w)"

lemma run_all_append: "run_all exec (es @ fs) w = run_all exec fs (run_all exec es w)"
  by (induction es arbitrary: w) simp_all

lemma single_chain_steps:
  "(kernel_step exec)\<^sup>*\<^sup>* s s' \<Longrightarrow> fst s = [c] \<Longrightarrow>
   \<exists>c'. fst s' = [c'] \<and> run_all exec c' (snd s') = run_all exec c (snd s)"
proof (induction rule: rtranclp_induct)
  case (step s1 s2)
  then obtain c' where c': "fst s1 = [c']" "run_all exec c' (snd s1) = run_all exec c (snd s)" by blast
  obtain w1 where "s1 = ([c'], w1)" using c'(1) by (cases s1) simp
  with step.hyps(2) c'(2) show ?case by (auto elim!: kernel_stepE)
qed simp

lemma single_chain_run:
  assumes "(kernel_step exec)\<^sup>*\<^sup>* ([c], w) (cs, w')" "all_run cs"
  shows "w' = run_all exec c w"
  using single_chain_steps [OF assms(1), of c] assms(2) by (auto simp: all_run_def)

section \<open>Runs of a history of submissions\<close>

text \<open>
  What a program has submitted, as a history: each batch with a mark that says whether every
  earlier request had completed before it (\<open>rv_drained\<close>). The kernel takes the batches in
  order, a marked one only when nothing is in flight, and runs what is in flight meanwhile.
\<close>

type_synonym 'd history = "('d sqe list \<times> bool) list"

inductive ring_step :: "(uring_op \<Rightarrow> 'w \<Rightarrow> 'w) \<Rightarrow> 'd history \<times> 'd sqe list list \<times> 'w \<Rightarrow>
    'd history \<times> 'd sqe list list \<times> 'w \<Rightarrow> bool" for exec where
  ring_take: "(d \<longrightarrow> all_run cs) \<Longrightarrow> ring_step exec ((b, d) # h, cs, w) (h, cs @ link_chains b, w)"
| ring_run: "kernel_step exec (cs, w) (cs', w') \<Longrightarrow> ring_step exec (h, cs, w) (h, cs', w')"

inductive_cases ring_stepE: "ring_step exec (h, cs, w) s'"

definition runs_to :: "(uring_op \<Rightarrow> 'w \<Rightarrow> 'w) \<Rightarrow> 'd history \<Rightarrow> 'w \<Rightarrow> 'w \<Rightarrow> bool" where
  "runs_to exec h w w' \<longleftrightarrow> (\<exists>cs. (ring_step exec)\<^sup>*\<^sup>* (h, [], w) ([], cs, w') \<and> all_run cs)"

lemma ring_runs:
  "(kernel_step exec)\<^sup>*\<^sup>* s s' \<Longrightarrow> (ring_step exec)\<^sup>*\<^sup>* (h, fst s, snd s) (h, fst s', snd s')"
proof (induction rule: rtranclp_induct)
  case (step s1 s2)
  have "ring_step exec (h, fst s1, snd s1) (h, fst s2, snd s2)"
    by (rule ring_run) (use step.hyps(2) in simp)
  with step.IH show ?case by (rule rtranclp.rtrancl_into_rtrancl)
qed simp

text \<open>Every history can be run to its end.\<close>

lemma history_runs:
  "all_run cs \<Longrightarrow> \<exists>cs' w'. (ring_step exec)\<^sup>*\<^sup>* (h, cs, w) ([], cs', w') \<and> all_run cs'"
proof (induction h arbitrary: cs w)
  case Nil
  then show ?case by blast
next
  case (Cons bd h)
  obtain b d where bd: "bd = (b, d)" by (cases bd)
  have one: "ring_step exec (bd # h, cs, w) (h, cs @ link_chains b, w)"
    unfolding bd using Cons.prems by (simp add: ring_take)
  from kernel_run_exists [of exec "cs @ link_chains b" w] obtain cs1 w1 where
    k: "(kernel_step exec)\<^sup>*\<^sup>* (cs @ link_chains b, w) (cs1, w1)" "all_run cs1" by blast
  from Cons.IH [OF k(2), of w1] obtain cs' w' where
    rest: "(ring_step exec)\<^sup>*\<^sup>* (h, cs1, w1) ([], cs', w')" "all_run cs'" by blast
  have "(ring_step exec)\<^sup>*\<^sup>* (h, cs @ link_chains b, w) (h, cs1, w1)" using ring_runs [OF k(1), of h] by simp
  from rtranclp_trans [OF converse_rtranclp_into_rtranclp [OF one this] rest(1)] rest(2) show ?case by blast
qed

lemma runs_to_exists: "\<exists>w'. runs_to exec h w w'"
  using history_runs [of "[]" exec h w] by (auto simp: runs_to_def all_run_def)

text \<open>One run there always is: everything in the order it was submitted.\<close>

definition in_order :: "(uring_op \<Rightarrow> 'w \<Rightarrow> 'w) \<Rightarrow> 'd history \<Rightarrow> 'w \<Rightarrow> 'w" where
  "in_order exec h w = run_all exec (concat (map fst h)) w"

lemma concat_link_chains: "concat (link_chains es) = es"
  by (induction es) (auto split: list.splits)

lemma chain_in_order:
  "(kernel_step exec)\<^sup>*\<^sup>* (fin @ c # cs, w) (fin @ [] # cs, run_all exec c w)"
proof (induction c arbitrary: w)
  case (Cons e es)
  have "kernel_step exec (fin @ (e # es) # cs, w) (fin @ es # cs, exec (sq_op e) w)"
    using run_head [of "length fin" "fin @ (e # es) # cs" e es exec w] by simp
  with Cons.IH [of "exec (sq_op e) w"] show ?case by (simp add: converse_rtranclp_into_rtranclp)
qed simp

lemma chains_in_order:
  "(kernel_step exec)\<^sup>*\<^sup>* (fin @ cs, w) (fin @ map (\<lambda>c. []) cs, run_all exec (concat cs) w)"
proof (induction cs arbitrary: fin w)
  case (Cons c cs)
  have "(kernel_step exec)\<^sup>*\<^sup>* (fin @ [] # cs, run_all exec c w)
      (fin @ [] # map (\<lambda>c. []) cs, run_all exec (concat (c # cs)) w)"
    using Cons.IH [of "fin @ [[]]" "run_all exec c w"] by (simp add: run_all_append)
  with chain_in_order [of exec fin c cs w] show ?case by (simp only: list.map)
qed simp

lemma in_order_steps:
  "all_run cs \<Longrightarrow> \<exists>cs'. (ring_step exec)\<^sup>*\<^sup>* (h, cs, w) ([], cs', in_order exec h w) \<and> all_run cs'"
proof (induction h arbitrary: cs w)
  case (Cons bd h)
  obtain b d where bd: "bd = (b, d)" by (cases bd)
  let ?cs = "cs @ map (\<lambda>c. []) (link_chains b)"
  have one: "ring_step exec (bd # h, cs, w) (h, cs @ link_chains b, w)"
    unfolding bd using Cons.prems by (simp add: ring_take)
  have two: "(ring_step exec)\<^sup>*\<^sup>* (h, cs @ link_chains b, w) (h, ?cs, run_all exec b w)"
    using ring_runs [OF chains_in_order [of exec cs "link_chains b" w], of h] by (simp add: concat_link_chains)
  have "all_run ?cs" using Cons.prems by (auto simp: all_run_def)
  from Cons.IH [OF this, of "run_all exec b w"] obtain cs' where
    three: "(ring_step exec)\<^sup>*\<^sup>* (h, ?cs, run_all exec b w) ([], cs', in_order exec (bd # h) w)" "all_run cs'"
    by (auto simp: in_order_def bd run_all_append)
  from rtranclp_trans [OF converse_rtranclp_into_rtranclp [OF one two] three(1)] three(2) show ?case by blast
qed (auto simp: in_order_def)

lemma in_order_runs: "runs_to exec h w (in_order exec h w)"
  using in_order_steps [of "[]" exec h w] by (auto simp: runs_to_def all_run_def)

text \<open>A run of a history is a run of all its chains together.\<close>

lemma kernel_step_append:
  "kernel_step exec (cs, w) (cs', w') \<Longrightarrow> kernel_step exec (cs @ ds, w) (cs' @ ds, w')"
proof (erule kernel_stepE)
  fix i e es
  assume "(cs', w') = (cs[i := es], exec (sq_op e) w)" "i < length cs" "cs ! i = e # es"
  then show "kernel_step exec (cs @ ds, w) (cs' @ ds, w')"
    using run_head [of i "cs @ ds" e es exec w] by (simp add: nth_append list_update_append)
qed

lemma history_is_kernel_run:
  "(ring_step exec)\<^sup>*\<^sup>* s s' \<Longrightarrow>
   (kernel_step exec)\<^sup>*\<^sup>*
     (fst (snd s) @ concat (map (link_chains \<circ> fst) (fst s)), snd (snd s))
     (fst (snd s') @ concat (map (link_chains \<circ> fst) (fst s')), snd (snd s'))"
proof (induction rule: rtranclp_induct)
  case (step s1 s2)
  from step.hyps(2) have "(kernel_step exec)\<^sup>*\<^sup>*
     (fst (snd s1) @ concat (map (link_chains \<circ> fst) (fst s1)), snd (snd s1))
     (fst (snd s2) @ concat (map (link_chains \<circ> fst) (fst s2)), snd (snd s2))"
    by cases (auto dest: kernel_step_append)
  with step.IH show ?case by (rule rtranclp_trans)
qed simp

lemma runs_to_kernel_run:
  assumes "runs_to exec h w w'"
  obtains cs where "(kernel_step exec)\<^sup>*\<^sup>* (concat (map (link_chains \<circ> fst) h), w) (cs, w')" "all_run cs"
  using assms history_is_kernel_run [of exec "(h, [], w)"] unfolding runs_to_def by fastforce

text \<open>
  When every batch waits for the one before, a run is one run of the chains of each batch
  after the other.
\<close>

fun batch_runs :: "(uring_op \<Rightarrow> 'w \<Rightarrow> 'w) \<Rightarrow> 'd sqe list list \<Rightarrow> 'w \<Rightarrow> 'w \<Rightarrow> bool" where
  "batch_runs exec [] w w' \<longleftrightarrow> w' = w"
| "batch_runs exec (b # bs) w w' \<longleftrightarrow>
     (\<exists>cs w1. (kernel_step exec)\<^sup>*\<^sup>* (link_chains b, w) (cs, w1) \<and> all_run cs \<and> batch_runs exec bs w1 w')"

lemma kernel_step_beside:
  assumes "kernel_step exec (fin @ cs, w) (cs', w')" "all_run fin"
  obtains cs1 where "cs' = fin @ cs1" "kernel_step exec (cs, w) (cs1, w')"
proof -
  from assms(1) obtain i e es where i: "cs' = (fin @ cs)[i := es]" "w' = exec (sq_op e) w"
    "i < length (fin @ cs)" "(fin @ cs) ! i = e # es" by (auto elim!: kernel_stepE)
  have "\<not> i < length fin"
  proof
    assume "i < length fin"
    then have "e # es \<in> set fin" using i(4) nth_mem [of i fin] by (simp add: nth_append)
    then show False using assms(2) by (auto simp: all_run_def)
  qed
  then have k: "i - length fin < length cs" "cs ! (i - length fin) = e # es" "cs' = fin @ cs[i - length fin := es]"
    using i by (auto simp: nth_append list_update_append)
  with run_head [OF k(1,2), of exec w] i(2) that show thesis by simp
qed

lemma drained_steps:
  assumes "(ring_step exec)\<^sup>*\<^sup>* s ([], cs', w')" "all_run cs'"
  shows "\<forall>x \<in> set (fst s). snd x \<Longrightarrow> fst (snd s) = fin @ cs \<Longrightarrow> all_run fin \<Longrightarrow>
    \<exists>cs1 w1. (kernel_step exec)\<^sup>*\<^sup>* (cs, snd (snd s)) (cs1, w1) \<and> all_run cs1 \<and>
      batch_runs exec (map fst (fst s)) w1 w'"
  using assms(1)
proof (induction arbitrary: fin cs rule: converse_rtranclp_induct)
  case base
  then show ?case using assms(2) by (auto simp: all_run_def)
next
  case (step s1 s2)
  from step.hyps(1) show ?case
  proof cases
    case (ring_take d cs0 b h w)
    then have idle: "all_run cs" "all_run (fin @ cs)" using step.prems by (auto simp: all_run_def)
    have "\<exists>cs1 w1. (kernel_step exec)\<^sup>*\<^sup>* (link_chains b, snd (snd s2)) (cs1, w1) \<and> all_run cs1 \<and>
      batch_runs exec (map fst (fst s2)) w1 w'"
      by (rule step.IH [of "fin @ cs"]) (use ring_take step.prems idle in auto)
    with ring_take idle(1) show ?thesis by auto
  next
    case (ring_run cs0 w cs0' w1 h)
    then have "kernel_step exec (fin @ cs, w) (cs0', w1)" using step.prems(2) by simp
    then obtain cs1 where cs1: "cs0' = fin @ cs1" "kernel_step exec (cs, w) (cs1, w1)"
      using kernel_step_beside [OF _ step.prems(3)] by metis
    have "\<exists>cs2 w2. (kernel_step exec)\<^sup>*\<^sup>* (cs1, snd (snd s2)) (cs2, w2) \<and> all_run cs2 \<and>
      batch_runs exec (map fst (fst s2)) w2 w'"
      by (rule step.IH [of fin]) (use ring_run step.prems cs1 in auto)
    with ring_run cs1(2) show ?thesis by (auto intro: converse_rtranclp_into_rtranclp)
  qed
qed

lemma drained_runs:
  assumes "runs_to exec (map (\<lambda>b. (b, True)) bs) w w'"
  shows "batch_runs exec bs w w'"
proof -
  obtain cs where cs: "(ring_step exec)\<^sup>*\<^sup>* (map (\<lambda>b. (b, True)) bs, [], w) ([], cs, w')" "all_run cs"
    using assms by (auto simp: runs_to_def)
  have "s' = s" if "(kernel_step exec)\<^sup>*\<^sup>* s s'" "fst s = []" for s s' :: "'b sqe list list \<times> 'a"
    using that by (induction rule: rtranclp_induct) (auto elim!: kernel_step.cases)
  with drained_steps [OF cs, of "[]" "[]"] show ?thesis by (fastforce simp: all_run_def comp_def)
qed

text \<open>Batches that are one chain each run in the order their requests were prepared.\<close>

lemma drained_chains_run:
  assumes "runs_to exec (map (\<lambda>b. (b, True)) bs) w w'" "\<forall>b \<in> set bs. linked_chain b"
  shows "w' = run_all exec (concat bs) w"
proof -
  have "batch_runs exec bs w w' \<Longrightarrow> \<forall>b \<in> set bs. linked_chain b \<Longrightarrow> w' = run_all exec (concat bs) w"
    for bs :: "'b sqe list list" and w
  proof (induction bs arbitrary: w)
    case (Cons b bs)
    then have "link_chains b = [b]" using chains_linked_append [of b "[]"] by simp
    with Cons.prems(1) obtain cs w1 where "(kernel_step exec)\<^sup>*\<^sup>* ([b], w) (cs, w1)" "all_run cs"
      "batch_runs exec bs w1 w'" by auto
    then show ?case using single_chain_run [of exec b w cs w1] Cons by (simp add: run_all_append)
  qed simp
  then show ?thesis using drained_runs [OF assms(1)] assms(2) by blast
qed

end
