(* ===== verification/Uring_Vec_Run.thy ===== *)
theory Uring_Vec_Run
  imports Uring_Vec Uring_Exec
begin

text \<open>
  Mode 2 to the end: what the requests submitted by \<open>perform_uring_broadcast\<close> do to the files,
  in whatever order the kernel runs the linked pairs of all outputs and windows.
\<close>

section \<open>The windows\<close>

definition apart :: "c_int \<times> nat \<times> nat \<Rightarrow> c_int \<times> nat \<times> nat \<Rightarrow> bool" where
  "apart v w \<longleftrightarrow> (case (v, w) of ((out, q, l), (out', q', l')) \<Rightarrow> out \<noteq> out' \<or> q + l \<le> q' \<or> q' + l' \<le> q)"

lemma apart_sym: "apart v w \<Longrightarrow> apart w v"
  by (auto simp: apart_def split: prod.splits)

lemma plan_apart: "sorted_wrt (\<lambda>(q, l) (q', l'). q + l \<le> q') (plan C sz t)"
proof (induction C sz t rule: plan.induct)
  case (1 C sz t)
  show ?case
  proof (cases "t < sz \<and> 0 < C")
    case True
    with 1 show ?thesis by (auto simp: plan_step dest: plan_pieces)
  next
    case False
    then have "plan C sz t = []" by (subst plan.simps) auto
    then show ?thesis by simp
  qed
qed

abbreviation all_windows :: "c_int list \<Rightarrow> nat \<Rightarrow> (c_int \<times> nat \<times> nat) list" where
  "all_windows outs sz \<equiv> concat (map (\<lambda>out. file_windows out sz 0) outs)"

lemma all_windows_apart: "distinct outs \<Longrightarrow> sorted_wrt apart (all_windows outs sz)"
proof (induction outs)
  case (Cons out outs)
  have "sorted_wrt apart (file_windows out sz 0)"
    unfolding sorted_wrt_map
    by (rule sorted_wrt_mono_rel [OF _ plan_apart [of 8388608 sz 0]]) (auto simp: apart_def)
  moreover have "apart v w" if "v \<in> set (file_windows out sz 0)" "w \<in> set (all_windows outs sz)" for v w
    using that Cons.prems by (auto simp: apart_def)
  ultimately show ?case using Cons by (simp only: list.map concat.simps sorted_wrt_append distinct.simps) blast
qed simp

lemma all_windows_mem:
  "(out, q, l) \<in> set (all_windows outs sz) \<longleftrightarrow> out \<in> set outs \<and> (q, l) \<in> set (plan 8388608 sz 0)"
  by auto

section \<open>The pairs in flight\<close>

text \<open>
  What the run has to start from: the pairs, no two sharing a block or overlapping in a file,
  and the input different from the outputs.
\<close>

definition vec_setup :: "c_int \<Rightarrow> c_int list \<Rightarrow> byte list \<Rightarrow> (c_int \<times> nat \<times> nat) list \<Rightarrow>
    (ptr option) sqe list list \<Rightarrow> bool" where
  "vec_setup inp outs src ws prs \<longleftrightarrow>
     list_all2 (vec_pair inp) ws prs \<and> distinct (trace_bases prs) \<and> sorted_wrt apart ws \<and>
     (\<forall>(out, q, l) \<in> set ws. out \<in> set outs \<and> 0 < l \<and> q + l \<le> length src) \<and>
     inp \<notin> set outs \<and> length src < 9223372036854775808"

text \<open>One pair: not started, its window in the buffers, or its window in the output.\<close>

definition vec_stage :: "byte list \<Rightarrow> world \<Rightarrow> c_int \<times> nat \<times> nat \<Rightarrow> 'd sqe list \<Rightarrow> 'd sqe list \<Rightarrow> bool" where
  "vec_stage src w win es c \<longleftrightarrow>
     (case win of (out, q, l) \<Rightarrow>
        c = es \<or>
        (c = tl es \<and> gather (wd_mem w) (pair_iov es) = piece q l src) \<or>
        (c = [] \<and> piece q l (wd_files w out) = piece q l src))"

definition vec_run_inv :: "c_int \<Rightarrow> c_int list \<Rightarrow> byte list \<Rightarrow> (c_int \<times> nat \<times> nat) list \<Rightarrow>
    (ptr option) sqe list list \<Rightarrow> (c_int \<Rightarrow> byte list) \<Rightarrow> (ptr option) sqe list list \<times> world \<Rightarrow> bool" where
  "vec_run_inv inp outs src ws prs files0 s \<longleftrightarrow>
     (case s of (cs, w) \<Rightarrow>
        length cs = length prs \<and> wd_files w inp = src \<and>
        (\<forall>g. g \<notin> set outs \<longrightarrow> wd_files w g = files0 g) \<and>
        (\<forall>out \<in> set outs. length (wd_files w out) \<le> length src) \<and>
        (\<forall>i < length prs. vec_stage src w (ws ! i) (prs ! i) (cs ! i)))"

lemma vec_setup_pair:
  assumes "vec_setup inp outs src ws prs" "i < length prs"
  obtains out q l vs p where "ws ! i = (out, q, l)" "iov_total vs = l" "out \<in> set outs" "0 < l"
    "q + l \<le> length src" "unat (of_nat q :: off_t) = q" "distinct (map iov_base vs)" "out \<noteq> inp"
    "prs ! i = [\<lparr>sq_op = Op_readv inp vs (of_nat q), sq_link = True, sq_data = None\<rparr>,
                \<lparr>sq_op = Op_writev out vs (of_nat q), sq_link = False, sq_data = Some p\<rparr>]"
    "pair_iov (prs ! i) = vs"
proof -
  have pr: "list_all2 (vec_pair inp) ws prs" and d: "distinct (trace_bases prs)"
    and win: "\<forall>(out, q, l) \<in> set ws. out \<in> set outs \<and> 0 < l \<and> q + l \<le> length src"
    and inp: "inp \<notin> set outs" "length src < 9223372036854775808"
    using assms(1) by (simp_all add: vec_setup_def)
  obtain out q l where w: "ws ! i = (out, q, l)" by (cases "ws ! i")
  have "length ws = length prs" using pr by (rule list_all2_lengthD)
  then have mem: "(out, q, l) \<in> set ws" using w assms(2) by (metis nth_mem)
  have "vec_pair inp (ws ! i) (prs ! i)" using pr assms(2) by (simp add: list_all2_conv_all_nth)
  then obtain vs p where vp: "iov_total vs = l"
    "prs ! i = [\<lparr>sq_op = Op_readv inp vs (of_nat q), sq_link = True, sq_data = None\<rparr>,
                \<lparr>sq_op = Op_writev out vs (of_nat q), sq_link = False, sq_data = Some p\<rparr>]"
    using w by (auto simp: vec_pair_def)
  have iov: "pair_iov (prs ! i) = vs" using vp(2) by (simp add: pair_iov_def)
  have "distinct (map iov_base (pair_iov (prs ! i)))"
    using d assms(2) by (auto simp: distinct_concat_iff)
  moreover have r: "out \<in> set outs" "0 < l" "q + l \<le> length src" using win mem by auto
  then have "unat (of_nat q :: off_t) = q" using inp(2) by (simp add: unat_of_nat take_bit_eq_mod)
  moreover have "out \<noteq> inp" using r(1) inp(1) by auto
  ultimately show thesis using that [OF w vp(1) r _ _ _ vp(2) iov] iov by simp
qed

text \<open>Two pairs work on different blocks and do not overlap in a file.\<close>

lemma distinct_concat_nth:
  "distinct (concat xss) \<Longrightarrow> i < length xss \<Longrightarrow> j < length xss \<Longrightarrow> i \<noteq> j \<Longrightarrow> set (xss ! i) \<inter> set (xss ! j) = {}"
proof (induction xss arbitrary: i j)
  case (Cons xs xss)
  have *: "set xs \<inter> set (xss ! k) = {}" if "k < length xss" for k
    using Cons.prems(1) that by (auto dest: nth_mem)
  from Cons * show ?case by (cases i; cases j) (auto simp: Int_commute)
qed simp

lemma vec_setup_disjoint:
  assumes "vec_setup inp outs src ws prs" "i < length prs" "j < length prs" "i \<noteq> j"
  shows "iov_base ` set (pair_iov (prs ! i)) \<inter> iov_base ` set (pair_iov (prs ! j)) = {}"
    and "apart (ws ! i) (ws ! j)"
proof -
  show "iov_base ` set (pair_iov (prs ! i)) \<inter> iov_base ` set (pair_iov (prs ! j)) = {}"
    using distinct_concat_nth [of "map (\<lambda>es. map iov_base (pair_iov es)) prs" i j] assms
    by (simp add: vec_setup_def)
  have "length ws = length prs" using assms(1) by (auto simp: vec_setup_def dest: list_all2_lengthD)
  moreover have "sorted_wrt apart ws" using assms(1) by (simp add: vec_setup_def)
  ultimately show "apart (ws ! i) (ws ! j)"
    using assms(2-4) sorted_wrt_nth_less [of apart ws i j] sorted_wrt_nth_less [of apart ws j i] apart_sym
    by (cases "i < j") auto
qed

section \<open>One step of the kernel\<close>

lemma gather_scatter_distinct:
  "distinct (map iov_base vs) \<Longrightarrow> length d = iov_total vs \<Longrightarrow> gather (scatter d vs m) vs = d"
proof (induction vs arbitrary: d m)
  case (Cons v vs)
  let ?n = "unat (iov_len v)"
  let ?m = "m(iov_base v := write_at (m (iov_base v)) 0 (take ?n d))"
  have "gather (scatter (drop ?n d) vs ?m) vs = drop ?n d" using Cons by simp
  moreover have "take ?n (write_at (m (iov_base v)) 0 (take ?n d)) = take ?n d"
    using Cons.prems(2) by (cases "?n = 0") (auto simp: write_at_def)
  moreover have "iov_base v \<notin> iov_base ` set vs" using Cons.prems(1) by simp
  ultimately show ?case by (simp add: scatter_other)
qed simp

lemma gather_cong: "(\<And>p. p \<in> iov_base ` set vs \<Longrightarrow> m p = m' p) \<Longrightarrow> gather m vs = gather m' vs"
  by (induction vs) auto

text \<open>The read of a pair fills its buffers and disturbs no other pair.\<close>

lemma vec_read_step:
  assumes ready: "vec_setup inp outs src ws prs" and i: "i < length prs"
    and inv: "vec_run_inv inp outs src ws prs files0 (cs, w)" and c: "cs ! i = prs ! i"
    and head: "cs ! i = e # es"
  shows "vec_run_inv inp outs src ws prs files0 (cs[i := es], effect pipe_of (sq_op e) w)"
proof -
  obtain out q l vs p where pair: "ws ! i = (out, q, l)" "iov_total vs = l" "q + l \<le> length src"
      "unat (of_nat q :: off_t) = q" "distinct (map iov_base vs)"
      "prs ! i = [\<lparr>sq_op = Op_readv inp vs (of_nat q), sq_link = True, sq_data = None\<rparr>,
                \<lparr>sq_op = Op_writev out vs (of_nat q), sq_link = False, sq_data = Some p\<rparr>]"
      "pair_iov (prs ! i) = vs"
    by (rule vec_setup_pair [OF ready i])
  have inv': "length cs = length prs" "wd_files w inp = src"
    "\<forall>g. g \<notin> set outs \<longrightarrow> wd_files w g = files0 g" "\<forall>out \<in> set outs. length (wd_files w out) \<le> length src"
    "\<forall>i < length prs. vec_stage src w (ws ! i) (prs ! i) (cs ! i)"
    using inv by (simp_all add: vec_run_inv_def)
  let ?d = "piece q l src" and ?w = "mem_scatter (piece q l src) vs w"
  have w': "effect pipe_of (sq_op e) w = ?w" and es: "es = tl (prs ! i)"
    using c head pair inv'(2) by auto
  have "gather (scatter ?d vs (wd_mem w)) vs = ?d"
    by (rule gather_scatter_distinct) (simp_all add: pair length_piece)
  then have "vec_stage src ?w (ws ! i) (prs ! i) es" by (simp add: vec_stage_def pair(1,7) es)
  moreover have "vec_stage src ?w (ws ! j) (prs ! j) (cs ! j)" if j: "j < length prs" "j \<noteq> i" for j
  proof -
    have "scatter ?d vs (wd_mem w) b = wd_mem w b" if "b \<in> iov_base ` set (pair_iov (prs ! j))" for b
      using vec_setup_disjoint(1) [OF ready i j(1)] j(2) that
      by (intro scatter_other) (auto simp: pair(7))
    then have "gather (scatter ?d vs (wd_mem w)) (pair_iov (prs ! j)) = gather (wd_mem w) (pair_iov (prs ! j))"
      by (rule gather_cong)
    moreover have "vec_stage src w (ws ! j) (prs ! j) (cs ! j)" using inv'(5) j(1) by blast
    ultimately show ?thesis by (auto simp: vec_stage_def split: prod.splits)
  qed
  ultimately show ?thesis
    using inv' i by (auto simp: vec_run_inv_def w' nth_list_update)
qed

text \<open>The write of a pair puts its window into its output and disturbs no other window.\<close>

lemma vec_write_step:
  assumes ready: "vec_setup inp outs src ws prs" and i: "i < length prs"
    and inv: "vec_run_inv inp outs src ws prs files0 (cs, w)" and c: "cs ! i = tl (prs ! i)"
    and filled: "gather (wd_mem w) (pair_iov (prs ! i)) = (case ws ! i of (out, q, l) \<Rightarrow> piece q l src)"
    and head: "cs ! i = e # es"
  shows "vec_run_inv inp outs src ws prs files0 (cs[i := es], effect pipe_of (sq_op e) w)"
proof -
  obtain out q l vs p where pair: "ws ! i = (out, q, l)" "out \<in> set outs" "0 < l"
      "q + l \<le> length src" "unat (of_nat q :: off_t) = q" "out \<noteq> inp"
      "prs ! i = [\<lparr>sq_op = Op_readv inp vs (of_nat q), sq_link = True, sq_data = None\<rparr>,
                \<lparr>sq_op = Op_writev out vs (of_nat q), sq_link = False, sq_data = Some p\<rparr>]"
      "pair_iov (prs ! i) = vs"
    by (rule vec_setup_pair [OF ready i])
  have inv': "length cs = length prs" "wd_files w inp = src"
    "\<forall>g. g \<notin> set outs \<longrightarrow> wd_files w g = files0 g" "\<forall>out \<in> set outs. length (wd_files w out) \<le> length src"
    "\<forall>i < length prs. vec_stage src w (ws ! i) (prs ! i) (cs ! i)"
    using inv by (simp_all add: vec_run_inv_def)
  let ?d = "piece q l src"
  have w': "effect pipe_of (sq_op e) w = file_write out q ?d w" and es: "es = []"
    using c head pair filled by auto
  have d: "length ?d = l" using pair(4) by (rule length_piece)
  then have "?d \<noteq> []" using pair(3) by auto
  then have "vec_stage src (file_write out q ?d w) (ws ! i) (prs ! i) es"
    using piece_write_same [of ?d q "wd_files w out"] d by (simp add: vec_stage_def pair(1) es)
  moreover have "vec_stage src (file_write out q ?d w) (ws ! j) (prs ! j) (cs ! j)"
    if j: "j < length prs" "j \<noteq> i" for j
  proof -
    obtain out' q' l' where wj: "ws ! j = (out', q', l')" "0 < l'" "q' + l' \<le> length src"
      using vec_setup_pair [OF ready j(1)] by metis
    have apart: "out = out' \<Longrightarrow> q + l \<le> q' \<or> q' + l' \<le> q"
      using vec_setup_disjoint(2) [OF ready i j(1)] j(2) pair(1) wj(1) by (auto simp: apart_def)
    have "piece q' l' (write_at (wd_files w out) q ?d) = piece q' l' src"
      if "out = out'" "piece q' l' (wd_files w out) = piece q' l' src"
    proof -
      have "length (piece q' l' (wd_files w out)) = l'" using that(2) wj(3) by (simp add: length_piece)
      then have "q' + l' \<le> length (wd_files w out)" using wj(2) by (simp add: piece_def)
      with piece_write_other [of q' l' "wd_files w out" q ?d] apart that d show ?thesis by auto
    qed
    moreover have "vec_stage src w (ws ! j) (prs ! j) (cs ! j)" using inv'(5) j(1) by blast
    ultimately show ?thesis by (auto simp: vec_stage_def wj(1))
  qed
  moreover have "length (write_at (wd_files w out) q ?d) \<le> length src"
    using inv'(4) pair(2,4) d \<open>?d \<noteq> []\<close> by (simp add: length_write_at)
  ultimately show ?thesis
    using inv' i pair(2,6) by (auto simp: vec_run_inv_def w' nth_list_update)
qed

lemma vec_run_step:
  assumes ready: "vec_setup inp outs src ws prs" and law: "exec_law exec look pipe_of cap"
    and inv: "vec_run_inv inp outs src ws prs files0 (fst s, look (snd s))" and step: "kernel_step exec s s'"
  shows "vec_run_inv inp outs src ws prs files0 (fst s', look (snd s'))"
  using step
proof cases
  case (run_head i cs e es w)
  have i: "i < length prs" using inv run_head by (simp add: vec_run_inv_def)
  obtain out q l vs p where pair: "ws ! i = (out, q, l)"
      "prs ! i = [\<lparr>sq_op = Op_readv inp vs (of_nat q), sq_link = True, sq_data = None\<rparr>,
                \<lparr>sq_op = Op_writev out vs (of_nat q), sq_link = False, sq_data = Some p\<rparr>]"
    by (rule vec_setup_pair [OF ready i])
  have "vec_stage src (look w) (ws ! i) (prs ! i) (cs ! i)"
    using inv i unfolding run_head(1) by (simp add: vec_run_inv_def)
  then consider "cs ! i = prs ! i"
    | "cs ! i = tl (prs ! i)" "gather (wd_mem (look w)) (pair_iov (prs ! i)) = piece q l src"
    using run_head(4) by (auto simp: vec_stage_def pair(1))
  then have "vec_run_inv inp outs src ws prs files0 (cs[i := es], effect pipe_of (sq_op e) (look w))"
  proof cases
    case 1
    then show ?thesis using vec_read_step [OF ready i _ _ run_head(4)] inv run_head by simp
  next
    case 2
    then show ?thesis using vec_write_step [OF ready i _ _ _ run_head(4)] inv run_head pair(1) by simp
  qed
  moreover have "unhindered pipe_of cap (sq_op e) (look w)"
    using \<open>vec_stage src (look w) (ws ! i) (prs ! i) (cs ! i)\<close> run_head(4)
    by (auto simp: vec_stage_def pair)
  ultimately show ?thesis using exec_lawD [OF law] run_head by simp
qed

lemma vec_run_system:
  assumes "vec_setup inp outs src ws prs" "exec_law exec look pipe_of cap"
  shows "invariant_system (\<lambda>s. vec_run_inv inp outs src ws prs files0 (fst s, look (snd s)))
    (kernel_step exec) (\<lambda>s. vec_run_inv inp outs src ws prs files0 (fst s, look (snd s)))"
  by unfold_locales (blast intro: vec_run_step [OF assms])+

section \<open>Properties\<close>

lemma link_pairs_chains: "link_pairs b \<Longrightarrow> link_chains (b @ es) = link_chains b @ link_chains es"
  by (induction b rule: link_pairs.induct) auto

lemma link_pairs_concat:
  "\<forall>b \<in> set bs. link_pairs b \<Longrightarrow> concat (map link_chains bs) = link_chains (concat bs)"
  by (induction bs) (simp_all add: link_pairs_chains)

lemma batches_are_pairs:
  assumes "\<forall>b \<in> set bs. link_pairs b" "concat bs = concat prs" "list_all2 (vec_pair inp) ws prs"
  shows "concat (map link_chains bs) = prs"
proof -
  have "linked_chain c" if "c \<in> set prs" for c
  proof -
    from that obtain i where "i < length prs" "c = prs ! i" by (auto simp: in_set_conv_nth)
    then have "vec_pair inp (ws ! i) c" using assms(3) by (simp add: list_all2_conv_all_nth)
    then show ?thesis by (auto simp: vec_pair_def linked_chain_def split: prod.splits)
  qed
  then show ?thesis using link_pairs_concat [OF assms(1)] chains_concat [of prs] assms(2) by simp
qed

lemma all_windows_setup:
  assumes "list_all2 (vec_pair inp) (all_windows outs (length src)) prs" "distinct (trace_bases prs)"
    and "distinct outs" "inp \<notin> set outs" "length src < 9223372036854775808"
  shows "vec_setup inp outs src (all_windows outs (length src)) prs"
  using assms all_windows_apart [OF assms(3)] plan_pieces [of _ _ 8388608 "length src" 0]
  by (fastforce simp: vec_setup_def)

text \<open>The whole call.\<close>

lemma uring_broadcast_outputs:
  assumes "uring_laws ur view" "init_succeeds ur" "submits_all ur view" "waits_succeed ur"
      "requests_succeed ur"
    and "memalign_law px files mem live" "free_law px files live" "alloc_succeeds px"
    and "get_file_size fstat blk inp = of_nat (length src)" "length src < 9223372036854775808"
    and "length outs * length (plan 8388608 (length src) 0) < 18446744073709551616"
    and "vs_ctxs st = Map.empty"
    and "exec_law exec look pipe_of cap" "wd_files (look w) inp = src"
    and "distinct outs" "inp \<notin> set outs" "\<forall>out \<in> set outs. length (wd_files (look w) out) \<le> length src"
  shows "\<exists>st' bs. perform_uring_broadcast ur px fstat blk inp outs st =
      Some (Inr (of_nat (length outs) * of_nat (length src)), st') \<and>
    rv_batches (view (vs_ring st')) = rv_batches (view (vs_ring st)) @ bs \<and>
    (\<forall>w'. runs_to exec (map (\<lambda>b. (b, False)) bs) w w' \<longrightarrow>
       (\<forall>out \<in> set outs. wd_files (look w') out = src) \<and>
       (\<forall>g. g \<notin> set outs \<longrightarrow> wd_files (look w') g = wd_files (look w) g))"
proof -
  have sz: "unat (of_nat (length src) :: size_t) = length src" "0 \<le>s (of_nat (length src) :: size_t)"
    using assms(10) by (simp_all add: unat_of_nat take_bit_eq_mod nonneg_iff_unat64)
  let ?ws = "all_windows outs (length src)"
  from uring_broadcast_runs [OF assms(1-4,6-9) sz(2) _ assms(12), of outs] assms(5,11)
  obtain st' bs prs where run: "perform_uring_broadcast ur px fstat blk inp outs st =
      Some (Inr (of_nat (length outs) * of_nat (length src)), st')"
    "rv_batches (view (vs_ring st')) = rv_batches (view (vs_ring st)) @ bs"
    "\<forall>b \<in> set bs. link_pairs b" "concat bs = concat prs" "list_all2 (vec_pair inp) ?ws prs"
    "distinct (trace_bases prs)" unfolding sz(1) by blast
  note prs = batches_are_pairs [OF run(3-5)]
  note ready = all_windows_setup [OF run(5,6) assms(15,16,10)]
  let ?inv = "\<lambda>s. vec_run_inv inp outs src ?ws prs (wd_files (look w)) (fst s, look (snd s))"
  have start: "?inv (prs, w)"
    using assms(14,17) by (auto simp: vec_run_inv_def vec_stage_def split: prod.splits)
  have "(\<forall>out \<in> set outs. wd_files (look w') out = src) \<and>
      (\<forall>g. g \<notin> set outs \<longrightarrow> wd_files (look w') g = wd_files (look w) g)"
    if run_w: "runs_to exec (map (\<lambda>b. (b, False)) bs) w w'" for w'
  proof -
    have eq: "concat (map (link_chains \<circ> fst) (map (\<lambda>b. (b, False)) bs)) = prs" using prs by (simp add: comp_def)
    obtain cs where k: "(kernel_step exec)\<^sup>*\<^sup>* (prs, w) (cs, w')" "all_run cs"
      by (rule runs_to_kernel_run [OF run_w, unfolded eq])
    have inv: "?inv (cs, w')"
      using invariant_system.reachable_inv [OF vec_run_system [OF ready assms(13)] start k(1)] by simp
    have "wd_files (look w') out = src" if out: "out \<in> set outs" for out
    proof (rule pieces_determine_file)
      show "length (wd_files (look w') out) \<le> length src" using inv out by (simp add: vec_run_inv_def)
      fix q l assume "(q, l) \<in> set (plan 8388608 (length src) 0)"
      then have "(out, q, l) \<in> set ?ws" using out by auto
      moreover have len: "length prs = length ?ws" using list_all2_lengthD [OF run(5)] by simp
      ultimately obtain i where i: "i < length prs" "?ws ! i = (out, q, l)" by (metis in_set_conv_nth)
      have "cs ! i = []" using k(2) inv i(1) by (simp add: all_run_def vec_run_inv_def)
      moreover from inv have "\<forall>i < length prs. vec_stage src (look w') (?ws ! i) (prs ! i) (cs ! i)"
        by (simp add: vec_run_inv_def)
      note this [rule_format, OF i(1), unfolded i(2)]
      moreover obtain vs p where "prs ! i = [\<lparr>sq_op = Op_readv inp vs (of_nat q), sq_link = True, sq_data = None\<rparr>,
          \<lparr>sq_op = Op_writev out vs (of_nat q), sq_link = False, sq_data = Some p\<rparr>]"
        using vec_setup_pair [OF ready i(1)] i(2) by (metis prod.inject)
      ultimately show "piece q l (wd_files (look w') out) = piece q l src"
        by (simp add: vec_stage_def)
    qed simp
    with inv show ?thesis by (simp add: vec_run_inv_def)
  qed
  with run(1,2) show ?thesis by blast
qed

text \<open>
  C10: the vectored broadcast delivers, in whatever order the kernel works. With distinct
  outputs none of which is the input or longer than it, a ring that behaves as documented,
  succeeding requests and allocations, the call returns outputs times size, and every run of
  the requests it submitted, pairs of different outputs and windows interleaved in any way
  and no submission waited for, ends with each output holding the input's bytes and every
  other file unchanged.
\<close>

theorem uring_broadcast_delivers:
  assumes "uring_laws ur view" "init_succeeds ur" "submits_all ur view" "waits_succeed ur"
      "requests_succeed ur"
    and "memalign_law px files mem live" "free_law px files live" "alloc_succeeds px"
    and "get_file_size fstat blk inp = of_nat (length src)" "length src < 9223372036854775808"
    and "length outs * length (plan 8388608 (length src) 0) < 18446744073709551616"
    and "vs_ctxs st = Map.empty"
    and "exec_law exec look pipe_of cap" "wd_files (look w) inp = src"
    and "distinct outs" "inp \<notin> set outs" "\<forall>out \<in> set outs. length (wd_files (look w) out) \<le> length src"
  shows "\<exists>st' bs. perform_uring_broadcast ur px fstat blk inp outs st =
      Some (Inr (of_nat (length outs) * of_nat (length src)), st') \<and>
    rv_batches (view (vs_ring st')) = rv_batches (view (vs_ring st)) @ bs \<and>
    (\<forall>w'. runs_to exec (map (\<lambda>b. (b, False)) bs) w w' \<longrightarrow>
       (\<forall>out \<in> set outs. wd_files (look w') out = src) \<and>
       (\<forall>g. g \<notin> set outs \<longrightarrow> wd_files (look w') g = wd_files (look w) g))"
  using assms by (rule uring_broadcast_outputs)

definition three_bytes :: world where
  "three_bytes = \<lparr>wd_files = (\<lambda>fd. if fd = 3 then [7, 8, 9] else []), wd_pipes = (\<lambda>p. []), wd_mem = (\<lambda>p. [])\<rparr>"

theorem uring_broadcast_delivers_witness:
  "\<exists>st' w'. perform_uring_broadcast (sim_uring (\<lambda>e. 1)) mem_os (fixed_fstat 3) Map.empty 3 [5, 6] vec_demo =
      Some (Inr 6, st') \<and>
    runs_to (effect Map.empty) (map (\<lambda>b. (b, False)) (sim_batches (vs_ring st'))) three_bytes w' \<and>
    wd_files w' 5 = [7, 8, 9] \<and> wd_files w' 6 = [7, 8, 9] \<and> wd_files w' 4 = []"
proof -
  have ok: "requests_succeed (sim_uring (\<lambda>e :: (ptr option) sqe. 1))" by (rule sim_requests_succeed) simp
  have laws: "memalign_law mem_os ms_files ms_mem mem_live" "free_law mem_os ms_files mem_live"
    using mem_os_laws [of UNIV] by (simp_all add: posix_laws_def)
  have p: "plan 8388608 3 0 = [(0, 3)]" by (simp add: plan_step)
  have len: "length [7, 8, 9 :: byte] = 3" by simp
  have sz: "get_file_size (fixed_fstat 3) Map.empty 3 = of_nat (length [7, 8, 9 :: byte])"
    using fixed_fstat_size [of 3 Map.empty 3] by simp
  have few: "length [5, 6 :: c_int] * length (plan 8388608 (length [7, 8, 9 :: byte]) 0) < 18446744073709551616"
    unfolding len p by simp
  have c: "vs_ctxs vec_demo = Map.empty" by (simp add: vec_demo_def)
  have files: "wd_files three_bytes 3 = [7, 8, 9]"
    "\<forall>out \<in> set [5, 6]. length (wd_files three_bytes out) \<le> length [7, 8, 9 :: byte]"
    by (simp_all add: three_bytes_def)
  from uring_broadcast_delivers [OF sim_uring_laws sim_uring_ok ok laws mem_os_alloc sz _ few c
      effect_exec_law [of Map.empty] files(1) _ _ files(2)]
  obtain st' where st': "perform_uring_broadcast (sim_uring (\<lambda>e. 1)) mem_os (fixed_fstat 3) Map.empty 3 [5, 6]
      vec_demo = Some (Inr 6, st')"
    and all: "\<And>w'. runs_to (effect Map.empty) (map (\<lambda>b. (b, False)) (sim_batches (vs_ring st'))) three_bytes w' \<Longrightarrow>
      (\<forall>out \<in> set [5, 6]. wd_files w' out = [7, 8, 9]) \<and>
      (\<forall>g. g \<notin> set [5, 6] \<longrightarrow> wd_files w' g = wd_files three_bytes g)"
    by (auto simp: sim_view_def vec_demo_def sim_start_def)
  obtain w' where r: "runs_to (effect Map.empty) (map (\<lambda>b. (b, False)) (sim_batches (vs_ring st'))) three_bytes w'"
    by (rule exE [OF runs_to_exists])
  from all [OF r] have "wd_files w' 5 = [7, 8, 9] \<and> wd_files w' 6 = [7, 8, 9] \<and> wd_files w' 4 = []"
    by (simp add: three_bytes_def)
  with st' r show ?thesis by blast
qed

end
