(* ===== verification/Tee.thy ===== *)
theory Tee
  imports Uring Chunking
begin

unbundle bit_operations_syntax

text \<open>
  \<open>source/Network/broadcastTee.hpp\<close> (mode 4): the source file is spliced into a pipe, the
  pipe is teed into one pipe per output and spliced from there into the files, the last
  output taking its data from the source pipe itself. One linked chain of requests per
  256 KiB piece; the next piece is prepared when every completion of the last is consumed.
\<close>

section \<open>User data\<close>

datatype OP_FLAGS = SRC_SPLICE_PIPE | PIPE_TEE_PIPE | PIPE_SPLICE_PIPE | PIPE_SPLICE_DEST

definition NET_CHUNK_SIZE :: "32 word" where "NET_CHUNK_SIZE = 256 * 1024"

definition pack_data :: "c_int \<Rightarrow> off_t \<Rightarrow> size_t \<Rightarrow> uintptr" where
  "pack_data fd offset sz =
     (let packed = 0;
          packed = packed OR push_bit 60 (word_of_int fd AND 0xF);
          packed = packed OR push_bit 40 (sz AND 0xFFFFF);
          packed = packed OR (offset AND 0xFFFFFFFFFF)
      in packed)"

text \<open>The fields as \<open>process_cqes\<close> reads them back.\<close>

definition unpack_fd :: "uintptr \<Rightarrow> c_int" where
  "unpack_fd packed = uint (drop_bit 60 packed AND 0xF)"

definition unpack_size :: "uintptr \<Rightarrow> size_t" where
  "unpack_size packed = drop_bit 40 packed AND 0xFFFFF"

definition unpack_offset :: "uintptr \<Rightarrow> off_t" where
  "unpack_offset packed = packed AND 0xFFFFFFFFFF"

section \<open>Single requests\<close>

definition prepare_tee ::
    "(uintptr, 's) uring \<Rightarrow> c_int \<Rightarrow> c_int \<Rightarrow> 32 word \<Rightarrow> bool \<Rightarrow> 's \<Rightarrow> size_t \<times> 's" where
  "prepare_tee ur inp out sz link s =
     (case push_sqe ur \<lparr>sq_op = Op_tee inp out sz 0, sq_link = link,
                        sq_data = pack_data out 0 (ucast sz)\<rparr> s of
        (False, s1) \<Rightarrow> (0, s1)
      | (True, s1) \<Rightarrow> (1, s1))"

definition tee_prepare_splice ::
    "(uintptr, 's) uring \<Rightarrow> c_int \<Rightarrow> c_int \<Rightarrow> OP_FLAGS \<Rightarrow> off_t \<Rightarrow> size_t \<Rightarrow> bool \<Rightarrow> 's \<Rightarrow> size_t \<times> 's" where
  "tee_prepare_splice ur inp out flag offset sz link s =
     (let off_in = (case flag of SRC_SPLICE_PIPE \<Rightarrow> offset | _ \<Rightarrow> -1);
          off_out = (case flag of PIPE_SPLICE_DEST \<Rightarrow> offset | _ \<Rightarrow> -1)
      in case push_sqe ur \<lparr>sq_op = Op_splice inp off_in out off_out (ucast sz) SPLICE_F_MOVE,
                           sq_link = link, sq_data = pack_data out offset sz\<rparr> s of
        (False, s1) \<Rightarrow> (0, s1)
      | (True, s1) \<Rightarrow> (1, s1))"

text \<open>
  \<open>process_cqes\<close>: the loop over the ready completions yields \<open>None\<close> for the early
  \<open>return 0\<close> and otherwise \<open>completed_cqes\<close>. The fields it unpacks are only printed.
\<close>

fun process_loop :: "uintptr cqe list \<Rightarrow> nat \<Rightarrow> nat option" where
  "process_loop [] completed_cqes = Some completed_cqes"
| "process_loop (c # cs) completed_cqes =
     (if cq_res c = - ECANCELED \<or> cq_res c = - EAGAIN then process_loop cs completed_cqes
      else if cq_res c < 0 then None
      else if cq_res c < 0 then Some completed_cqes
      else process_loop cs (completed_cqes + 1))"

definition process_cqes :: "(uintptr, 's) uring \<Rightarrow> 's \<Rightarrow> size_t \<times> 's" where
  "process_cqes ur s =
     (let total_data = 0 in
      case process_loop (ur_ready ur s) 0 of
        None \<Rightarrow> (0, s)
      | Some completed_cqes \<Rightarrow> (total_data, ur_cq_advance ur completed_cqes s))"

section \<open>The broadcast\<close>

definition tee_to_process :: "size_t \<Rightarrow> size_t \<Rightarrow> size_t" where
  "tee_to_process file_sz total_processed = min (ucast NET_CHUNK_SIZE) (file_sz - total_processed)"

text \<open>The loop over all outputs but the last; its bound is \<open>output_files.size() - 1\<close> on \<open>size_t\<close>.\<close>

function tee_branches :: "(uintptr, 's) uring \<Rightarrow> c_int \<Rightarrow> c_int list \<Rightarrow> c_int list \<Rightarrow> c_int list \<Rightarrow>
    size_t \<Rightarrow> size_t \<Rightarrow> size_t \<Rightarrow> nat \<Rightarrow> 's \<Rightarrow> (cpp_error + nat) \<times> 's" where
  "tee_branches ur src_r outs dws drs total_processed to_process i submissions s =
     (if i < of_nat (length outs) - 1 then
        (case index_at dws (unat i) of
           Inl e \<Rightarrow> (Inl e, s)
         | Inr dw \<Rightarrow>
             (case push_unchecked ur \<lparr>sq_op = Op_tee src_r dw (ucast to_process) 0,
                                      sq_link = True, sq_data = 0\<rparr> s of
                (Inl e, s1) \<Rightarrow> (Inl e, s1)
              | (Inr _, s1) \<Rightarrow>
                  (case (index_at drs (unat i), index_at outs (unat i)) of
                     (Inr dr, Inr out) \<Rightarrow>
                       (case push_unchecked ur
                               \<lparr>sq_op = Op_splice dr (-1) out total_processed (ucast to_process) SPLICE_F_MORE,
                                sq_link = True, sq_data = to_process\<rparr> s1 of
                          (Inl e, s2) \<Rightarrow> (Inl e, s2)
                        | (Inr _, s2) \<Rightarrow>
                            tee_branches ur src_r outs dws drs total_processed to_process
                              (i + 1) (submissions + 2) s2)
                   | _ \<Rightarrow> (Inl Out_of_bounds, s1))))
      else (Inr submissions, s))"
  by pat_completeness auto

lemma branches_progress:
  assumes "i < n"
  shows "unat (n - (i + 1) :: size_t) < unat (n - i)"
proof -
  let ?d = "n - i"
  have "?d \<noteq> 0" using assms by auto
  then have "unat (?d - 1) < unat ?d" by (metis unat_gt_0 unat_minus_one diff_less less_numeral_extra(1))
  moreover have "n - (i + 1) = ?d - 1" by simp
  ultimately show ?thesis by (simp only:)
qed

termination tee_branches
  by (relation "measure (\<lambda>(ur, sr, outs, dws, drs, t, p, i, n, s). unat ((of_nat (length outs) - 1 :: size_t) - i))")
     (simp_all only: wf_measure in_measure prod.case branches_progress)

declare tee_branches.simps [simp del]

text \<open>One piece: the whole chain is prepared; the answer is \<open>submissions\<close>.\<close>

definition tee_chunk :: "(uintptr, 's) uring \<Rightarrow> c_int \<Rightarrow> c_int \<Rightarrow> c_int \<Rightarrow> c_int list \<Rightarrow> c_int list \<Rightarrow>
    c_int list \<Rightarrow> size_t \<Rightarrow> size_t \<Rightarrow> 's \<Rightarrow> (cpp_error + nat) \<times> 's" where
  "tee_chunk ur src src_w src_r outs dws drs total_processed to_process s =
     (case push_unchecked ur
             \<lparr>sq_op = Op_splice src total_processed src_w (-1) (ucast to_process) SPLICE_F_MORE,
              sq_link = True, sq_data = 0\<rparr> s of
        (Inl e, s1) \<Rightarrow> (Inl e, s1)
      | (Inr _, s1) \<Rightarrow>
          (case tee_branches ur src_r outs dws drs total_processed to_process 0 1 s1 of
             (Inl e, s2) \<Rightarrow> (Inl e, s2)
           | (Inr submissions, s2) \<Rightarrow>
               if outs = [] then (Inl Out_of_bounds, s2)
               else
                 (case push_unchecked ur
                         \<lparr>sq_op = Op_splice src_r (-1) (last outs) total_processed (ucast to_process) SPLICE_F_MORE,
                          sq_link = False, sq_data = to_process\<rparr> s2 of
                    (Inl e, s3) \<Rightarrow> (Inl e, s3)
                  | (Inr _, s3) \<Rightarrow> (Inr (submissions + 1), s3))))"

text \<open>The loop over the ready completions: \<open>total_data_moved\<close> and \<open>count\<close>.\<close>

fun tee_reap :: "uintptr cqe list \<Rightarrow> size_t \<Rightarrow> nat \<Rightarrow> size_t \<times> nat" where
  "tee_reap [] total_data_moved seen = (total_data_moved, seen)"
| "tee_reap (c # cs) total_data_moved seen =
     tee_reap cs
       (if 0 < cq_data c \<and> 0 \<le> cq_res c then total_data_moved + cq_data c else total_data_moved)
       (seen + 1)"

function tee_loop :: "(uintptr, 's) uring \<Rightarrow> c_int \<Rightarrow> c_int \<Rightarrow> c_int \<Rightarrow> c_int list \<Rightarrow> c_int list \<Rightarrow>
    c_int list \<Rightarrow> size_t \<Rightarrow> size_t \<Rightarrow> size_t \<Rightarrow> 's \<Rightarrow> (cpp_error + size_t) \<times> 's" where
  "tee_loop ur src src_w src_r outs dws drs file_sz total_processed total_data_moved s =
     (if total_processed < file_sz then
        (let to_process = tee_to_process file_sz total_processed in
         case tee_chunk ur src src_w src_r outs dws drs total_processed to_process s of
           (Inl e, s1) \<Rightarrow> (Inl e, s1)
         | (Inr submissions, s1) \<Rightarrow>
             (case ur_submit_and_wait ur submissions s1 of
                (_, s2) \<Rightarrow>
                  (case tee_reap (ur_ready ur s2) total_data_moved 0 of
                     (moved, seen) \<Rightarrow>
                       tee_loop ur src src_w src_r outs dws drs file_sz
                         (total_processed + to_process) moved (ur_cq_advance ur seen s2))))
      else (Inr total_data_moved, s))"
  by pat_completeness auto

interpretation tee: chunk_loop tee_to_process 262144
proof
  show "unat (tee_to_process sz t) = min 262144 (unat sz - unat t)" if "unat t < unat sz" for t sz
    using that by (simp add: tee_to_process_def NET_CHUNK_SIZE_def u64 unat_minus64)
qed simp

lemma tee_progress:
  "t < sz \<Longrightarrow> unat (sz - (t + tee_to_process sz t)) < unat (sz - t)"
  using tee.advance_less [of t sz] tee.advance_le [of t sz]
  by (simp add: word_less_unat word_le_unat unat_minus64)

termination tee_loop
  by (relation "measure (\<lambda>(ur, src, sw, sr, outs, dws, drs, sz, t, m, s). unat (sz - t))")
     (auto simp: tee_progress)

declare tee_loop.simps [simp del]

definition perform_tee_broadcast :: "(uintptr, 's) uring \<Rightarrow> (c_int \<Rightarrow> stat option) \<Rightarrow>
    (c_int \<Rightarrow> 64 word option) \<Rightarrow> c_int \<Rightarrow> c_int \<Rightarrow> c_int \<Rightarrow> c_int list \<Rightarrow> c_int list \<Rightarrow> c_int list \<Rightarrow>
    's \<Rightarrow> (cpp_error + size_t) \<times> 's" where
  "perform_tee_broadcast ur fstat blk src src_w src_r outs dws drs s =
     (case ur_init ur 1024 s of
        (r, s1) \<Rightarrow>
          if r < 0 then (Inl (Exit EIO), s1)
          else
            (let file_sz = get_file_size fstat blk src in
             case tee_loop ur src src_w src_r outs dws drs file_sz 0 0 s1 of
               (Inl e, s2) \<Rightarrow> (Inl e, s2)
             | (Inr total_data_moved, s2) \<Rightarrow> (Inr total_data_moved, ur_exit ur s2)))"

section \<open>A piece is one linked chain\<close>

text \<open>The requests of a piece, as the diagram in the documentation of the mode has them.\<close>

definition tee_branch :: "c_int \<Rightarrow> c_int list \<Rightarrow> c_int list \<Rightarrow> c_int list \<Rightarrow> size_t \<Rightarrow> size_t \<Rightarrow> nat \<Rightarrow>
    uintptr sqe list" where
  "tee_branch src_r outs dws drs t p i =
     [\<lparr>sq_op = Op_tee src_r (dws ! i) (ucast p) 0, sq_link = True, sq_data = 0\<rparr>,
      \<lparr>sq_op = Op_splice (drs ! i) (-1) (outs ! i) t (ucast p) SPLICE_F_MORE,
       sq_link = True, sq_data = p\<rparr>]"

definition tee_chain :: "c_int \<Rightarrow> c_int \<Rightarrow> c_int \<Rightarrow> c_int list \<Rightarrow> c_int list \<Rightarrow> c_int list \<Rightarrow>
    size_t \<Rightarrow> size_t \<Rightarrow> uintptr sqe list" where
  "tee_chain src src_w src_r outs dws drs t p =
     \<lparr>sq_op = Op_splice src t src_w (-1) (ucast p) SPLICE_F_MORE, sq_link = True, sq_data = 0\<rparr> #
     concat (map (tee_branch src_r outs dws drs t p) [0..<length outs - 1]) @
     [\<lparr>sq_op = Op_splice src_r (-1) (last outs) t (ucast p) SPLICE_F_MORE,
       sq_link = False, sq_data = p\<rparr>]"

text \<open>The parameters a broadcast is called with: a pipe for every output but the last.\<close>

definition tee_ports :: "c_int list \<Rightarrow> c_int list \<Rightarrow> c_int list \<Rightarrow> bool" where
  "tee_ports outs dws drs \<longleftrightarrow> outs \<noteq> [] \<and> length outs < 18446744073709551616 \<and>
     length outs \<le> length dws + 1 \<and> length outs \<le> length drs + 1"

lemma unat_last_index:
  "outs \<noteq> [] \<Longrightarrow> length outs < 18446744073709551616 \<Longrightarrow>
   unat (of_nat (length outs) - 1 :: size_t) = length outs - 1"
proof -
  assume a: "outs \<noteq> []" "length outs < 18446744073709551616"
  then have u: "unat (of_nat (length outs) :: size_t) = length outs"
    by (simp add: unat_of_nat take_bit_eq_mod)
  have "(1 :: size_t) \<le> of_nat (length outs)"
    using a(1) by (simp add: word_le_unat u Suc_le_eq)
  then show ?thesis by (simp add: unat_minus64 u)
qed

lemma tee_branches_push:
  assumes ports: "tee_ports outs dws drs"
  shows "unat i \<le> length outs - 1 \<Longrightarrow>
    tee_branches ur src_r outs dws drs t p i k s =
      (case push_list ur (concat (map (tee_branch src_r outs dws drs t p) [unat i..<length outs - 1])) s of
         (Inl e, s') \<Rightarrow> (Inl e, s')
       | (Inr _, s') \<Rightarrow> (Inr (k + 2 * (length outs - 1 - unat i)), s'))"
proof (induction "length outs - 1 - unat i" arbitrary: i k s)
  case 0
  have "unat (of_nat (length outs) - 1 :: size_t) = length outs - 1"
    using ports by (simp add: tee_ports_def unat_last_index)
  with 0 have "\<not> i < of_nat (length outs) - 1" by (simp add: word_less_unat)
  with 0 show ?case by (subst tee_branches.simps) simp
next
  case (Suc m)
  have bound: "unat (of_nat (length outs) - 1 :: size_t) = length outs - 1"
    using ports by (simp add: tee_ports_def unat_last_index)
  have i: "unat i < length outs - 1" using Suc.hyps(2) by linarith
  then have lt: "i < of_nat (length outs) - 1" by (simp add: word_less_unat bound)
  have len: "length outs < 18446744073709551616" "unat i < length dws" "unat i < length drs" "unat i < length outs"
    using ports i by (auto simp: tee_ports_def)
  then have i1: "unat (i + 1) = Suc (unat i)" using i by (simp add: unat_plus64)
  have upt: "[unat i..<length outs - 1] = unat i # [unat (i + 1)..<length outs - 1]"
    using i by (simp add: i1 upt_conv_Cons)
  have IH: "tee_branches ur src_r outs dws drs t p (i + 1) k s =
      (case push_list ur (concat (map (tee_branch src_r outs dws drs t p) [unat (i + 1)..<length outs - 1])) s of
         (Inl e, s') \<Rightarrow> (Inl e, s')
       | (Inr _, s') \<Rightarrow> (Inr (k + 2 * (length outs - 1 - unat (i + 1))), s'))" for k s
    using Suc.hyps(2) i by (intro Suc.hyps(1)) (simp_all add: i1)
  have k: "k + 2 + 2 * (length outs - 1 - Suc (unat i)) = k + 2 * (length outs - 1 - unat i)"
    using i by linarith
  show ?case
    by (subst tee_branches.simps, simp only: lt if_True index_at_simps len upt list.map concat.simps
        push_list_append tee_branch_def push_list.simps IH i1 k sum.case prod.case)
       (auto split: prod.splits sum.splits)
qed

lemma tee_chunk_push:
  assumes ports: "tee_ports outs dws drs"
  shows "tee_chunk ur src src_w src_r outs dws drs t p s =
    (case push_list ur (tee_chain src src_w src_r outs dws drs t p) s of
       (Inl e, s') \<Rightarrow> (Inl e, s')
     | (Inr _, s') \<Rightarrow> (Inr (2 * length outs), s'))"
proof -
  have n: "Suc (Suc (2 * (length outs - 1))) = 2 * length outs" "outs \<noteq> []"
    using ports by (cases outs; simp add: tee_ports_def)+
  show ?thesis
    unfolding tee_chunk_def tee_chain_def
    using n by (simp add: tee_branches_push [OF ports] push_list_append split: prod.splits sum.splits)
qed

lemma length_tee_chain: "outs \<noteq> [] \<Longrightarrow> length (tee_chain src src_w src_r outs dws drs t p) = 2 * length outs"
proof -
  assume a: "outs \<noteq> []"
  have "length (concat (map (tee_branch src_r outs dws drs t p) is)) = 2 * length is" for "is"
    by (induction "is") (simp_all add: tee_branch_def)
  with a show ?thesis by (cases outs) (simp_all add: tee_chain_def)
qed

text \<open>The bytes a chain's completions account for: the piece once per output.\<close>

lemma tee_chain_data:
  assumes "outs \<noteq> []"
  shows "sum_list (map sq_data (tee_chain src src_w src_r outs dws drs t p)) = of_nat (length outs) * p"
proof -
  have b: "sum_list (map sq_data (concat (map (tee_branch src_r outs dws drs t p) is))) = of_nat (length is) * p" for "is"
    by (induction "is") (simp_all add: tee_branch_def algebra_simps)
  obtain n where "length outs = Suc n" using assms by (cases outs) auto
  then show ?thesis by (simp add: tee_chain_def b algebra_simps)
qed

lemma tee_reap_all:
  "(\<forall>c \<in> set cs. 0 \<le> cq_res c) \<Longrightarrow>
   tee_reap cs m k = (m + sum_list (map cq_data cs), k + length cs)"
  by (induction cs arbitrary: m k) (auto simp: word_gt_0)

text \<open>
  A pass of the loop with the ring empty before it: the chain is submitted, all of its
  completions are consumed, and the ring is empty again.
\<close>

lemma tee_pass_ring:
  assumes laws: "uring_laws ur view" "submits_all ur view"
    and ports: "tee_ports outs dws drs" and room: "2 * length outs \<le> N"
    and idle: "ring_idle N view s"
  obtains s1 r s2 where
    "push_list ur (tee_chain src src_w src_r outs dws drs t p) s = (Inr (), s1)"
    "view s1 = view_push (tee_chain src src_w src_r outs dws drs t p) (view s)"
    "tee_chunk ur src src_w src_r outs dws drs t p s = (Inr (2 * length outs), s1)"
    "ur_submit_and_wait ur (2 * length outs) s1 = (r, s2)"
    "mset (map cq_data (ur_ready ur s2)) = mset (map sq_data (tee_chain src src_w src_r outs dws drs t p))"
    "ring_idle N view (ur_cq_advance ur (length (ur_ready ur s2)) s2)"
    "rv_batches (view (ur_cq_advance ur (length (ur_ready ur s2)) s2)) =
       rv_batches (view s) @ [tee_chain src src_w src_r outs dws drs t p]"
    "rv_drained (view (ur_cq_advance ur (length (ur_ready ur s2)) s2)) = rv_drained (view s) @ [True]"
proof -
  let ?ch = "tee_chain src src_w src_r outs dws drs t p"
  have ne: "outs \<noteq> []" using ports by (simp add: tee_ports_def)
  have "length (rv_pending (view s)) + length ?ch \<le> rv_entries (view s)"
    using idle room by (simp add: ring_idle_def length_tee_chain [OF ne])
  from push_list_room [OF uring_lawsD(2) [OF laws(1)] this] obtain s1 where
    s1: "push_list ur ?ch s = (Inr (), s1)" "view s1 = view_push ?ch (view s)" by blast
  obtain r s2 where s2: "ur_submit_and_wait ur (2 * length outs) s1 = (r, s2)" by fastforce
  let ?cs = "ur_ready ur s2"
  have v2: "rv_pending (view s2) = []" "rv_entries (view s2) = N"
    "rv_batches (view s2) = rv_batches (view s) @ [?ch]"
    "rv_outstanding (view s2) = mset (map sq_data ?ch)"
    "rv_drained (view s2) = rv_drained (view s) @ [True]"
    using submits_allD(2) [OF laws(1,2) s2] s1(2) idle
    by (simp_all add: ring_idle_def length_tee_chain [OF ne])
  have ready: "2 * length outs \<le> length ?cs"
    using submits_allD(2) [OF laws(1,2) s2] v2(4) by (simp add: length_tee_chain [OF ne])
  have sub: "mset (map cq_data ?cs) \<subseteq># mset (map sq_data ?ch)"
    using uring_lawsD(6) [OF laws(1), unfolded ready_law_def, rule_format, of s2] unfolding v2(4) by blast
  have all: "mset (map cq_data ?cs) = mset (map sq_data ?ch)"
  proof (rule subset_mset.antisym [OF sub])
    have "size (mset (map sq_data ?ch)) \<le> size (mset (map cq_data ?cs))"
      using ready by (simp add: length_tee_chain [OF ne])
    with sub show "mset (map sq_data ?ch) \<subseteq># mset (map cq_data ?cs)"
      by (metis mset_subset_size subset_mset.le_less leD subset_mset.order_refl)
  qed
  have adv: "view (ur_cq_advance ur (length ?cs) s2) = view_consume (mset (map cq_data ?cs)) (view s2)"
    using uring_lawsD(6) [OF laws(1)] by (simp add: ready_law_def)
  show thesis
    by (rule that [OF s1 _ s2 all])
       (simp_all add: tee_chunk_push [OF ports] s1(1) adv ring_idle_def v2 all [unfolded mset_map])
qed

lemma tee_pass:
  assumes laws: "uring_laws ur view" "submits_all ur view" "requests_succeed ur"
    and ports: "tee_ports outs dws drs" and room: "2 * length outs \<le> N"
    and idle: "ring_idle N view s"
  obtains s1 r s2 where
    "tee_chunk ur src src_w src_r outs dws drs t p s = (Inr (2 * length outs), s1)"
    "ur_submit_and_wait ur (2 * length outs) s1 = (r, s2)"
    "tee_reap (ur_ready ur s2) m 0 = (m + of_nat (length outs) * p, length (ur_ready ur s2))"
    "ring_idle N view (ur_cq_advance ur (length (ur_ready ur s2)) s2)"
    "rv_batches (view (ur_cq_advance ur (length (ur_ready ur s2)) s2)) =
       rv_batches (view s) @ [tee_chain src src_w src_r outs dws drs t p]"
    "rv_drained (view (ur_cq_advance ur (length (ur_ready ur s2)) s2)) = rv_drained (view s) @ [True]"
proof (rule tee_pass_ring [OF laws(1,2) ports room idle, of src src_w src_r t p])
  fix s1 r s2
  let ?cs = "ur_ready ur s2" and ?ch = "tee_chain src src_w src_r outs dws drs t p"
  assume pass: "tee_chunk ur src src_w src_r outs dws drs t p s = (Inr (2 * length outs), s1)"
    "ur_submit_and_wait ur (2 * length outs) s1 = (r, s2)"
    "mset (map cq_data ?cs) = mset (map sq_data ?ch)"
    "ring_idle N view (ur_cq_advance ur (length ?cs) s2)"
    "rv_batches (view (ur_cq_advance ur (length ?cs) s2)) = rv_batches (view s) @ [?ch]"
    "rv_drained (view (ur_cq_advance ur (length ?cs) s2)) = rv_drained (view s) @ [True]"
  have ne: "outs \<noteq> []" using ports by (simp add: tee_ports_def)
  have "sum_list (map cq_data ?cs) = sum_list (map sq_data ?ch)"
    using pass(3) by (metis sum_mset_sum_list)
  then have "tee_reap ?cs m 0 = (m + of_nat (length outs) * p, length ?cs)"
    using laws(3) by (simp add: requests_succeed_def tee_reap_all tee_chain_data [OF ne])
  then show thesis by (rule that [OF pass(1,2) _ pass(4-6)])
qed

lemma tee_loop_runs:
  assumes laws: "uring_laws ur view" "submits_all ur view" "requests_succeed ur"
    and ports: "tee_ports outs dws drs" and room: "2 * length outs \<le> N"
  shows "unat t \<le> unat sz \<Longrightarrow> ring_idle N view s \<Longrightarrow>
    \<exists>s'. tee_loop ur src src_w src_r outs dws drs sz t m s =
        (Inr (m + of_nat (length outs) * (sz - t)), s') \<and>
      rv_batches (view s') = rv_batches (view s) @
        map (\<lambda>(q, l). tee_chain src src_w src_r outs dws drs (of_nat q) (of_nat l))
          (plan 262144 (unat sz) (unat t)) \<and>
      rv_drained (view s') = rv_drained (view s) @
        replicate (length (plan 262144 (unat sz) (unat t))) True"
proof (induction "unat (sz - t)" arbitrary: t m s rule: less_induct)
  case less
  show ?case
  proof (cases "t < sz")
    case False
    with less.prems(1) have "t = sz" by (simp add: word_less_unat word_unat_eq_iff)
    then show ?thesis by (subst tee_loop.simps) simp
  next
    case True
    let ?p = "tee_to_process sz t"
    have lt: "unat t < unat sz" using True by (simp add: word_less_unat)
    from tee_pass [OF laws ports room less.prems(2)] obtain s1 r s2 where
      pass: "tee_chunk ur src src_w src_r outs dws drs t ?p s = (Inr (2 * length outs), s1)"
      "ur_submit_and_wait ur (2 * length outs) s1 = (r, s2)"
      "tee_reap (ur_ready ur s2) m 0 = (m + of_nat (length outs) * ?p, length (ur_ready ur s2))"
      "ring_idle N view (ur_cq_advance ur (length (ur_ready ur s2)) s2)"
      "rv_batches (view (ur_cq_advance ur (length (ur_ready ur s2)) s2)) =
         rv_batches (view s) @ [tee_chain src src_w src_r outs dws drs t ?p]"
      "rv_drained (view (ur_cq_advance ur (length (ur_ready ur s2)) s2)) = rv_drained (view s) @ [True]"
      by metis
    let ?s3 = "ur_cq_advance ur (length (ur_ready ur s2)) s2"
    have step: "tee_loop ur src src_w src_r outs dws drs sz t m s =
        tee_loop ur src src_w src_r outs dws drs sz (t + ?p) (m + of_nat (length outs) * ?p) ?s3"
      using True pass(1-3) by (subst tee_loop.simps) (simp add: Let_def)
    have sum: "m + of_nat (length outs) * ?p + of_nat (length outs) * (sz - (t + ?p)) =
        m + of_nat (length outs) * (sz - t)" by (simp add: algebra_simps)
    from less.hyps [OF tee_progress [OF True] tee.advance_le [OF lt] pass(4),
        of "m + of_nat (length outs) * ?p", unfolded sum]
    show ?thesis unfolding step by (simp add: pass(5,6) tee.plan_unfold [OF lt])
  qed
qed

section \<open>Properties\<close>

text \<open>
  C39: what survives the packing of \<open>pack_data\<close>: the descriptor modulo 16, the size modulo
  \<open>2 ^ 20\<close> and the offset modulo \<open>2 ^ 40\<close>. So the round trip is exact below those bounds,
  and a size of exactly 1 MiB, which the comment admits, comes back as 0.
\<close>

theorem pack_data_fields:
  "unpack_fd (pack_data fd offset sz) = fd mod 16 \<and>
   unpack_size (pack_data fd offset sz) = sz mod 1048576 \<and>
   unpack_offset (pack_data fd offset sz) = offset mod 1099511627776"
proof -
  have m: "(0xF :: uintptr) = mask 4" "(0xFFFFF :: uintptr) = mask 20"
    "(0xFFFFFFFFFF :: uintptr) = mask 40" by (simp_all add: mask_eq_exp_minus_1)
  let ?p = "push_bit 60 (word_of_int fd AND mask 4) OR push_bit 40 (sz AND mask 20)
    OR (offset AND mask 40) :: uintptr"
  have pk: "pack_data fd offset sz = ?p" by (simp only: pack_data_def Let_def m or.left_neutral or.assoc)
  have b1: "drop_bit 60 ?p AND mask 4 = word_of_int fd AND mask 4"
    by (rule bit_word_eqI) (auto simp: bit_simps)
  have b2: "drop_bit 40 ?p AND mask 20 = sz AND mask 20"
    by (rule bit_word_eqI) (auto simp: bit_simps)
  have b3: "?p AND mask 40 = offset AND mask 40"
    by (rule bit_word_eqI) (auto simp: bit_simps)
  have b4: "uint (word_of_int fd AND mask 4 :: uintptr) = fd mod 16"
  proof -
    have "0 \<le> fd mod 16" "fd mod 16 < 16" by simp_all
    then have "fd mod 16 mod 18446744073709551616 = fd mod 16" by (intro mod_pos_pos_trivial) simp_all
    then show ?thesis by (simp add: and_mask_wi uint_word_of_int take_bit_eq_mod)
  qed
  have b5: "w AND mask n = w mod 2 ^ n" for w :: uintptr and n
    by (simp only: take_bit_eq_mask [symmetric] take_bit_eq_mod)
  have "unpack_fd (pack_data fd offset sz) = fd mod 16"
    by (simp only: unpack_fd_def pk m(1) b1 b4)
  moreover have "unpack_size (pack_data fd offset sz) = sz AND mask 20"
    by (simp only: unpack_size_def pk m(2) b2)
  moreover have "unpack_offset (pack_data fd offset sz) = offset AND mask 40"
    by (simp only: unpack_offset_def pk m(3) b3)
  ultimately show ?thesis by (simp add: b5)
qed

text \<open>The whole run, as batches: every one is submitted to a drained ring.\<close>

lemma tee_broadcast_runs:
  assumes "uring_laws ur view" "init_succeeds ur" "submits_all ur view" "requests_succeed ur"
    and "tee_ports outs dws drs" and "length outs \<le> 512"
    and sz: "get_file_size fstat blk src = sz"
  shows "\<exists>s'. perform_tee_broadcast ur fstat blk src src_w src_r outs dws drs s =
      (Inr (of_nat (length outs) * sz), s') \<and>
    rv_batches (view s') = rv_batches (view s) @
      map (\<lambda>(q, l). tee_chain src src_w src_r outs dws drs (of_nat q) (of_nat l))
        (plan 262144 (unat sz) 0) \<and>
    rv_drained (view s') = rv_drained (view s) @ replicate (length (plan 262144 (unat sz) 0)) True"
proof -
  obtain r s1 where i: "ur_init ur 1024 s = (r, s1)" and r: "0 \<le> r"
    and idle: "ring_idle 1024 view s1" "rv_batches (view s1) = rv_batches (view s)"
    using init_idle [OF assms(1,2), of 10] by auto
  have drained: "rv_drained (view s1) = rv_drained (view s)"
    using init_drained [OF assms(1,2), of 10 s r s1] i by simp
  have "2 * length outs \<le> 1024" "unat (0 :: size_t) \<le> unat sz" using assms(6) by simp_all
  from tee_loop_runs [OF assms(1,3,4,5) this idle(1), of src src_w src_r 0] obtain s2 where
    "tee_loop ur src src_w src_r outs dws drs sz 0 0 s1 = (Inr (of_nat (length outs) * sz), s2)"
    "rv_batches (view s2) = rv_batches (view s) @
      map (\<lambda>(q, l). tee_chain src src_w src_r outs dws drs (of_nat q) (of_nat l))
        (plan 262144 (unat sz) 0)"
    "rv_drained (view s2) = rv_drained (view s) @ replicate (length (plan 262144 (unat sz) 0)) True"
    using idle(2) drained by auto
  then show ?thesis
    using i r exit_batches [OF assms(1)] exit_drained [OF assms(1)] by (simp add: perform_tee_broadcast_def sz)
qed

text \<open>
  The tee broadcast reads the file once and accounts for every byte of it once per
  output. With a ring that behaves as documented and no failing request, and at most 512
  outputs, it returns the number of outputs times the file size, and what it submits is, for
  each 256 KiB piece in order, exactly the chain of the piece, as one submission, made when
  every request of the pieces before has completed.
\<close>

lemma tee_broadcast_submits:
  assumes "uring_laws ur view" "init_succeeds ur" "submits_all ur view" "requests_succeed ur"
    and "tee_ports outs dws drs" and "length outs \<le> 512"
    and "get_file_size fstat blk src = sz"
  shows "\<exists>s'. perform_tee_broadcast ur fstat blk src src_w src_r outs dws drs s =
      (Inr (of_nat (length outs) * sz), s') \<and>
    rv_batches (view s') = rv_batches (view s) @
      map (\<lambda>(q, l). tee_chain src src_w src_r outs dws drs (of_nat q) (of_nat l))
        (plan 262144 (unat sz) 0) \<and>
    rv_drained (view s') = rv_drained (view s) @ replicate (length (plan 262144 (unat sz) 0)) True"
  by (rule tee_broadcast_runs [OF assms])

lemma tee_broadcast_submits_witness:
  "\<exists>s'. perform_tee_broadcast (sim_uring (\<lambda>e. 1)) (fixed_fstat 300000) Map.empty 3 10 11 [5, 6] [20] [21]
      sim_start = (Inr 600000, s') \<and>
    map (map sq_op) (sim_batches s') =
      [[Op_splice 3 0 10 (-1) 262144 4, Op_tee 11 20 262144 0, Op_splice 21 (-1) 5 0 262144 4,
       Op_splice 11 (-1) 6 0 262144 4],
       [Op_splice 3 262144 10 (-1) 37856 4, Op_tee 11 20 37856 0, Op_splice 21 (-1) 5 262144 37856 4,
       Op_splice 11 (-1) 6 262144 37856 4]]"
proof -
  have p: "plan 262144 (unat (300000 :: off_t)) 0 = [(0, 262144), (262144, 37856)]"
    by (simp add: plan_step)
  have ok: "requests_succeed (sim_uring (\<lambda>e :: uintptr sqe. 1))" by (rule sim_requests_succeed) simp
  have ports: "tee_ports [5, 6] [20] [21]" by (simp add: tee_ports_def)
  have l: "length [5, 6 :: c_int] \<le> 512" by simp
  from tee_broadcast_submits [OF sim_uring_laws sim_uring_ok(1,2) ok ports l
      fixed_fstat_size [of 300000 Map.empty 3], where s = sim_start and src_w = 10 and src_r = 11]
  show ?thesis
    unfolding p by (auto simp: sim_view_def sim_start_def tee_chain_def tee_branch_def SPLICE_F_MORE_def)
qed

text \<open>
  C38: more than 512 outputs do not fit. A chain of a non-empty file needs \<open>2 n\<close> entries of
  the 1024-entry ring; beyond 512 outputs \<open>io_uring_get_sqe\<close> returns null in the first piece
  and the code writes through it.
\<close>

theorem tee_broadcast_overflows:
  assumes "uring_laws ur view" "init_succeeds ur" and "tee_ports outs dws drs" "512 < length outs"
    and "0 < get_file_size fstat blk src"
  shows "\<exists>s'. perform_tee_broadcast ur fstat blk src src_w src_r outs dws drs s = (Inl Null_deref, s')"
proof -
  obtain r s1 where i: "ur_init ur 1024 s = (r, s1)" and r: "0 \<le> r"
    and idle: "ring_idle 1024 view s1" "rv_batches (view s1) = rv_batches (view s)"
    using init_idle [OF assms(1,2), of 10] by auto
  have v1: "rv_pending (view s1) = []" "rv_entries (view s1) = 1024"
    using idle by (simp_all add: ring_idle_def)
  have ne: "outs \<noteq> []" using assms(4) by auto
  have "\<exists>s'. push_list ur (tee_chain src src_w src_r outs dws drs t p) s1 = (Inl Null_deref, s')" for t p
    using assms(4) by (intro push_list_full [OF uring_lawsD(2) [OF assms(1)]])
      (simp_all add: v1 length_tee_chain [OF ne])
  then obtain s2 where "push_list ur (tee_chain src src_w src_r outs dws drs 0
      (tee_to_process (get_file_size fstat blk src) 0)) s1 = (Inl Null_deref, s2)" by blast
  then have "tee_loop ur src src_w src_r outs dws drs (get_file_size fstat blk src) 0 0 s1 = (Inl Null_deref, s2)"
    using assms(5) by (subst tee_loop.simps) (simp add: Let_def tee_chunk_push [OF assms(3)])
  with i r show ?thesis by (simp add: perform_tee_broadcast_def)
qed

theorem tee_broadcast_overflows_witness:
  "\<exists>s'. perform_tee_broadcast (sim_uring (\<lambda>e. 1)) (fixed_fstat 1) Map.empty 3 10 11
     (replicate 513 5) (replicate 512 20) (replicate 512 21) sim_start = (Inl Null_deref, s')"
  by (rule tee_broadcast_overflows [OF sim_uring_laws sim_uring_ok(1)]) (simp_all add: tee_ports_def)

text \<open>
  No outputs. With an empty span the bound \<open>output_files.size() - 1\<close> wraps around, and the
  first iteration indexes the empty span of pipes.
\<close>

lemma tee_broadcast_no_outputs:
  assumes "uring_laws ur view" "init_succeeds ur" and "0 < get_file_size fstat blk src"
  shows "\<exists>s'. perform_tee_broadcast ur fstat blk src src_w src_r [] [] drs s = (Inl Out_of_bounds, s')"
proof -
  obtain r s1 where i: "ur_init ur 1024 s = (r, s1)" and r: "0 \<le> r"
    and idle: "ring_idle 1024 view s1" "rv_batches (view s1) = rv_batches (view s)"
    using init_idle [OF assms(1,2), of 10] by auto
  have v1: "length (rv_pending (view s1)) < rv_entries (view s1)"
    using idle by (simp add: ring_idle_def)
  let ?p = "tee_to_process (get_file_size fstat blk src) 0"
  from push_unchecked_room [OF uring_lawsD(2) [OF assms(1)] v1,
      of "\<lparr>sq_op = Op_splice src 0 src_w (-1) (ucast ?p) SPLICE_F_MORE, sq_link = True, sq_data = 0\<rparr>"]
  obtain s2 where "push_unchecked ur
      \<lparr>sq_op = Op_splice src 0 src_w (-1) (ucast ?p) SPLICE_F_MORE, sq_link = True, sq_data = 0\<rparr> s1 = (Inr (), s2)"
    by blast
  then have "tee_chunk ur src src_w src_r [] [] drs 0 ?p s1 = (Inl Out_of_bounds, s2)"
    unfolding tee_chunk_def by (subst tee_branches.simps) (simp add: word_gt_0)
  then have "tee_loop ur src src_w src_r [] [] drs (get_file_size fstat blk src) 0 0 s1 = (Inl Out_of_bounds, s2)"
    using assms(3) by (subst tee_loop.simps) (simp add: Let_def)
  with i r show ?thesis by (simp add: perform_tee_broadcast_def)
qed

lemma tee_broadcast_no_outputs_witness:
  "\<exists>s'. perform_tee_broadcast (sim_uring (\<lambda>e. 1)) (fixed_fstat 1) Map.empty 3 10 11 [] [] [] sim_start
     = (Inl Out_of_bounds, s')"
  by (rule tee_broadcast_no_outputs [OF sim_uring_laws sim_uring_ok(1)]) simp

lemma process_loop_value:
  "process_loop cs k =
     (if \<exists>c \<in> set cs. cq_res c < 0 \<and> cq_res c \<noteq> - ECANCELED \<and> cq_res c \<noteq> - EAGAIN then None
      else Some (k + length (filter (\<lambda>c. 0 \<le> cq_res c) cs)))"
  by (induction cs arbitrary: k) (auto simp: errno_defs)

text \<open>
  \<open>process_cqes\<close> reports no data: it returns 0 whatever has completed. If one of the ready
  completions is an error other than a cancellation or a retry it consumes none of them;
  otherwise it consumes only as many as were neither, so each of those that were skipped
  leaves a completion unconsumed in the queue.
\<close>

lemma process_cqes_effect:
  "process_cqes ur s =
     (0, if \<exists>c \<in> set (ur_ready ur s). cq_res c < 0 \<and> cq_res c \<noteq> - ECANCELED \<and> cq_res c \<noteq> - EAGAIN then s
         else ur_cq_advance ur (length (filter (\<lambda>c. 0 \<le> cq_res c) (ur_ready ur s))) s)"
  unfolding process_cqes_def process_loop_value by (auto simp: Let_def)

end
