(* ===== verification/Tee_Run.thy ===== *)
theory Tee_Run
  imports Tee Uring_Exec
begin

text \<open>
  The tee mode to the end: what the chains submitted by \<open>perform_tee_broadcast\<close> do to the
  files. Each chain is one linked sequence and is submitted to a drained ring, so there is one
  order of execution; a chain leaves its pipes as empty as it found them.
\<close>

section \<open>The effect of a chain\<close>

text \<open>How the descriptors are wired: the two ends of a pipe share it, files are no pipes.\<close>

definition tee_wired :: "pipe_ends \<Rightarrow> nat \<Rightarrow> c_int \<Rightarrow> c_int \<Rightarrow> c_int \<Rightarrow> c_int list \<Rightarrow> c_int list \<Rightarrow> c_int list \<Rightarrow> bool" where
  "tee_wired pipe_of p0 src src_w src_r outs dws drs \<longleftrightarrow>
     pipe_of src = None \<and> pipe_of src_w = Some p0 \<and> pipe_of src_r = Some p0 \<and>
     (\<forall>i < length outs - 1. pipe_of (dws ! i) \<noteq> None \<and> pipe_of (dws ! i) \<noteq> Some p0 \<and>
        pipe_of (drs ! i) = pipe_of (dws ! i)) \<and>
     (\<forall>out \<in> set outs. pipe_of out = None) \<and> src \<notin> set outs \<and> distinct outs"

text \<open>The pipes of the wiring that a chain needs empty.\<close>

definition tee_empty :: "pipe_ends \<Rightarrow> nat \<Rightarrow> c_int list \<Rightarrow> c_int list \<Rightarrow> world \<Rightarrow> bool" where
  "tee_empty pipe_of p0 outs dws w \<longleftrightarrow>
     wd_pipes w p0 = [] \<and> (\<forall>i < length outs - 1. wd_pipes w (the (pipe_of (dws ! i))) = [])"

definition write_all :: "c_int list \<Rightarrow> nat \<Rightarrow> byte list \<Rightarrow> world \<Rightarrow> world" where
  "write_all outs q d = fold (\<lambda>out. file_write out q d) outs"

lemma write_all_files:
  "distinct outs \<Longrightarrow> wd_files (write_all outs q d w) g =
     (if g \<in> set outs then write_at (wd_files w g) q d else wd_files w g)"
  by (induction outs arbitrary: w) (auto simp: write_all_def)

lemma write_all_others [simp]:
  "wd_pipes (write_all outs q d w) = wd_pipes w" "wd_mem (write_all outs q d w) = wd_mem w"
  by (induction outs arbitrary: w) (simp_all add: write_all_def)

lemma file_write_pipe_put: "file_write out q d (pipe_put p e w) = pipe_put p e (file_write out q d w)"
  by (simp add: file_write_def pipe_put_def)

lemma write_all_pipe_put: "write_all outs q d (pipe_put p e w) = pipe_put p e (write_all outs q d w)"
  unfolding write_all_def by (induction outs arbitrary: w) (simp_all add: file_write_pipe_put)

lemma unat_piece_len: "l \<le> 262144 \<Longrightarrow> unat (ucast (of_nat l :: size_t) :: 32 word) = l"
  by (simp add: unsigned_ucast_eq unat_of_nat take_bit_eq_mod)

lemma unat_piece_off: "q < 18446744073709551616 \<Longrightarrow> unat (of_nat q :: off_t) = q"
  by (simp add: unat_of_nat take_bit_eq_mod)

text \<open>A branch copies the piece in the source pipe to its output, through its own pipe.\<close>

lemma tee_branch_run:
  assumes law: "exec_law exec look pipe_of cap" and cap: "262144 \<le> cap"
    and wired: "tee_wired pipe_of p0 src src_w src_r outs dws drs" and i: "i < length outs - 1"
    and ql: "q < 18446744073709551616" "l \<le> 262144"
    and w: "wd_pipes (look w) p0 = d" "length d = l" "wd_pipes (look w) (the (pipe_of (dws ! i))) = []"
  shows "look (run_all exec (tee_branch src_r outs dws drs (of_nat q) (of_nat l) i) w) =
    file_write (outs ! i) q d (look w)"
proof -
  obtain pi where pi: "pipe_of (dws ! i) = Some pi" "pi \<noteq> p0" "pipe_of (drs ! i) = Some pi"
    using wired i unfolding tee_wired_def by fastforce
  have ends: "pipe_of src_r = Some p0" "pipe_of (outs ! i) = None"
    using wired i by (simp_all add: tee_wired_def)
  note n = unat_piece_len [OF ql(2)] unat_piece_off [OF ql(1)]
  let ?tee = "Op_tee src_r (dws ! i) (ucast (of_nat l :: size_t)) 0"
  let ?out = "Op_splice (drs ! i) (-1) (outs ! i) (of_nat q) (ucast (of_nat l :: size_t)) SPLICE_F_MORE"
  have "look (exec ?tee w) = effect pipe_of ?tee (look w)"
    by (rule exec_lawD [OF law]) (use w pi ends cap ql(2) n in simp)
  then have w1: "look (exec ?tee w) = pipe_put pi d (look w)" using w pi ends n by simp
  have "look (exec ?out (exec ?tee w)) = effect pipe_of ?out (look (exec ?tee w))"
    by (rule exec_lawD [OF law]) (use w pi ends n w1 in simp)
  then have "look (exec ?out (exec ?tee w)) =
      pipe_drop pi l (file_write (outs ! i) q d (pipe_put pi d (look w)))"
    using w pi ends n w1 by simp
  also have "\<dots> = file_write (outs ! i) q d (look w)"
    using w pi(1) by (simp add: pipe_drop_def file_write_def pipe_put_def fun_upd_idem)
  finally show ?thesis by (simp add: tee_branch_def)
qed

lemma tee_branches_run:
  assumes law: "exec_law exec look pipe_of cap" and cap: "262144 \<le> cap"
    and wired: "tee_wired pipe_of p0 src src_w src_r outs dws drs"
    and ql: "q < 18446744073709551616" "l \<le> 262144"
    and w: "wd_pipes (look w) p0 = d" "length d = l"
      "\<forall>i < length outs - 1. wd_pipes (look w) (the (pipe_of (dws ! i))) = []"
  shows "m \<le> length outs - 1 \<Longrightarrow>
    look (run_all exec (concat (map (tee_branch src_r outs dws drs (of_nat q) (of_nat l)) [0..<m])) w) =
    write_all (take m outs) q d (look w)"
proof (induction m)
  case 0
  then show ?case by (simp add: write_all_def)
next
  case (Suc m)
  let ?w = "run_all exec (concat (map (tee_branch src_r outs dws drs (of_nat q) (of_nat l)) [0..<m])) w"
  have IH: "look ?w = write_all (take m outs) q d (look w)" using Suc by simp
  have m: "m < length outs - 1" using Suc.prems by simp
  have "look (run_all exec (tee_branch src_r outs dws drs (of_nat q) (of_nat l) m) ?w) =
      file_write (outs ! m) q d (look ?w)"
    by (rule tee_branch_run [OF law cap wired m ql]) (use w m in \<open>simp_all add: IH\<close>)
  then show ?case
    using m by (simp add: run_all_append IH write_all_def take_Suc_conv_app_nth)
qed

lemma tee_chain_run:
  assumes law: "exec_law exec look pipe_of cap" and cap: "262144 \<le> cap"
    and wired: "tee_wired pipe_of p0 src src_w src_r outs dws drs" and ne: "outs \<noteq> []"
    and ql: "q < 18446744073709551616" "l \<le> 262144" "q + l \<le> length (wd_files (look w) src)"
    and w: "tee_empty pipe_of p0 outs dws (look w)"
  shows "look (run_all exec (tee_chain src src_w src_r outs dws drs (of_nat q) (of_nat l)) w) =
    write_all outs q (piece q l (wd_files (look w) src)) (look w)"
proof -
  let ?d = "piece q l (wd_files (look w) src)"
  have d: "length ?d = l" using ql(3) by (rule length_piece)
  have ends: "pipe_of src = None" "pipe_of src_w = Some p0" "pipe_of src_r = Some p0" "pipe_of (last outs) = None"
    "\<forall>i < length outs - 1. the (pipe_of (dws ! i)) \<noteq> p0"
    using wired ne by (auto simp: tee_wired_def)
  have empty: "wd_pipes (look w) p0 = []" "\<forall>i < length outs - 1. wd_pipes (look w) (the (pipe_of (dws ! i))) = []"
    using w by (simp_all add: tee_empty_def)
  note n = unat_piece_len [OF ql(2)] unat_piece_off [OF ql(1)]
  let ?in = "Op_splice src (of_nat q) src_w (-1) (ucast (of_nat l :: size_t)) SPLICE_F_MORE"
  let ?last = "Op_splice src_r (-1) (last outs) (of_nat q) (ucast (of_nat l :: size_t)) SPLICE_F_MORE"
  let ?w1 = "exec ?in w"
  let ?w2 = "run_all exec (concat (map (tee_branch src_r outs dws drs (of_nat q) (of_nat l)) [0..<length outs - 1])) ?w1"
  have "look ?w1 = effect pipe_of ?in (look w)"
    by (rule exec_lawD [OF law]) (use ends empty cap ql(2) n in simp)
  then have w1: "look ?w1 = pipe_put p0 ?d (look w)" using ends n by simp
  have w2: "look ?w2 = write_all (take (length outs - 1) outs) q ?d (look ?w1)"
    by (rule tee_branches_run [OF law cap wired ql(1,2)]) (use w1 d empty ends(5) in auto)
  have p0: "wd_pipes (look ?w2) p0 = ?d" using w2 w1 empty(1) by simp
  have "look (exec ?last ?w2) = effect pipe_of ?last (look ?w2)"
    by (rule exec_lawD [OF law]) (use ends n p0 d in simp)
  also have "\<dots> = pipe_drop p0 l (file_write (last outs) q ?d (look ?w2))"
    using ends n p0 d by simp
  also have "file_write (last outs) q ?d (look ?w2) = write_all outs q ?d (pipe_put p0 ?d (look w))"
  proof -
    have "outs = take (length outs - 1) outs @ [last outs]"
      using ne by (metis append_butlast_last_id butlast_conv_take)
    then show ?thesis unfolding w2 w1 write_all_def by (metis (no_types, lifting) fold_append fold_simps comp_apply)
  qed
  also have "pipe_drop p0 l (write_all outs q ?d (pipe_put p0 ?d (look w))) = write_all outs q ?d (look w)"
  proof -
    have "pipe_drop p0 l (pipe_put p0 ?d v) = v" if "wd_pipes v p0 = []" for v
      using that d by (simp add: pipe_drop_def pipe_put_def fun_upd_idem)
    then show ?thesis using empty(1) by (simp add: write_all_pipe_put)
  qed
  finally show ?thesis by (simp add: tee_chain_def run_all_append)
qed

section \<open>All the pieces\<close>

lemma tee_pieces_run:
  assumes law: "exec_law exec look pipe_of cap" and cap: "262144 \<le> cap"
    and wired: "tee_wired pipe_of p0 src src_w src_r outs dws drs" and ne: "outs \<noteq> []"
    and len: "length bytes < 18446744073709551616"
  shows "t \<le> length bytes \<Longrightarrow> copied src outs bytes files0 t (look w) \<Longrightarrow>
    tee_empty pipe_of p0 outs dws (look w) \<Longrightarrow>
    (let w' = run_all exec (concat (map (\<lambda>(q, l). tee_chain src src_w src_r outs dws drs (of_nat q) (of_nat l))
          (plan 262144 (length bytes) t))) w
     in copied src outs bytes files0 (length bytes) (look w') \<and> tee_empty pipe_of p0 outs dws (look w'))"
proof (induction "262144 :: nat" "length bytes" t arbitrary: w rule: plan.induct)
  case (1 t)
  show ?case
  proof (cases "t < length bytes")
    case False
    with 1 show ?thesis by simp
  next
    case True
    let ?l = "min 262144 (length bytes - t)"
    let ?w1 = "run_all exec (tee_chain src src_w src_r outs dws drs (of_nat t) (of_nat ?l)) w"
    have src: "wd_files (look w) src = bytes" using "1.prems"(2) by (rule copied_src)
    have tl: "t < 18446744073709551616" "?l \<le> 262144" "t + ?l \<le> length (wd_files (look w) src)"
      using True len src by simp_all
    have w1: "look ?w1 = write_all outs t (piece t ?l bytes) (look w)"
      using tee_chain_run [OF law cap wired ne tl "1.prems"(3)] by (simp only: src)
    have dist: "distinct outs" "src \<notin> set outs" using wired by (simp_all add: tee_wired_def)
    have "copied src outs bytes files0 (t + ?l) (look ?w1)"
      by (rule copied_advance [OF "1.prems"(2) dist(2)]) (use True in \<open>simp_all add: w1 write_all_files dist\<close>)
    moreover have "tee_empty pipe_of p0 outs dws (look ?w1)"
      using "1.prems"(3) by (simp add: w1 tee_empty_def)
    ultimately have "(let w' = run_all exec (concat (map (\<lambda>(q, l). tee_chain src src_w src_r outs dws drs (of_nat q) (of_nat l))
          (plan 262144 (length bytes) (t + ?l)))) ?w1
       in copied src outs bytes files0 (length bytes) (look w') \<and> tee_empty pipe_of p0 outs dws (look w'))"
      by (intro "1.hyps") (use True in simp_all)
    then show ?thesis using True by (simp add: plan_step run_all_append Let_def)
  qed
qed

lemma linked_tee_chain: "linked_chain (tee_chain src src_w src_r outs dws drs t p)"
  by (auto simp: linked_chain_def tee_chain_def butlast_append tee_branch_def)

section \<open>The broadcast\<close>

text \<open>The whole call.\<close>

lemma tee_broadcast_outputs:
  assumes "uring_laws ur view" "init_succeeds ur" "submits_all ur view" "requests_succeed ur"
    and ports: "tee_ports outs dws drs" and "length outs \<le> 512"
    and "get_file_size fstat blk src = of_nat (length bytes)" and len: "length bytes < 18446744073709551616"
    and law: "exec_law exec look pipe_of cap" and cap: "262144 \<le> cap"
    and wired: "tee_wired pipe_of p0 src src_w src_r outs dws drs"
    and w: "wd_files (look w) src = bytes" "tee_empty pipe_of p0 outs dws (look w)"
  shows "\<exists>s' bs. perform_tee_broadcast ur fstat blk src src_w src_r outs dws drs s =
      (Inr (of_nat (length outs) * of_nat (length bytes)), s') \<and>
    rv_batches (view s') = rv_batches (view s) @ bs \<and>
    rv_drained (view s') = rv_drained (view s) @ replicate (length bs) True \<and>
    (\<forall>w'. runs_to exec (map (\<lambda>b. (b, True)) bs) w w' \<longrightarrow>
       (\<forall>out \<in> set outs. wd_files (look w') out = bytes @ drop (length bytes) (wd_files (look w) out)) \<and>
       (\<forall>g. g \<notin> set outs \<longrightarrow> wd_files (look w') g = wd_files (look w) g) \<and>
       tee_empty pipe_of p0 outs dws (look w'))"
proof -
  let ?bs = "map (\<lambda>(q, l). tee_chain src src_w src_r outs dws drs (of_nat q) (of_nat l))
      (plan 262144 (length bytes) 0)"
  have sz: "unat (of_nat (length bytes) :: size_t) = length bytes"
    using len by (simp add: unat_of_nat take_bit_eq_mod)
  have ne: "outs \<noteq> []" using ports by (simp add: tee_ports_def)
  have start: "copied src outs bytes (wd_files (look w)) 0 (look w)" using w(1) by (rule copied_start)
  have deliver: "(\<forall>out \<in> set outs. wd_files (look w') out = bytes @ drop (length bytes) (wd_files (look w) out)) \<and>
       (\<forall>g. g \<notin> set outs \<longrightarrow> wd_files (look w') g = wd_files (look w) g) \<and>
       tee_empty pipe_of p0 outs dws (look w')"
    if r: "runs_to exec (map (\<lambda>b. (b, True)) ?bs) w w'" for w'
  proof -
    have "w' = run_all exec (concat ?bs) w"
      by (rule drained_chains_run [OF r]) (auto simp: linked_tee_chain)
    then show ?thesis
      using tee_pieces_run [OF law cap wired ne len _ start w(2)] copied_end by (auto simp: Let_def)
  qed
  from tee_broadcast_runs [OF assms(1-7), of src_w src_r s] obtain s' where
    "perform_tee_broadcast ur fstat blk src src_w src_r outs dws drs s =
      (Inr (of_nat (length outs) * of_nat (length bytes)), s')"
    "rv_batches (view s') = rv_batches (view s) @ ?bs"
    "rv_drained (view s') = rv_drained (view s) @ replicate (length ?bs) True"
    by (auto simp: sz)
  with deliver show ?thesis by blast
qed

text \<open>
  C14: the tee broadcast delivers. With at most 512 distinct outputs, a pipe for each but the
  last, pipes of at least 256 KiB that start empty, and a kernel that carries every request
  out in full,
  the call returns outputs times size, and every run of what it submitted ends with each
  output beginning with the input's bytes (what it held beyond them is left alone), all its
  pipes empty again and every other file unchanged.
\<close>

theorem tee_broadcast_delivers:
  assumes "uring_laws ur view" "init_succeeds ur" "submits_all ur view" "requests_succeed ur"
    and ports: "tee_ports outs dws drs" and "length outs \<le> 512"
    and "get_file_size fstat blk src = of_nat (length bytes)" and len: "length bytes < 18446744073709551616"
    and law: "exec_law exec look pipe_of cap" and cap: "262144 \<le> cap"
    and wired: "tee_wired pipe_of p0 src src_w src_r outs dws drs"
    and w: "wd_files (look w) src = bytes" "tee_empty pipe_of p0 outs dws (look w)"
  shows "\<exists>s' bs. perform_tee_broadcast ur fstat blk src src_w src_r outs dws drs s =
      (Inr (of_nat (length outs) * of_nat (length bytes)), s') \<and>
    rv_batches (view s') = rv_batches (view s) @ bs \<and>
    rv_drained (view s') = rv_drained (view s) @ replicate (length bs) True \<and>
    (\<forall>w'. runs_to exec (map (\<lambda>b. (b, True)) bs) w w' \<longrightarrow>
       (\<forall>out \<in> set outs. wd_files (look w') out = bytes @ drop (length bytes) (wd_files (look w) out)) \<and>
       (\<forall>g. g \<notin> set outs \<longrightarrow> wd_files (look w') g = wd_files (look w) g) \<and>
       tee_empty pipe_of p0 outs dws (look w'))"
  using assms by (rule tee_broadcast_outputs)

definition demo_pipes :: pipe_ends where
  "demo_pipes fd = (if fd = 10 \<or> fd = 11 then Some 0 else if fd = 20 \<or> fd = 21 then Some 1 else None)"

theorem tee_broadcast_delivers_witness:
  "\<exists>s' w'. perform_tee_broadcast (sim_uring (\<lambda>e. 1)) (fixed_fstat 3) Map.empty 3 10 11 [5, 6] [20] [21]
      sim_start = (Inr 6, s') \<and>
    runs_to (effect demo_pipes) (map (\<lambda>b. (b, True)) (sim_batches s')) 
      \<lparr>wd_files = (\<lambda>fd. if fd = 3 then [7, 8, 9] else if fd = 6 then [1, 2, 3, 4] else []),
       wd_pipes = (\<lambda>p. []), wd_mem = (\<lambda>p. [])\<rparr> w' \<and>
    wd_files w' 5 = [7, 8, 9] \<and> wd_files w' 6 = [7, 8, 9, 4] \<and> wd_files w' 4 = []"
proof -
  let ?w = "\<lparr>wd_files = (\<lambda>fd. if fd = 3 then [7, 8, 9] else if fd = 6 then [1, 2, 3, 4] else []),
       wd_pipes = (\<lambda>p. []), wd_mem = (\<lambda>p. [])\<rparr> :: world"
  have ok: "requests_succeed (sim_uring (\<lambda>e :: uintptr sqe. 1))" by (rule sim_requests_succeed) simp
  have ports: "tee_ports [5, 6] [20] [21]" "length [5, 6 :: c_int] \<le> 512" by (simp_all add: tee_ports_def)
  have sz: "get_file_size (fixed_fstat 3) Map.empty 3 = of_nat (length [7, 8, 9 :: byte])"
    "length [7, 8, 9 :: byte] < 18446744073709551616"
    using fixed_fstat_size [of 3 Map.empty 3] by simp_all
  have wired: "tee_wired demo_pipes 0 3 10 11 [5, 6] [20] [21]" by (simp add: tee_wired_def demo_pipes_def)
  have w: "wd_files ?w 3 = [7, 8, 9]" "tee_empty demo_pipes 0 [5, 6] [20] ?w" by (simp_all add: tee_empty_def)
  from tee_broadcast_delivers [OF sim_uring_laws sim_uring_ok(1,2) ok ports sz
      effect_exec_law [of demo_pipes 262144] order_refl wired w, where s = sim_start]
  obtain s' where s': "perform_tee_broadcast (sim_uring (\<lambda>e. 1)) (fixed_fstat 3) Map.empty 3 10 11 [5, 6] [20] [21]
      sim_start = (Inr 6, s')"
    and all: "\<And>w'. runs_to (effect demo_pipes) (map (\<lambda>b. (b, True)) (sim_batches s')) ?w w' \<Longrightarrow>
      wd_files w' 5 = [7, 8, 9] \<and> wd_files w' 6 = [7, 8, 9, 4] \<and> wd_files w' 4 = []"
    by (auto simp: sim_view_def sim_start_def)
  obtain w' where r: "runs_to (effect demo_pipes) (map (\<lambda>b. (b, True)) (sim_batches s')) ?w w'"
    by (rule exE [OF runs_to_exists])
  from s' r all [OF r] show ?thesis by blast
qed

end
