(* ===== verification/Splice.thy ===== *)
theory Splice
  imports Uring Chunking
begin

unbundle bit_operations_syntax

text \<open>
  \<open>source/Network/broadcastSplice.hpp\<close> (mode 3): for each 256 KiB piece and each output, a
  splice from the file into the output's pipe linked to a splice from the pipe into the
  output. Requests are prepared in a ring of 512 entries and submitted when 512 of them are
  expected or the file ends.
\<close>

section \<open>The code\<close>

definition SPLICE_CHUNK_SIZE :: size_t where "SPLICE_CHUNK_SIZE = 256 * 1024"

definition splice_step :: "off_t \<Rightarrow> off_t \<Rightarrow> size_t" where
  "splice_step file_sz total_processed = min SPLICE_CHUNK_SIZE (file_sz - total_processed)"

lemma splice_progress:
  assumes "t <s sz"
  shows "unat (sz - (t + splice_step sz t)) < unat (sz - t)"
proof -
  have "sz - t \<noteq> 0" using assms by auto
  then have "0 < splice_step sz t"
    by (simp add: splice_step_def SPLICE_CHUNK_SIZE_def word_gt_0)
  then show ?thesis by (rule advance_shrinks) (simp add: splice_step_def)
qed

text \<open>
  \<open>prepare_splice\<close>, the one-output variant: the request that empties the pipe is prepared
  before the one that fills it, and no entry is checked.
\<close>

function prepare_splice_loop :: "(uintptr, 's) uring \<Rightarrow> c_int \<Rightarrow> c_int \<Rightarrow> c_int \<Rightarrow> c_int \<Rightarrow> off_t \<Rightarrow>
    off_t \<Rightarrow> size_t \<Rightarrow> 's \<Rightarrow> (cpp_error + size_t) \<times> 's" where
  "prepare_splice_loop ur inp out pipe_r pipe_w file_sz total_processed sqe_count s =
     (if total_processed <s file_sz then
        (let to_splice = splice_step file_sz total_processed in
         case push_unchecked ur
                \<lparr>sq_op = Op_splice pipe_r (-1) out total_processed (ucast to_splice) SPLICE_F_MOVE,
                 sq_link = False,
                 sq_data = push_bit 32 (word_of_int out) OR (to_splice AND 0xFFFFFFFF)\<rparr> s of
           (Inl e, s1) \<Rightarrow> (Inl e, s1)
         | (Inr _, s1) \<Rightarrow>
             (case push_unchecked ur
                     \<lparr>sq_op = Op_splice inp total_processed pipe_w (-1) (ucast to_splice) SPLICE_F_MOVE,
                      sq_link = False,
                      sq_data = push_bit 32 (word_of_int out) OR (0 AND 0xFFFFFFFF)\<rparr> s1 of
                (Inl e, s2) \<Rightarrow> (Inl e, s2)
              | (Inr _, s2) \<Rightarrow>
                  prepare_splice_loop ur inp out pipe_r pipe_w file_sz
                    (total_processed + to_splice) (sqe_count + 2) s2))
      else (Inr sqe_count, s))"
  by pat_completeness auto
termination prepare_splice_loop
  by (relation "measure (\<lambda>(ur, inp, out, pr, pw, sz, t, k, s). unat (sz - t))")
     (auto simp: splice_progress)

declare prepare_splice_loop.simps [simp del]

definition prepare_splice :: "(uintptr, 's) uring \<Rightarrow> (c_int \<Rightarrow> stat option) \<Rightarrow> (c_int \<Rightarrow> 64 word option) \<Rightarrow>
    c_int \<Rightarrow> c_int \<Rightarrow> c_int \<Rightarrow> c_int \<Rightarrow> 's \<Rightarrow> (cpp_error + size_t) \<times> 's" where
  "prepare_splice ur fstat blk inp out pipe_r pipe_w s =
     prepare_splice_loop ur inp out pipe_r pipe_w (get_file_size fstat blk inp) 0 0 s"

text \<open>
  The requests of one output for one piece. \<open>packed\<close> is the byte count; the first request
  carries a null pointer.
\<close>

definition splice_read :: "c_int \<Rightarrow> c_int \<Rightarrow> off_t \<Rightarrow> size_t \<Rightarrow> uintptr sqe" where
  "splice_read src dw total_processed to_splice =
     \<lparr>sq_op = Op_splice src total_processed dw (-1) (ucast to_splice) (SPLICE_F_MOVE OR SPLICE_F_MORE),
      sq_link = True, sq_data = 0\<rparr>"

definition splice_write :: "c_int \<Rightarrow> c_int \<Rightarrow> off_t \<Rightarrow> size_t \<Rightarrow> uintptr sqe" where
  "splice_write dr out total_processed to_splice =
     \<lparr>sq_op = Op_splice dr (-1) out total_processed (ucast to_splice) SPLICE_F_MOVE,
      sq_link = False, sq_data = to_splice AND 0xFFFFFFFF\<rparr>"

text \<open>
  The loop over the outputs, \<open>n\<close> of them to go, with its two \<open>break\<close>s. \<open>expected_cqes\<close> is a
  \<open>size_t\<close> that counts prepared requests; it is a \<open>nat\<close> here.
\<close>

fun splice_outputs :: "(uintptr, 's) uring \<Rightarrow> c_int \<Rightarrow> c_int list \<Rightarrow> c_int list \<Rightarrow> c_int list \<Rightarrow>
    off_t \<Rightarrow> size_t \<Rightarrow> nat \<Rightarrow> nat \<Rightarrow> 's \<Rightarrow> (cpp_error + nat) \<times> 's" where
  "splice_outputs ur src outs dws drs total_processed to_splice 0 expected_cqes s = (Inr expected_cqes, s)"
| "splice_outputs ur src outs dws drs total_processed to_splice (Suc n) expected_cqes s =
     (let i = length outs - Suc n in
      case ur_get_sqe ur s of
        (False, s1) \<Rightarrow> (Inr expected_cqes, s1)
      | (True, s1) \<Rightarrow>
          (case index_at dws i of
             Inl e \<Rightarrow> (Inl e, s1)
           | Inr dw \<Rightarrow>
               (case ur_get_sqe ur (ur_prep ur (splice_read src dw total_processed to_splice) s1) of
                  (False, s2) \<Rightarrow> (Inr expected_cqes, s2)
                | (True, s2) \<Rightarrow>
                    (case index_at drs i of
                       Inl e \<Rightarrow> (Inl e, s2)
                     | Inr dr \<Rightarrow>
                         splice_outputs ur src outs dws drs total_processed to_splice n (expected_cqes + 2)
                           (ur_prep ur (splice_write dr (outs ! i) total_processed to_splice) s2)))))"

text \<open>The reaping loop: what is left of \<open>expected_cqes\<close>, and \<open>total_data_verified\<close>.\<close>

fun splice_reap :: "(uintptr, 's) uring \<Rightarrow> nat \<Rightarrow> size_t \<Rightarrow> 's \<Rightarrow> (cpp_error + nat \<times> size_t) \<times> 's" where
  "splice_reap ur 0 total_data_verified s = (Inr (0, total_data_verified), s)"
| "splice_reap ur (Suc expected_cqes) total_data_verified s =
     (case ur_wait_cqe ur s of
        (None, s1) \<Rightarrow> (Inl Blocks, s1)
      | (Some (Inl ret), s1) \<Rightarrow> (Inr (Suc expected_cqes, total_data_verified), s1)
      | (Some (Inr c), s1) \<Rightarrow>
          splice_reap ur expected_cqes
            (if cq_data c \<noteq> 0 \<and> 0 < cq_res c then total_data_verified + of_int (cq_res c)
             else total_data_verified)
            (ur_cqe_seen ur c s1))"

function splice_loop :: "(uintptr, 's) uring \<Rightarrow> c_int \<Rightarrow> c_int list \<Rightarrow> c_int list \<Rightarrow> c_int list \<Rightarrow>
    off_t \<Rightarrow> off_t \<Rightarrow> size_t \<Rightarrow> nat \<Rightarrow> 's \<Rightarrow> (cpp_error + size_t) \<times> 's" where
  "splice_loop ur src outs dws drs file_sz total_processed total_data_verified expected_cqes s =
     (if total_processed <s file_sz then
        (let to_splice = splice_step file_sz total_processed in
         case splice_outputs ur src outs dws drs total_processed to_splice (length outs) expected_cqes s of
           (Inl e, s1) \<Rightarrow> (Inl e, s1)
         | (Inr expected, s1) \<Rightarrow>
             (let total = total_processed + to_splice in
              if 512 \<le> expected \<or> \<not> total <s file_sz then
                (case ur_submit ur s1 of
                   (_, s2) \<Rightarrow>
                     (case splice_reap ur expected total_data_verified s2 of
                        (Inl e, s3) \<Rightarrow> (Inl e, s3)
                      | (Inr (left, verified), s3) \<Rightarrow>
                          splice_loop ur src outs dws drs file_sz total verified left s3))
              else splice_loop ur src outs dws drs file_sz total total_data_verified expected s1))
      else (Inr total_data_verified, s))"
  by pat_completeness auto
termination splice_loop
  by (relation "measure (\<lambda>(ur, src, outs, dws, drs, sz, t, v, k, s). unat (sz - t))")
     (auto simp: splice_progress)

declare splice_loop.simps [simp del]

definition perform_splice_broadcast :: "(uintptr, 's) uring \<Rightarrow> (c_int \<Rightarrow> stat option) \<Rightarrow>
    (c_int \<Rightarrow> 64 word option) \<Rightarrow> c_int \<Rightarrow> c_int list \<Rightarrow> c_int list \<Rightarrow> c_int list \<Rightarrow> 's \<Rightarrow>
    (cpp_error + size_t) \<times> 's" where
  "perform_splice_broadcast ur fstat blk src outs dws drs s =
     (case ur_init ur 512 s of
        (r, s1) \<Rightarrow>
          if r < 0 then (Inr 0, s1)
          else
            (let file_sz = get_file_size fstat blk src in
             case splice_loop ur src outs dws drs file_sz 0 0 0 s1 of
               (Inl e, s2) \<Rightarrow> (Inl e, s2)
             | (Inr total_data_verified, s2) \<Rightarrow> (Inr total_data_verified, ur_exit ur s2)))"

section \<open>What is submitted\<close>

interpretation sp: chunk_loop splice_step 262144
proof
  show "unat (splice_step sz t) = min 262144 (unat sz - unat t)" if "unat t < unat sz" for t sz
    using that by (simp add: splice_step_def SPLICE_CHUNK_SIZE_def u64 unat_minus64)
qed simp

text \<open>The pairs of requests of one piece, one per output.\<close>

definition splice_pairs :: "c_int \<Rightarrow> c_int list \<Rightarrow> c_int list \<Rightarrow> c_int list \<Rightarrow> off_t \<Rightarrow> size_t \<Rightarrow>
    uintptr sqe list list" where
  "splice_pairs src outs dws drs t p =
     map (\<lambda>i. [splice_read src (dws ! i) t p, splice_write (drs ! i) (outs ! i) t p]) [0..<length outs]"

definition splice_pieces :: "c_int \<Rightarrow> c_int list \<Rightarrow> c_int list \<Rightarrow> c_int list \<Rightarrow> nat \<Rightarrow> nat \<Rightarrow>
    uintptr sqe list list list" where
  "splice_pieces src outs dws drs sz t =
     map (\<lambda>(q, l). splice_pairs src outs dws drs (of_nat q) (of_nat l)) (plan 262144 sz t)"

text \<open>
  The pairs that are prepared for a list of pieces when \<open>j\<close> pairs are pending: those that
  find room among the 256 the ring holds. A full ring is submitted and starts over.
\<close>

fun splice_sent :: "nat \<Rightarrow> 'a list list \<Rightarrow> 'a list" where
  "splice_sent j [] = []"
| "splice_sent j (ps # pss) =
     take (256 - j) ps @ splice_sent (if 256 \<le> j + length ps then 0 else j + length ps) pss"

text \<open>The same, cut into what each submission takes, \<open>pend\<close> being the pairs pending before.\<close>

fun splice_flushes :: "'a list \<Rightarrow> 'a list list \<Rightarrow> 'a list list" where
  "splice_flushes pend [] = []"
| "splice_flushes pend (ps # pss) =
     (let now = pend @ take (256 - length pend) ps in
      if 256 \<le> length pend + length ps \<or> pss = [] then now # splice_flushes [] pss
      else splice_flushes now pss)"

definition splice_ports :: "c_int list \<Rightarrow> c_int list \<Rightarrow> c_int list \<Rightarrow> bool" where
  "splice_ports outs dws drs \<longleftrightarrow> outs \<noteq> [] \<and> length outs \<le> length dws \<and> length outs \<le> length drs"

lemma length_splice_pairs [simp]: "length (splice_pairs src outs dws drs t p) = length outs"
  by (simp add: splice_pairs_def)

lemma splice_outputs_push:
  assumes law: "get_sqe_law ur view" and ports: "splice_ports outs dws drs"
  shows "n \<le> length outs \<Longrightarrow> rv_entries (view s) = 512 \<Longrightarrow> length (rv_pending (view s)) = 2 * j \<Longrightarrow>
    j \<le> 256 \<Longrightarrow>
    \<exists>s'. splice_outputs ur src outs dws drs t p n k s = (Inr (k + 2 * min n (256 - j)), s') \<and>
      view s' = view_push (concat (take (256 - j)
        (drop (length outs - n) (splice_pairs src outs dws drs t p)))) (view s)"
proof (induction n arbitrary: j k s)
  case 0
  then show ?case by simp
next
  case (Suc n)
  let ?i = "length outs - Suc n"
  let ?a = "splice_read src (dws ! ?i) t p" and ?b = "splice_write (drs ! ?i) (outs ! ?i) t p"
  let ?ps = "splice_pairs src outs dws drs t p"
  have i: "?i < length outs" "?i < length dws" "?i < length drs"
    using Suc.prems(1) ports by (auto simp: splice_ports_def)
  have d: "drop ?i ?ps = [?a, ?b] # drop (length outs - n) ?ps"
    using Suc.prems(1) i by (subst Cons_nth_drop_Suc [symmetric]) (simp_all add: splice_pairs_def Suc_diff_Suc)
  show ?case
  proof (cases "j = 256")
    case True
    then obtain s1 where "ur_get_sqe ur s = (False, s1)" "view s1 = view s"
      using get_sqe_full [OF law, of s] Suc.prems by auto
    then show ?thesis using True by simp
  next
    case False
    with Suc.prems have j: "j < 256" by simp
    then have "length (rv_pending (view s)) < rv_entries (view s)" using Suc.prems by simp
    from get_sqe_room [OF law this] obtain s1 where
      s1: "ur_get_sqe ur s = (True, s1)" "\<And>e. view (ur_prep ur e s1) = view_push [e] (view s)" by blast
    let ?s1 = "ur_prep ur ?a s1"
    have "length (rv_pending (view ?s1)) < rv_entries (view ?s1)" using Suc.prems j by (simp add: s1)
    from get_sqe_room [OF law this] obtain s2 where
      s2: "ur_get_sqe ur ?s1 = (True, s2)" "\<And>e. view (ur_prep ur e s2) = view_push [e] (view ?s1)" by blast
    let ?s2 = "ur_prep ur ?b s2"
    have v2: "view ?s2 = view_push [?a, ?b] (view s)" by (simp add: s1 s2)
    have "splice_outputs ur src outs dws drs t p (Suc n) k s =
        splice_outputs ur src outs dws drs t p n (k + 2) ?s2"
      using s1(1) s2(1) i by (simp add: Let_def)
    moreover obtain s' where "splice_outputs ur src outs dws drs t p n (k + 2) ?s2 =
        (Inr (k + 2 + 2 * min n (256 - Suc j)), s')"
      "view s' = view_push (concat (take (256 - Suc j) (drop (length outs - n) ?ps))) (view ?s2)"
      using Suc.IH [of ?s2 "Suc j" "k + 2"] Suc.prems j v2 by auto
    moreover have "k + 2 + 2 * min n (256 - Suc j) = k + 2 * min (Suc n) (256 - j)"
      using j by (simp add: min_def) linarith
    moreover have "take (256 - j) (drop ?i ?ps) = [?a, ?b] # take (256 - Suc j) (drop (length outs - n) ?ps)"
      using j d by (simp add: take_Cons')
    ultimately show ?thesis using v2 by simp
  qed
qed

text \<open>
  A request that carries a byte count and succeeds reports that count: transfers are
  complete.
\<close>

definition completions_full :: "(uintptr, 's) uring \<Rightarrow> bool" where
  "completions_full ur \<longleftrightarrow>
     (\<forall>s c. fst (ur_wait_cqe ur s) = Some (Inr c) \<longrightarrow> cq_data c \<noteq> 0 \<longrightarrow> cq_res c = int (unat (cq_data c)))"

lemma splice_reap_all:
  assumes laws: "uring_laws ur view" "waits_succeed ur" "completions_full ur"
  shows "size (rv_outstanding (view s)) = n \<Longrightarrow>
    \<exists>s'. splice_reap ur n v s = (Inr (0, v + sum_mset (rv_outstanding (view s))), s') \<and>
      view s' = view_consume (rv_outstanding (view s)) (view s)"
proof (induction n arbitrary: v s)
  case 0
  then show ?case by (simp add: view_consume_def)
next
  case (Suc n)
  then have "rv_outstanding (view s) \<noteq> {#}" by auto
  from wait_succeeds [OF laws(1,2) this] obtain c s1 where
    c: "ur_wait_cqe ur s = (Some (Inr c), s1)" "cq_data c \<in># rv_outstanding (view s)"
      "view (ur_cqe_seen ur c s1) = view_consume {#cq_data c#} (view s)" by blast
  let ?v = "if cq_data c \<noteq> 0 \<and> 0 < cq_res c then v + of_int (cq_res c) else v"
  have eq: "?v = v + cq_data c"
  proof (cases "cq_data c = 0")
    case False
    then have "cq_res c = int (unat (cq_data c))" using laws(3) c(1) by (metis completions_full_def fst_conv)
    moreover have "0 < uint (cq_data c)" using False by (metis uint_0_iff uint_ge_0 order_le_less)
    ultimately show ?thesis by simp
  qed simp
  have step: "splice_reap ur (Suc n) v s = splice_reap ur n (v + cq_data c) (ur_cqe_seen ur c s1)"
    by (simp only: splice_reap.simps c(1) eq prod.case option.case sum.case)
  obtain s' where s':
    "splice_reap ur n (v + cq_data c) (ur_cqe_seen ur c s1) =
       (Inr (0, v + cq_data c + sum_mset (rv_outstanding (view s) - {#cq_data c#})), s')"
    "view s' = view_consume (rv_outstanding (view s) - {#cq_data c#}) (view_consume {#cq_data c#} (view s))"
    using Suc.IH [of "ur_cqe_seen ur c s1" "v + cq_data c"] Suc.prems c(2,3) by (auto simp: size_Diff_singleton)
  have sum: "v + cq_data c + sum_mset (rv_outstanding (view s) - {#cq_data c#}) =
      v + sum_mset (rv_outstanding (view s))"
    using sum_mset.add_mset [of "cq_data c" "rv_outstanding (view s) - {#cq_data c#}"] c(2)
    by (simp only: insert_DiffM add.assoc)
  have "{#cq_data c#} + (rv_outstanding (view s) - {#cq_data c#}) = rv_outstanding (view s)"
    using c(2) by simp
  with s' show ?case unfolding step sum view_consume_consume by simp
qed

text \<open>
  Submitting and reaping empties the ring; what it yields depends on the answers. The
  contract of the loop with the ring is therefore stated for any account \<open>R\<close> of the batches
  submitted between two states and the bytes their completions added up to.
\<close>

locale splice_reaping =
  fixes ur :: "(uintptr, 's) uring" and view :: "'s \<Rightarrow> uintptr ring_view"
    and R :: "uintptr sqe list list \<Rightarrow> size_t \<Rightarrow> 's \<Rightarrow> 's \<Rightarrow> bool"
  assumes laws: "uring_laws ur view" "submits_all ur view"
    and none: "R [] 0 s s"
    and add: "R bs g s s1 \<Longrightarrow> R cs h s1 s2 \<Longrightarrow> R (bs @ cs) (g + h) s s2"
    and get: "ur_get_sqe ur s = (b, s1) \<Longrightarrow> R [] 0 s s1"
    and prep: "R [] 0 s (ur_prep ur e s)"
    and reap: "rv_outstanding (view s) = {#} \<Longrightarrow> ur_submit ur s = (r, s2) \<Longrightarrow>
      \<exists>g s3. splice_reap ur (length (rv_pending (view s))) v s2 = (Inr (0, v + g), s3) \<and>
        view s3 = view_consume (rv_outstanding (view s2)) (view s2) \<and> R [rv_pending (view s)] g s s3"
begin

lemma add0: "R [] 0 s s1 \<Longrightarrow> R bs g s1 s2 \<Longrightarrow> R bs g s s2"
  using add [of "[]" 0 s s1 bs g s2] by simp

lemma outputs_none: "splice_outputs ur src outs dws drs t p n k s = (Inr k', s') \<Longrightarrow> R [] 0 s s'"
proof (induction n arbitrary: k s)
  case 0
  then show ?case by (simp add: none)
next
  case (Suc n)
  let ?i = "length outs - Suc n"
  obtain b s1 where g1: "ur_get_sqe ur s = (b, s1)" by fastforce
  show ?case
  proof (cases b)
    case False
    with Suc.prems g1 get [OF g1] show ?thesis by simp
  next
    case b: True
    then obtain dw where dw: "index_at dws ?i = Inr dw"
      using Suc.prems g1 by (auto simp: Let_def split: sum.splits)
    let ?s1 = "ur_prep ur (splice_read src dw t p) s1"
    obtain c s2 where g2: "ur_get_sqe ur ?s1 = (c, s2)" by fastforce
    have two: "R [] 0 s s2" by (rule add0 [OF get [OF g1] add0 [OF prep get [OF g2]]])
    show ?thesis
    proof (cases c)
      case False
      with Suc.prems g1 b dw g2 two show ?thesis by (simp add: Let_def)
    next
      case c: True
      then obtain dr where "index_at drs ?i = Inr dr"
        using Suc.prems g1 b dw g2 by (auto simp: Let_def split: sum.splits)
      then have "splice_outputs ur src outs dws drs t p n (k + 2) (ur_prep ur (splice_write dr (outs ! ?i) t p) s2) =
          (Inr k', s')"
        using Suc.prems g1 b dw g2 c by (simp add: Let_def)
      from add0 [OF two add0 [OF prep Suc.IH [OF this]]] show ?thesis .
    qed
  qed
qed

lemma flush_ring:
  assumes out: "rv_outstanding (view s) = {#}"
  obtains r s2 s3 g where "ur_submit ur s = (r, s2)"
    "splice_reap ur (length (rv_pending (view s))) v s2 = (Inr (0, v + g), s3)"
    "rv_pending (view s3) = []" "rv_outstanding (view s3) = {#}"
    "rv_entries (view s3) = rv_entries (view s)"
    "rv_submitted (view s3) = rv_submitted (view s) @ rv_pending (view s)"
    "rv_batches (view s3) = rv_batches (view s) @ [rv_pending (view s)]"
    "rv_drained (view s3) = rv_drained (view s) @ [True]" "R [rv_pending (view s)] g s s3"
proof -
  obtain r s2 where s2: "ur_submit ur s = (r, s2)" by fastforce
  note v2 = submits_allD(1) [OF laws s2]
  from reap [OF out s2, of v] obtain g s3 where
    "splice_reap ur (length (rv_pending (view s))) v s2 = (Inr (0, v + g), s3)"
    "view s3 = view_consume (rv_outstanding (view s2)) (view s2)" "R [rv_pending (view s)] g s s3" by blast
  with that [OF s2] v2 out show thesis by simp
qed

lemma loop_runs:
  assumes ports: "splice_ports outs dws drs" and sz: "0 \<le>s sz"
  shows "unat t \<le> unat sz \<Longrightarrow> rv_entries (view s) = 512 \<Longrightarrow> rv_outstanding (view s) = {#} \<Longrightarrow>
    length (rv_pending (view s)) = 2 * j \<Longrightarrow> j < 256 \<Longrightarrow> t <s sz \<or> j = 0 \<Longrightarrow>
    rv_pending (view s) = concat pend \<Longrightarrow> length pend = j \<Longrightarrow>
    \<exists>s' g new bs. new = rv_pending (view s) @ concat (splice_sent j (splice_pieces src outs dws drs (unat sz) (unat t))) \<and>
      splice_loop ur src outs dws drs sz t v (2 * j) s = (Inr (v + g), s') \<and> R bs g s s' \<and>
      rv_pending (view s') = [] \<and> rv_outstanding (view s') = {#} \<and>
      rv_submitted (view s') = rv_submitted (view s) @ new \<and>
      bs = map concat (splice_flushes pend (splice_pieces src outs dws drs (unat sz) (unat t))) \<and>
      rv_batches (view s') = rv_batches (view s) @ bs \<and>
      rv_drained (view s') = rv_drained (view s) @ replicate (length bs) True"
proof (induction "unat (sz - t)" arbitrary: t v j s pend rule: less_induct)
  case less
  have t0: "0 \<le>s t" using less.prems(1) sz by (simp add: nonneg_iff_unat64)
  show ?case
  proof (cases "t <s sz")
    case False
    then have j: "j = 0" using less.prems(6) by simp
    have "unat sz \<le> unat t" using False by (simp add: sless_unat64 [OF t0 sz])
    then have "plan 262144 (unat sz) (unat t) = []" by simp
    with False less.prems(3,4) j show ?thesis
      by (subst splice_loop.simps) (simp add: splice_pieces_def none exI [of _ 0])
  next
    case True
    then have lt: "unat t < unat sz" by (simp add: sless_unat64 [OF t0 sz])
    let ?n = "length outs" and ?p = "splice_step sz t"
    let ?ps = "splice_pairs src outs dws drs t ?p"
    let ?rest = "splice_pieces src outs dws drs (unat sz) (unat (t + ?p))"
    have pieces: "splice_pieces src outs dws drs (unat sz) (unat t) = ?ps # ?rest"
      using sp.plan_unfold [OF lt] by (simp add: splice_pieces_def)
    have next0: "0 \<le>s t + ?p" using sp.advance_le [OF lt] sz by (simp add: nonneg_iff_unat64)
    have next_le: "unat (t + ?p) \<le> unat sz" by (rule sp.advance_le [OF lt])
    have shrink: "unat (sz - (t + ?p)) < unat (sz - t)" by (rule splice_progress [OF True])
    have n: "0 < ?n" using ports by (simp add: splice_ports_def)
    have j: "j \<le> 256" using less.prems(5) by simp
    from splice_outputs_push [OF uring_lawsD(2) [OF laws(1)] ports le_refl less.prems(2,4) j]
    obtain s1 where s1: "splice_outputs ur src outs dws drs t ?p ?n (2 * j) s =
        (Inr (2 * j + 2 * min ?n (256 - j)), s1)"
      "view s1 = view_push (concat (take (256 - j) ?ps)) (view s)" by force
    let ?m = "2 * j + 2 * min ?n (256 - j)" and ?new = "concat (take (256 - j) ?ps)"
    have len2: "length (concat (take k ?ps)) = 2 * min k ?n" for k
    proof -
      have "length (concat (map (\<lambda>i. [splice_read src (dws ! i) t ?p, splice_write (drs ! i) (outs ! i) t ?p]) is))
          = 2 * length is" for "is" by (induction "is") simp_all
      then show ?thesis by (simp add: splice_pairs_def take_map)
    qed
    have len: "length (rv_pending (view s1)) = ?m"
      using s1(2) less.prems(4) len2 [of "256 - j"] by (simp add: min.commute)
    show ?thesis
    proof (cases "512 \<le> ?m \<or> \<not> (t + ?p) <s sz")
      case flush: True
      have idle: "rv_outstanding (view s1) = {#}" using s1(2) less.prems(3) by simp
      obtain r s2 s3 g where
        f: "ur_submit ur s1 = (r, s2)"
        "splice_reap ur ?m v s2 = (Inr (0, v + g), s3)"
        "rv_pending (view s3) = []" "rv_outstanding (view s3) = {#}"
        "rv_entries (view s3) = rv_entries (view s1)"
        "rv_submitted (view s3) = rv_submitted (view s1) @ rv_pending (view s1)"
        "rv_batches (view s3) = rv_batches (view s1) @ [rv_pending (view s1)]"
        "rv_drained (view s3) = rv_drained (view s1) @ [True]"
        and acc: "R [rv_pending (view s1)] g s1 s3"
        by (rule flush_ring [OF idle, of v, unfolded len]) (rule that)
      have step: "splice_loop ur src outs dws drs sz t v (2 * j) s =
          splice_loop ur src outs dws drs sz (t + ?p) (v + g) (2 * 0) s3"
        using True s1(1) f(1,2) flush by (subst splice_loop.simps) (simp add: Let_def)
      have last: "?rest = [] \<or> 256 \<le> j + ?n"
      proof (rule disjCI)
        assume "\<not> 256 \<le> j + ?n"
        then have "\<not> 512 \<le> ?m" by (simp add: min_def)
        with flush have "\<not> (t + ?p) <s sz" by blast
        then have "unat sz \<le> unat (t + ?p)" by (simp add: sless_unat64 [OF next0 sz])
        then show "?rest = []" by (simp add: splice_pieces_def)
      qed
      then have sent: "splice_sent j (?ps # ?rest) = take (256 - j) ?ps @ splice_sent 0 ?rest"
        by auto
      have flushes: "splice_flushes pend (?ps # ?rest) = (pend @ take (256 - j) ?ps) # splice_flushes [] ?rest"
        using last less.prems(8) by (auto simp: Let_def)
      have now: "rv_pending (view s1) = concat (pend @ take (256 - j) ?ps)"
        using s1(2) less.prems(7) by simp
      have pre: "rv_entries (view s3) = 512" "length (rv_pending (view s3)) = 2 * 0" "0 < (256 :: nat)"
        "(t + ?p) <s sz \<or> (0 :: nat) = 0" "rv_pending (view s3) = concat []" "length [] = (0 :: nat)"
        using f(3,5) s1(2) less.prems(2) by simp_all
      from less.hyps [OF shrink next_le pre(1) f(4) pre(2-6), of "v + g"] obtain s' h new bs where
        ih: "new = rv_pending (view s3) @ concat (splice_sent 0 ?rest)"
        "splice_loop ur src outs dws drs sz (t + ?p) (v + g) (2 * 0) s3 = (Inr (v + g + h), s')"
        "R bs h s3 s'" "rv_pending (view s') = []" "rv_outstanding (view s') = {#}"
        "rv_submitted (view s') = rv_submitted (view s3) @ new"
        "bs = map concat (splice_flushes [] ?rest)" "rv_batches (view s') = rv_batches (view s3) @ bs"
        "rv_drained (view s') = rv_drained (view s3) @ replicate (length bs) True" by blast
      have "R (rv_pending (view s1) # bs) (g + h) s s'"
        using add0 [OF outputs_none [OF s1(1)] add [OF acc ih(3)]] by simp
      with ih show ?thesis
        unfolding step pieces sent flushes using f(3,6,7,8) s1(2) now
        by (intro exI [of _ s'] exI [of _ "g + h"] exI [of _ "rv_pending (view s1) # bs"]) (simp add: add.assoc)
    next
      case wait: False
      then have small: "j + ?n < 256" and more: "(t + ?p) <s sz"
        by (auto simp: min_def split: if_splits)
      have m: "?m = 2 * (j + ?n)" using small by simp
      have step: "splice_loop ur src outs dws drs sz t v (2 * j) s =
          splice_loop ur src outs dws drs sz (t + ?p) v (2 * (j + ?n)) s1"
        using True s1(1) [unfolded m] wait [unfolded m] by (subst splice_loop.simps) (simp add: Let_def)
      have sent: "splice_sent j (?ps # ?rest) = ?ps @ splice_sent (j + ?n) ?rest"
        using small by simp
      have v1: "view s1 = view_push (concat ?ps) (view s)" using s1(2) small by simp
      have "?rest \<noteq> []"
      proof -
        have "unat (t + ?p) < unat sz" using more by (simp add: sless_unat64 [OF next0 sz])
        then show ?thesis by (simp add: splice_pieces_def plan_step)
      qed
      then have flushes: "splice_flushes pend (?ps # ?rest) = splice_flushes (pend @ ?ps) ?rest"
        using small less.prems(8) by (simp add: Let_def)
      have pre: "rv_entries (view s1) = 512" "rv_outstanding (view s1) = {#}"
        "length (rv_pending (view s1)) = 2 * (j + ?n)" "(t + ?p) <s sz \<or> j + ?n = 0"
        "rv_pending (view s1) = concat (pend @ ?ps)" "length (pend @ ?ps) = j + ?n"
        using v1 less.prems(2,3,7,8) len [unfolded m] more by simp_all
      from less.hyps [OF shrink next_le pre(1-3) small pre(4-6), of v] obtain s' h new bs where
        ih: "new = rv_pending (view s1) @ concat (splice_sent (j + ?n) ?rest)"
        "splice_loop ur src outs dws drs sz (t + ?p) v (2 * (j + ?n)) s1 = (Inr (v + h), s')"
        "R bs h s1 s'" "rv_pending (view s') = []" "rv_outstanding (view s') = {#}"
        "rv_submitted (view s') = rv_submitted (view s1) @ new"
        "bs = map concat (splice_flushes (pend @ ?ps) ?rest)" "rv_batches (view s') = rv_batches (view s1) @ bs"
        "rv_drained (view s') = rv_drained (view s1) @ replicate (length bs) True" by blast
      show ?thesis
        unfolding step pieces sent flushes
        using ih v1 add0 [OF outputs_none [OF s1(1)] ih(3)]
        by (intro exI [of _ s'] exI [of _ h] exI [of _ bs]) simp
    qed
  qed
qed

end

text \<open>With complete transfers what is reaped is what was asked for.\<close>

lemma full_reaping:
  assumes "uring_laws ur view" "submits_all ur view" "waits_succeed ur" "completions_full ur"
  shows "splice_reaping ur view (\<lambda>bs g s s'. g = sum_list (map sq_data (concat bs)))"
proof
  fix v s r s2 assume out: "rv_outstanding (view s) = {#}" and s2: "ur_submit ur s = (r, s2)"
  have o2: "rv_outstanding (view s2) = mset (map sq_data (rv_pending (view s)))"
    using submits_allD(1) [OF assms(1,2) s2] out by simp
  then have "size (rv_outstanding (view s2)) = length (rv_pending (view s))" by simp
  from splice_reap_all [OF assms(1,3,4) this] obtain s3 where
    "splice_reap ur (length (rv_pending (view s))) v s2 = (Inr (0, v + sum_mset (rv_outstanding (view s2))), s3)"
    "view s3 = view_consume (rv_outstanding (view s2)) (view s2)" by blast
  moreover have "sum_mset (rv_outstanding (view s2)) = sum_list (map sq_data (concat [rv_pending (view s)]))"
    unfolding o2 concat.simps append_Nil2 by (rule sum_mset_sum_list)
  ultimately show "\<exists>g s3. splice_reap ur (length (rv_pending (view s))) v s2 = (Inr (0, v + g), s3) \<and>
      view s3 = view_consume (rv_outstanding (view s2)) (view s2) \<and>
      g = sum_list (map sq_data (concat [rv_pending (view s)]))" by blast
qed (use assms in auto)

text \<open>When pieces fit the ring evenly nothing is left out; when they do not, something is.\<close>

lemma splice_sent_fits:
  assumes n: "0 < n"
  shows "\<forall>ps \<in> set pss. length ps = n \<Longrightarrow>
    (n dvd 256 \<and> n dvd j \<and> j < 256) \<or> j + n * length pss \<le> 256 \<Longrightarrow> splice_sent j pss = concat pss"
proof (induction pss arbitrary: j)
  case (Cons ps pss)
  have fit: "j + n \<le> 256"
  proof (cases "n dvd 256 \<and> n dvd j \<and> j < 256")
    case True
    then have "n dvd 256 - j" by (simp add: dvd_diff_nat)
    then have "n \<le> 256 - j" using True by (intro dvd_imp_le) simp_all
    with True show ?thesis by linarith
  next
    case False
    then have "j + n * length (ps # pss) \<le> 256" using Cons.prems(2) by blast
    then show ?thesis by simp
  qed
  let ?j = "if 256 \<le> j + n then 0 else j + n"
  have "(n dvd 256 \<and> n dvd ?j \<and> ?j < 256) \<or> ?j + n * length pss \<le> 256"
    using Cons.prems(2) fit by auto
  from Cons.IH [OF _ this] Cons.prems(1) have IH: "splice_sent ?j pss = concat pss" by simp
  have len: "length ps = n" and t: "take (256 - j) ps = ps" using Cons.prems(1) fit by simp_all
  show ?case by (simp only: splice_sent.simps len t IH concat.simps)
qed simp

lemma splice_sent_prefix:
  "\<forall>ps \<in> set pss. length ps = n \<Longrightarrow> k \<le> length pss \<Longrightarrow> j + n * k < 256 \<Longrightarrow>
   splice_sent j pss = concat (take k pss) @ splice_sent (j + n * k) (drop k pss)"
proof (induction k arbitrary: j pss)
  case (Suc k)
  then obtain ps qss where pss: "pss = ps # qss" by (cases pss) auto
  have "splice_sent (j + n) qss = concat (take k qss) @ splice_sent (j + n + n * k) (drop k qss)"
    using Suc.prems pss by (intro Suc.IH) (simp_all add: add.assoc)
  with Suc.prems pss show ?case by (simp add: add.assoc)
qed simp

lemma set_splice_sent: "set (splice_sent j pss) \<subseteq> set (concat pss)"
  by (induction j pss rule: splice_sent.induct) (auto dest: in_set_takeD)

lemma splice_sent_drops:
  assumes len: "\<forall>ps \<in> set pss. length ps = n" and n: "0 < n" "\<not> n dvd 256"
    and k: "256 div n < length pss"
  shows "splice_sent 0 pss = concat (take (256 div n) pss) @ take (256 mod n) (pss ! (256 div n)) @
    splice_sent 0 (drop (Suc (256 div n)) pss)"
proof -
  let ?k = "256 div n"
  have m: "n * ?k + 256 mod n = 256" by simp
  have "0 < 256 mod n" using n(2) by (simp add: mod_greater_zero_iff_not_dvd)
  then have "0 + n * ?k < 256" using m by linarith
  from splice_sent_prefix [OF len _ this] k
  have "splice_sent 0 pss = concat (take ?k pss) @ splice_sent (n * ?k) (drop ?k pss)" by simp
  also have "drop ?k pss = pss ! ?k # drop (Suc ?k) pss" using k by (simp add: Cons_nth_drop_Suc)
  also have "splice_sent (n * ?k) (pss ! ?k # drop (Suc ?k) pss) =
      take (256 mod n) (pss ! ?k) @ splice_sent 0 (drop (Suc ?k) pss)"
  proof -
    have "length (pss ! ?k) = n" using len k by simp
    moreover have "256 mod n < n" using n(1) by simp
    ultimately have "256 \<le> n * ?k + length (pss ! ?k)" using m by linarith
    moreover have "256 - n * ?k = 256 mod n" using m by linarith
    ultimately show ?thesis by simp
  qed
  finally show ?thesis .
qed

lemma splice_pieces_nth:
  assumes "k < length (splice_pieces src outs dws drs sz 0)"
  shows "splice_pieces src outs dws drs sz 0 ! k =
    splice_pairs src outs dws drs (of_nat (k * 262144)) (of_nat (min 262144 (sz - k * 262144)))"
  using assms plan_nth [of 262144 sz 0] by (simp add: splice_pieces_def)

lemma length_splice_pieces:
  "length (splice_pieces src outs dws drs sz 0) = (sz + 262143) div 262144"
  by (simp add: splice_pieces_def plan_length)

lemma splice_pieces_len: "\<forall>ps \<in> set (splice_pieces src outs dws drs sz t). length ps = length outs"
  by (auto simp: splice_pieces_def)

text \<open>The bytes the pairs of a piece account for.\<close>

lemma low_bits: "unat p \<le> 262144 \<Longrightarrow> p AND 0xFFFFFFFF = (p :: size_t)"
proof -
  assume p: "unat p \<le> 262144"
  have "p AND 0xFFFFFFFF = take_bit 32 p"
    by (simp add: take_bit_eq_mask mask_eq_exp_minus_1)
  also have "\<dots> = p"
    using p by (simp add: word_unat_eq_iff take_bit_eq_mod unat_mod)
  finally show ?thesis .
qed

lemma splice_pairs_data:
  assumes "unat p \<le> 262144"
  shows "sum_list (map sq_data (concat (splice_pairs src outs dws drs t p))) = of_nat (length outs) * p"
proof -
  note p = low_bits [OF assms]
  have "sum_list (map sq_data (concat (map (\<lambda>i. [splice_read src (dws ! i) t p,
      splice_write (drs ! i) (outs ! i) t p]) is))) = of_nat (length is) * p" for "is"
    by (induction "is") (simp_all add: splice_read_def splice_write_def p algebra_simps)
  then show ?thesis by (simp add: splice_pairs_def)
qed

lemma splice_pieces_data:
  "sum_list (map sq_data (concat (concat (splice_pieces src outs dws drs (unat sz) 0)))) =
     of_nat (length outs) * sz"
proof -
  have "sum_list (map sq_data (concat (concat (map (\<lambda>(q, l). splice_pairs src outs dws drs (of_nat q) (of_nat l)) ps)))) =
      of_nat (length outs) * of_nat (sum_list (map snd ps))"
    if "\<forall>(q, l) \<in> set ps. l \<le> 262144" for ps
    using that
  proof (induction ps)
    case (Cons a ps)
    obtain q l where a: "a = (q, l)" by fastforce
    have "unat (of_nat l :: size_t) \<le> 262144"
      using Cons.prems a by (simp add: unat_of_nat take_bit_eq_mod)
    from splice_pairs_data [OF this] Cons a show ?case by (simp add: algebra_simps)
  qed simp
  moreover have "\<forall>(q, l) \<in> set (plan 262144 (unat sz) 0). l \<le> 262144"
    using plan_pieces [of _ _ 262144 "unat sz" 0] by auto
  ultimately show ?thesis by (simp add: splice_pieces_def plan_sum)
qed

text \<open>The whole call, under any account of what is reaped.\<close>

lemma splice_broadcast_reaps:
  assumes reaping: "splice_reaping ur view R" and init: "init_succeeds ur"
    and ports: "splice_ports outs dws drs" and sz: "0 \<le>s sz" "get_file_size fstat blk src = sz"
  shows "\<exists>r s1 s2 g new bs. ur_init ur 512 s = (r, s1) \<and> 0 \<le> r \<and>
    new = concat (splice_sent 0 (splice_pieces src outs dws drs (unat sz) 0)) \<and>
    perform_splice_broadcast ur fstat blk src outs dws drs s = (Inr g, ur_exit ur s2) \<and> R bs g s1 s2 \<and>
    rv_outstanding (view s2) = {#} \<and> new = concat bs \<and>
    rv_submitted (view (ur_exit ur s2)) = rv_submitted (view s) @ new \<and>
    bs = map concat (splice_flushes [] (splice_pieces src outs dws drs (unat sz) 0)) \<and>
    rv_batches (view (ur_exit ur s2)) = rv_batches (view s) @ bs \<and>
    rv_drained (view (ur_exit ur s2)) = rv_drained (view s) @ replicate (length bs) True"
proof -
  note laws = splice_reaping.laws [OF reaping]
  obtain r s1 where i: "ur_init ur 512 s = (r, s1)" and r: "0 \<le> r"
    and idle: "ring_idle 512 view s1" "rv_batches (view s1) = rv_batches (view s)"
    using init_idle [OF laws(1) init, of 9] by auto
  have drained: "rv_drained (view s1) = rv_drained (view s)"
    using init_drained [OF laws(1) init, of 9 s r s1] i by simp
  let ?pss = "splice_pieces src outs dws drs (unat sz) 0"
  from splice_reaping.loop_runs [OF reaping ports sz(1), of 0 s1 0 "[]" src 0] idle obtain s2 g where
    l: "splice_loop ur src outs dws drs sz 0 0 0 s1 = (Inr g, s2)" "R (map concat (splice_flushes [] ?pss)) g s1 s2"
    "rv_outstanding (view s2) = {#}"
    "rv_submitted (view s2) = rv_submitted (view s) @ concat (splice_sent 0 ?pss)"
    "rv_batches (view s2) = rv_batches (view s) @ map concat (splice_flushes [] ?pss)"
    "rv_drained (view s2) = rv_drained (view s1) @ replicate (length (splice_flushes [] ?pss)) True"
    by (auto simp: ring_idle_def rv_submitted_def)
  moreover have "concat (splice_sent 0 ?pss) = concat (map concat (splice_flushes [] ?pss))"
    using l(4,5) by (simp add: rv_submitted_def)
  ultimately show ?thesis
    using i r drained exit_submitted [OF laws(1)] exit_batches [OF laws(1)] exit_drained [OF laws(1)]
    by (intro exI [of _ r] exI [of _ s1] exI [of _ s2] exI [of _ g] exI [of _ "concat (splice_sent 0 ?pss)"]
        exI [of _ "map concat (splice_flushes [] ?pss)"]) (simp add: perform_splice_broadcast_def sz(2))
qed

lemma splice_broadcast_runs:
  assumes laws: "uring_laws ur view" "init_succeeds ur" "submits_all ur view" "waits_succeed ur"
      "completions_full ur"
    and ports: "splice_ports outs dws drs" and sz: "0 \<le>s sz" "get_file_size fstat blk src = sz"
  shows "\<exists>s' new bs. new = concat (splice_sent 0 (splice_pieces src outs dws drs (unat sz) 0)) \<and>
    perform_splice_broadcast ur fstat blk src outs dws drs s = (Inr (sum_list (map sq_data new)), s') \<and>
    rv_submitted (view s') = rv_submitted (view s) @ new \<and>
    bs = map concat (splice_flushes [] (splice_pieces src outs dws drs (unat sz) 0)) \<and>
    rv_batches (view s') = rv_batches (view s) @ bs \<and>
    rv_drained (view s') = rv_drained (view s) @ replicate (length bs) True"
  using splice_broadcast_reaps [OF full_reaping [OF laws(1,3,4,5)] laws(2) ports sz, of s] by auto

section \<open>Properties\<close>

text \<open>
  The splice broadcast when the pieces fit the ring. With a ring that behaves as
  documented and complete transfers, if the number of outputs divides 256, or all pairs of
  requests fit the 256 the ring holds, then every piece is spliced to every output, in order,
  and the result is the number of outputs times the file size.
\<close>

lemma splice_broadcast_complete:
  assumes "uring_laws ur view" "init_succeeds ur" "submits_all ur view" "waits_succeed ur"
      "completions_full ur"
    and "splice_ports outs dws drs" and "0 \<le>s sz" "get_file_size fstat blk src = sz"
    and "length outs dvd 256 \<or> length outs * ((unat sz + 262143) div 262144) \<le> 256"
  shows "\<exists>s'. perform_splice_broadcast ur fstat blk src outs dws drs s =
      (Inr (of_nat (length outs) * sz), s') \<and>
    rv_submitted (view s') = rv_submitted (view s) @
      concat (concat (splice_pieces src outs dws drs (unat sz) 0))"
proof -
  have n: "0 < length outs" using assms(6) by (simp add: splice_ports_def)
  have "splice_sent 0 (splice_pieces src outs dws drs (unat sz) 0) =
      concat (splice_pieces src outs dws drs (unat sz) 0)"
    using assms(9) by (intro splice_sent_fits [OF n splice_pieces_len]) (auto simp: length_splice_pieces)
  then obtain s' where
    "perform_splice_broadcast ur fstat blk src outs dws drs s =
       (Inr (sum_list (map sq_data (concat (concat (splice_pieces src outs dws drs (unat sz) 0))))), s')"
    "rv_submitted (view s') = rv_submitted (view s) @
       concat (concat (splice_pieces src outs dws drs (unat sz) 0))"
    using splice_broadcast_runs [OF assms(1-8), of s] by metis
  then show ?thesis by (metis splice_pieces_data)
qed

lemma sim_completions_full:
  "(\<And>e. sq_data e \<noteq> 0 \<Longrightarrow> res e = int (unat (sq_data e))) \<Longrightarrow> completions_full (sim_uring res)"
  by (auto simp: completions_full_def sim_uring_def split: list.splits)

definition full_ring :: "(uintptr, uintptr sim) uring" where
  "full_ring = sim_uring (\<lambda>e. int (unat (sq_data e)))"

lemma full_ring_ok: "uring_laws full_ring sim_view" "init_succeeds full_ring"
  "submits_all full_ring sim_view" "waits_succeed full_ring" "completions_full full_ring"
  unfolding full_ring_def
  by (rule sim_uring_laws sim_uring_ok sim_completions_full; simp)+

interpretation full_ring: splice_reaping full_ring sim_view "\<lambda>bs g s s'. g = sum_list (map sq_data (concat bs))"
  by (rule full_reaping) (rule full_ring_ok)+

lemma splice_broadcast_complete_witness:
  "\<exists>s'. perform_splice_broadcast full_ring (fixed_fstat 300000) Map.empty 3 [5, 6, 7] [20, 21, 22]
      [30, 31, 32] sim_start = (Inr 900000, s') \<and> length (sim_submitted s') = 12"
proof -
  have p: "plan 262144 300000 0 = [(0, 262144), (262144, 37856)]"
    by (simp add: plan_step)
  have sz: "(0 :: off_t) \<le>s 300000" by code_simp
  have ports: "splice_ports [5, 6, 7] [20, 21, 22] [30, 31, 32]" by (simp add: splice_ports_def)
  from splice_broadcast_complete [OF full_ring_ok ports sz fixed_fstat_size, of Map.empty 3 sim_start]
  show ?thesis
    by (auto simp: splice_pieces_def p splice_pairs_def sim_view_def sim_start_def rv_submitted_def)
qed

definition writes_piece :: "off_t \<Rightarrow> uintptr sqe \<Rightarrow> bool" where
  "writes_piece q e \<longleftrightarrow>
     (case sq_op e of Op_splice _ _ _ off_out _ _ \<Rightarrow> off_out = q | _ \<Rightarrow> False)"

lemma writes_in_pairs:
  assumes "q \<noteq> -1" "j \<le> length outs"
  shows "length (filter (writes_piece q) (concat (take j (splice_pairs src outs dws drs t p)))) =
    (if t = q then j else 0)"
proof -
  have "length (filter (writes_piece q) (concat (map (\<lambda>i. [splice_read src (dws ! i) t p,
      splice_write (drs ! i) (outs ! i) t p]) is))) = (if t = q then length is else 0)" for "is"
    using assms(1) by (induction "is") (auto simp: writes_piece_def splice_read_def splice_write_def)
  then show ?thesis using assms(2) by (simp add: splice_pairs_def take_map)
qed

lemma writes_elsewhere:
  assumes q: "q \<noteq> -1"
    and ps: "\<And>ps. ps \<in> set pss \<Longrightarrow> \<exists>t p. t \<noteq> q \<and> ps = splice_pairs src outs dws drs t p"
    and xs: "set xs \<subseteq> set (concat pss)"
  shows "filter (writes_piece q) (concat xs) = []"
proof -
  have "\<not> writes_piece q e" if "es \<in> set xs" "e \<in> set es" for es e
  proof -
    from that(1) xs obtain ps where e: "ps \<in> set pss" "es \<in> set ps" by auto
    from ps [OF e(1)] obtain t p where "t \<noteq> q" "ps = splice_pairs src outs dws drs t p" by blast
    with e(2) that(2) q show ?thesis
      by (auto simp: splice_pairs_def writes_piece_def splice_read_def splice_write_def)
  qed
  then show ?thesis by (auto simp: filter_empty_conv)
qed

text \<open>The pieces have different offsets, none of them -1.\<close>

lemma piece_offset_neq:
  fixes sz :: off_t
  assumes "i < length (splice_pieces src outs dws drs (unat sz) 0)" "0 \<le>s sz"
  shows "(of_nat (i * 262144) :: off_t) \<noteq> -1"
    and "j < length (splice_pieces src outs dws drs (unat sz) 0) \<Longrightarrow>
      (of_nat (i * 262144) :: off_t) = of_nat (j * 262144) \<longleftrightarrow> i = j"
proof -
  have sz: "unat sz < 9223372036854775808" using assms(2) by (simp only: nonneg_iff_unat64)
  have u: "unat (of_nat (k * 262144) :: off_t) = k * 262144"
    "k * 262144 < 18446744073709551615"
    if "k < length (splice_pieces src outs dws drs (unat sz) 0)" for k
  proof -
    from that have "Suc k \<le> (unat sz + 262143) div 262144" by (simp add: length_splice_pieces)
    then have "Suc k * 262144 \<le> unat sz + 262143" by (simp add: less_eq_div_iff_mult_less_eq)
    with sz show b: "k * 262144 < 18446744073709551615" by simp
    then show "unat (of_nat (k * 262144) :: off_t) = k * 262144"
      unfolding unat_of_nat take_bit_eq_mod by (intro mod_less) simp
  qed
  show "(of_nat (i * 262144) :: off_t) \<noteq> -1"
  proof
    assume "(of_nat (i * 262144) :: off_t) = -1"
    moreover have "unat (-1 :: off_t) = 18446744073709551615"
      by (simp add: unsigned_minus_1_eq_mask mask_eq_exp_minus_1)
    ultimately have "unat (of_nat (i * 262144) :: off_t) = 18446744073709551615" by (simp only:)
    with u [OF assms(1)] show False by simp
  qed
  show "(of_nat (i * 262144) :: off_t) = of_nat (j * 262144) \<longleftrightarrow> i = j"
    if "j < length (splice_pieces src outs dws drs (unat sz) 0)"
    using u(1) [OF assms(1)] u(1) [OF that] by (metis mult_right_cancel zero_neq_numeral)
qed

text \<open>
  C29: outputs are skipped when the pieces do not fit. If the number \<open>n\<close> of outputs does not
  divide 256 and the file has more than \<open>256 div n\<close> pieces, the ring fills up in the middle
  of the loop over the outputs at piece number \<open>256 div n\<close>; the \<open>break\<close> skips the remaining
  outputs, the offset moves on, and that piece is written to only \<open>256 mod n\<close> outputs.
\<close>

theorem splice_broadcast_skips:
  assumes "uring_laws ur view" "init_succeeds ur" "submits_all ur view" "waits_succeed ur"
      "completions_full ur"
    and "splice_ports outs dws drs" and "0 \<le>s sz" "get_file_size fstat blk src = sz"
    and skip: "\<not> length outs dvd 256" "256 div length outs < (unat sz + 262143) div 262144"
  shows "\<exists>ret s' new. perform_splice_broadcast ur fstat blk src outs dws drs s = (Inr ret, s') \<and>
    rv_submitted (view s') = rv_submitted (view s) @ new \<and>
    length (filter (writes_piece (of_nat (256 div length outs * 262144))) new) = 256 mod length outs"
proof -
  let ?n = "length outs" and ?pss = "splice_pieces src outs dws drs (unat sz) 0"
  let ?k = "256 div ?n"
  let ?q = "of_nat (?k * 262144) :: off_t"
  have n: "0 < ?n" using assms(6) by (simp add: splice_ports_def)
  have k: "?k < length ?pss" using skip(2) by (simp add: length_splice_pieces)
  have q: "?q \<noteq> -1" by (rule piece_offset_neq(1) [OF k assms(7)])
  have other: "\<exists>t p. t \<noteq> ?q \<and> ps = splice_pairs src outs dws drs t p"
    if ps: "i < length ?pss" "i \<noteq> ?k" "ps = ?pss ! i" for i ps
    using splice_pieces_nth [OF ps(1)] piece_offset_neq(2) [OF ps(1) assms(7) k] ps(2,3) by blast
  let ?new = "concat (splice_sent 0 ?pss)"
  have "splice_sent 0 ?pss = concat (take ?k ?pss) @ take (256 mod ?n) (?pss ! ?k) @
      splice_sent 0 (drop (Suc ?k) ?pss)"
    by (rule splice_sent_drops [OF splice_pieces_len n skip(1) k])
  then have "filter (writes_piece ?q) ?new =
      filter (writes_piece ?q) (concat (concat (take ?k ?pss))) @
      filter (writes_piece ?q) (concat (take (256 mod ?n) (?pss ! ?k))) @
      filter (writes_piece ?q) (concat (splice_sent 0 (drop (Suc ?k) ?pss)))" by simp
  also have "filter (writes_piece ?q) (concat (splice_sent 0 (drop (Suc ?k) ?pss))) = []"
  proof (rule writes_elsewhere [OF q _ set_splice_sent])
    fix ps assume "ps \<in> set (drop (Suc ?k) ?pss)"
    then obtain i where "i < length (drop (Suc ?k) ?pss)" "ps = drop (Suc ?k) ?pss ! i"
      by (auto simp: in_set_conv_nth)
    then show "\<exists>t p. t \<noteq> ?q \<and> ps = splice_pairs src outs dws drs t p"
      using other [of "Suc ?k + i" ps] by simp
  qed
  also have "filter (writes_piece ?q) (concat (concat (take ?k ?pss))) = []"
  proof -
    have "\<exists>t p. t \<noteq> ?q \<and> ps = splice_pairs src outs dws drs t p" if "ps \<in> set (take ?k ?pss)" for ps
    proof -
      from that obtain i where "i < ?k" "ps = ?pss ! i" using k by (auto simp: in_set_conv_nth)
      then show ?thesis using other [of i ps] k by simp
    qed
    then show ?thesis by (rule writes_elsewhere [OF q _ subset_refl])
  qed
  finally have "length (filter (writes_piece ?q) ?new) =
      length (filter (writes_piece ?q) (concat (take (256 mod ?n) (?pss ! ?k))))" by simp
  also have "\<dots> = 256 mod ?n"
    using n by (simp only: splice_pieces_nth [OF k] writes_in_pairs [OF q mod_le_divisor] simp_thms if_True)
  finally show ?thesis using splice_broadcast_runs [OF assms(1-8), of s] by blast
qed

theorem splice_broadcast_skips_witness:
  "\<exists>ret s' new. perform_splice_broadcast full_ring (fixed_fstat 22544384) Map.empty 3 [5, 6, 7] [20, 21, 22]
      [30, 31, 32] sim_start = (Inr ret, s') \<and> sim_submitted s' = new \<and>
    length (filter (writes_piece 22282240) new) = 1"
proof -
  have sz: "(0 :: off_t) \<le>s 22544384" by code_simp
  have ports: "splice_ports [5, 6, 7] [20, 21, 22] [30, 31, 32]" by (simp add: splice_ports_def)
  have skip: "\<not> length [5, 6, 7 :: c_int] dvd 256"
    "256 div length [5, 6, 7 :: c_int] < (unat (22544384 :: off_t) + 262143) div 262144"
    by (simp_all add: dvd_eq_mod_eq_0)
  from splice_broadcast_skips [OF full_ring_ok ports sz fixed_fstat_size skip, of Map.empty 3 sim_start]
  show ?thesis by (simp add: sim_view_def sim_start_def rv_submitted_def)
qed

end
