(* ===== verification/Splice_Run.thy ===== *)
theory Splice_Run
  imports Splice Uring_Exec
begin

text \<open>
  The splice mode to the end: what the pairs of requests submitted by
  \<open>perform_splice_broadcast\<close> do to the files. A pair moves a piece into the output's pipe and
  from there into the output; pairs are not ordered among themselves. As long as no
  submission holds two pairs of one output the broadcast delivers; when one does, they share
  the pipe and nothing keeps their pieces apart.
\<close>

section \<open>One piece for every output\<close>

definition splice_wired :: "pipe_ends \<Rightarrow> c_int \<Rightarrow> c_int list \<Rightarrow> c_int list \<Rightarrow> c_int list \<Rightarrow> bool" where
  "splice_wired pipe_of src outs dws drs \<longleftrightarrow>
     pipe_of src = None \<and>
     (\<forall>i < length outs. pipe_of (dws ! i) \<noteq> None \<and> pipe_of (drs ! i) = pipe_of (dws ! i) \<and>
        (\<forall>j < length outs. j \<noteq> i \<longrightarrow> pipe_of (dws ! j) \<noteq> pipe_of (dws ! i))) \<and>
     (\<forall>out \<in> set outs. pipe_of out = None) \<and> src \<notin> set outs \<and> distinct outs"

abbreviation own_pipe :: "pipe_ends \<Rightarrow> c_int list \<Rightarrow> nat \<Rightarrow> nat" where
  "own_pipe pipe_of dws i \<equiv> the (pipe_of (dws ! i))"

definition splice_empty :: "pipe_ends \<Rightarrow> c_int list \<Rightarrow> c_int list \<Rightarrow> world \<Rightarrow> bool" where
  "splice_empty pipe_of outs dws w \<longleftrightarrow> (\<forall>i < length outs. wd_pipes w (own_pipe pipe_of dws i) = [])"

text \<open>One pair: not started, the piece in its pipe, or the piece in its output.\<close>

definition splice_stage :: "(c_int \<Rightarrow> byte list) \<Rightarrow> nat \<Rightarrow> byte list \<Rightarrow> nat \<Rightarrow> c_int \<Rightarrow> world \<Rightarrow>
    'd sqe list \<Rightarrow> 'd sqe list \<Rightarrow> bool" where
  "splice_stage files0 q d p out w es c \<longleftrightarrow>
     (c = es \<and> wd_pipes w p = [] \<and> wd_files w out = files0 out) \<or>
     (c = tl es \<and> wd_pipes w p = d \<and> wd_files w out = files0 out) \<or>
     (c = [] \<and> wd_pipes w p = [] \<and> wd_files w out = write_at (files0 out) q d)"

definition splice_run_inv :: "pipe_ends \<Rightarrow> c_int \<Rightarrow> c_int list \<Rightarrow> c_int list \<Rightarrow> (c_int \<Rightarrow> byte list) \<Rightarrow> nat \<Rightarrow>
    byte list \<Rightarrow> 'd sqe list list \<Rightarrow> 'd sqe list list \<times> world \<Rightarrow> bool" where
  "splice_run_inv pipe_of src outs dws files0 q d prs s \<longleftrightarrow>
     (case s of (cs, w) \<Rightarrow>
        length cs = length outs \<and> (\<forall>g. g \<notin> set outs \<longrightarrow> wd_files w g = files0 g) \<and>
        (\<forall>i < length outs. splice_stage files0 q d (own_pipe pipe_of dws i) (outs ! i) w (prs ! i) (cs ! i)))"

lemma splice_run_step:
  assumes law: "exec_law exec look pipe_of cap" and cap: "262144 \<le> cap"
    and wired: "splice_wired pipe_of src outs dws drs"
    and ql: "q < 18446744073709551616" "l \<le> 262144" "q + l \<le> length (files0 src)"
    and d: "d = piece q l (files0 src)" and prs: "prs = splice_pairs src outs dws drs (of_nat q) (of_nat l)"
    and inv: "splice_run_inv pipe_of src outs dws files0 q d prs (fst s, look (snd s))"
    and step: "kernel_step exec s s'"
  shows "splice_run_inv pipe_of src outs dws files0 q d prs (fst s', look (snd s'))"
  using step
proof cases
  case (run_head i cs e es w)
  let ?p = "own_pipe pipe_of dws"
  have inv': "length cs = length outs" "\<forall>g. g \<notin> set outs \<longrightarrow> wd_files (look w) g = files0 g"
    "\<forall>i < length outs. splice_stage files0 q d (?p i) (outs ! i) (look w) (prs ! i) (cs ! i)"
    using inv unfolding run_head(1) by (simp_all add: splice_run_inv_def)
  have i: "i < length outs" using inv'(1) run_head(3) by simp
  obtain p where ends: "pipe_of src = None" "pipe_of (dws ! i) = Some p" "pipe_of (drs ! i) = Some p"
    "pipe_of (outs ! i) = None" "src \<noteq> outs ! i" "src \<notin> set outs"
    using wired i unfolding splice_wired_def by fastforce
  then have p: "?p i = p" by simp
  have other: "?p j \<noteq> p \<and> outs ! j \<noteq> outs ! i" if j: "j < length outs" "j \<noteq> i" for j
  proof -
    have "pipe_of (dws ! j) \<noteq> pipe_of (dws ! i)" "pipe_of (dws ! j) \<noteq> None" "distinct outs"
      using wired i j unfolding splice_wired_def by blast+
    then show ?thesis using ends(2) i j by (auto simp: nth_eq_iff_index_eq)
  qed
  have n: "unat (ucast (of_nat l :: size_t) :: 32 word) = l" "unat (of_nat q :: off_t) = q"
    using ql(1,2) by (simp_all add: unsigned_ucast_eq unat_of_nat take_bit_eq_mod)
  have dl: "length d = l" unfolding d using ql(3) by (rule length_piece)
  have src: "wd_files (look w) src = files0 src" using inv'(2) ends(6) by blast
  let ?in = "splice_read src (dws ! i) (of_nat q) (of_nat l)"
  let ?out = "splice_write (drs ! i) (outs ! i) (of_nat q) (of_nat l)"
  have pair: "prs ! i = [?in, ?out]" using i by (simp add: prs splice_pairs_def)
  have "splice_stage files0 q d p (outs ! i) (look w) (prs ! i) (e # es)"
    using inv'(3) i run_head(4) p by metis
  then consider "e = ?in" "es = tl (prs ! i)" "wd_pipes (look w) p = []"
      "wd_files (look w) (outs ! i) = files0 (outs ! i)"
    | "e = ?out" "es = []" "wd_pipes (look w) p = d" "wd_files (look w) (outs ! i) = files0 (outs ! i)"
    by (auto simp: splice_stage_def pair)
  then show ?thesis
  proof cases
    case 1
    have "look (exec (sq_op e) w) = effect pipe_of (sq_op e) (look w)"
      by (rule exec_lawD [OF law]) (use 1 ends ql(2) cap n in \<open>simp add: splice_read_def\<close>)
    then have w': "look (exec (sq_op e) w) = pipe_put p d (look w)"
      using 1 ends n src d by (simp add: splice_read_def)
    have "splice_stage files0 q d (?p j) (outs ! j) (pipe_put p d (look w)) (prs ! j) (cs[i := es] ! j)"
      if j: "j < length outs" for j
      using inv' j other [OF j] 1 i p by (cases "j = i") (auto simp: splice_stage_def)
    then show ?thesis using inv' unfolding run_head(2) splice_run_inv_def by (simp add: w')
  next
    case 2
    have "look (exec (sq_op e) w) = effect pipe_of (sq_op e) (look w)"
      by (rule exec_lawD [OF law]) (use 2 ends dl n in \<open>simp add: splice_write_def\<close>)
    then have w': "look (exec (sq_op e) w) = pipe_drop p l (file_write (outs ! i) q d (look w))"
      using 2 ends n dl by (simp add: splice_write_def)
    have "splice_stage files0 q d (?p j) (outs ! j) (pipe_drop p l (file_write (outs ! i) q d (look w)))
        (prs ! j) (cs[i := es] ! j)"
      if j: "j < length outs" for j
      using inv' j other [OF j] 2 i dl p by (cases "j = i") (auto simp: splice_stage_def)
    moreover have "g \<noteq> outs ! i" if "g \<notin> set outs" for g using that i by auto
    ultimately show ?thesis using inv' unfolding run_head(2) splice_run_inv_def by (simp add: w')
  qed
qed

lemma linked_splice_pairs: "c \<in> set (splice_pairs src outs dws drs t p) \<Longrightarrow> linked_chain c"
  by (auto simp: splice_pairs_def linked_chain_def splice_read_def splice_write_def)

text \<open>A whole batch of one pair per output, in any order.\<close>

lemma splice_batch_run:
  assumes law: "exec_law exec look pipe_of cap" and cap: "262144 \<le> cap"
    and wired: "splice_wired pipe_of src outs dws drs"
    and ql: "q < 18446744073709551616" "l \<le> 262144" "q + l \<le> length (wd_files (look w) src)"
    and empty: "splice_empty pipe_of outs dws (look w)"
    and run: "(kernel_step exec)\<^sup>*\<^sup>*
      (link_chains (concat (splice_pairs src outs dws drs (of_nat q) (of_nat l))), w) (cs, w')" "all_run cs"
  shows "wd_files (look w') g = (if g \<in> set outs then write_at (wd_files (look w) g) q (piece q l (wd_files (look w) src))
           else wd_files (look w) g)" "splice_empty pipe_of outs dws (look w')"
proof -
  let ?prs = "splice_pairs src outs dws drs (of_nat q) (of_nat l)"
  let ?d = "piece q l (wd_files (look w) src)"
  let ?inv = "\<lambda>s. splice_run_inv pipe_of src outs dws (wd_files (look w)) q ?d ?prs (fst s, look (snd s))"
  have chains: "link_chains (concat ?prs) = ?prs"
    by (rule chains_concat) (auto intro: linked_splice_pairs)
  have step: "?inv s'" if "?inv s" "kernel_step exec s s'" for s s'
    by (rule splice_run_step [OF law cap wired ql refl refl that])
  have sys: "invariant_system ?inv (kernel_step exec) ?inv"
    by (rule invariant_system.intro) (assumption | erule (1) step)+
  have "?inv (?prs, w)"
    using empty by (simp add: splice_run_inv_def splice_stage_def splice_empty_def)
  from invariant_system.reachable_inv [OF sys this run(1) [unfolded chains]] have inv:
    "length cs = length outs" "\<forall>g. g \<notin> set outs \<longrightarrow> wd_files (look w') g = wd_files (look w) g"
    "\<forall>i < length outs. splice_stage (wd_files (look w)) q ?d (own_pipe pipe_of dws i) (outs ! i) (look w')
       (?prs ! i) (cs ! i)"
    by (simp_all add: splice_run_inv_def)
  have last: "wd_pipes (look w') (own_pipe pipe_of dws i) = [] \<and>
      wd_files (look w') (outs ! i) = write_at (wd_files (look w) (outs ! i)) q ?d" if i: "i < length outs" for i
  proof -
    have "cs ! i = []" using run(2) inv(1) i by (simp add: all_run_def)
    moreover have "?prs ! i \<noteq> []" "tl (?prs ! i) \<noteq> []" using i by (simp_all add: splice_pairs_def)
    ultimately show ?thesis using inv(3) i unfolding splice_stage_def by metis
  qed
  show "splice_empty pipe_of outs dws (look w')" using last by (simp add: splice_empty_def)
  show "wd_files (look w') g = (if g \<in> set outs then write_at (wd_files (look w) g) q ?d else wd_files (look w) g)"
    using last inv(2) by (auto simp: in_set_conv_nth)
qed

lemma splice_pieces_run:
  assumes law: "exec_law exec look pipe_of cap" and cap: "262144 \<le> cap"
    and wired: "splice_wired pipe_of src outs dws drs" and len: "length bytes < 18446744073709551616"
  shows "t \<le> length bytes \<Longrightarrow> copied src outs bytes files0 t (look w) \<Longrightarrow> splice_empty pipe_of outs dws (look w) \<Longrightarrow>
    batch_runs exec (map concat (splice_pieces src outs dws drs (length bytes) t)) w w' \<Longrightarrow>
    copied src outs bytes files0 (length bytes) (look w') \<and> splice_empty pipe_of outs dws (look w')"
proof (induction "262144 :: nat" "length bytes" t arbitrary: w rule: plan.induct)
  case (1 t)
  show ?case
  proof (cases "t < length bytes")
    case False
    with 1 show ?thesis by (simp add: splice_pieces_def)
  next
    case True
    let ?l = "min 262144 (length bytes - t)"
    from "1.prems"(4) True obtain cs w1 where w1:
      "(kernel_step exec)\<^sup>*\<^sup>* (link_chains (concat (splice_pairs src outs dws drs (of_nat t) (of_nat ?l))), w) (cs, w1)"
      "all_run cs" "batch_runs exec (map concat (splice_pieces src outs dws drs (length bytes) (t + ?l))) w1 w'"
      by (auto simp: splice_pieces_def plan_step)
    note src = copied_src [OF "1.prems"(2)]
    have tl: "t < 18446744073709551616" "?l \<le> 262144" "t + ?l \<le> length (wd_files (look w) src)"
      using True len src by simp_all
    note batch = splice_batch_run [OF law cap wired tl "1.prems"(3) w1(1,2)]
    have "src \<notin> set outs" using wired by (simp add: splice_wired_def)
    then have "copied src outs bytes files0 (t + ?l) (look w1)"
      by (rule copied_advance [OF "1.prems"(2)]) (use True batch(1) src in simp_all)
    then show ?thesis by (intro "1.hyps" [OF _ _ _ batch(2) w1(3)]) (use True in simp_all)
  qed
qed

text \<open>When every submission is one piece.\<close>

lemma splice_flushes_pieces:
  assumes "\<forall>ps \<in> set pss. length ps = n" "n = 256 \<or> (n \<le> 256 \<and> length pss \<le> 1)"
  shows "splice_flushes [] pss = pss"
proof -
  have "splice_flushes [] pss = pss" if "\<forall>ps \<in> set pss. length ps = 256"
    using that by (induction pss) simp_all
  moreover have "splice_flushes [] pss = pss" if "n \<le> 256" "length pss \<le> 1"
    using assms(1) that by (cases pss) simp_all
  ultimately show ?thesis using assms by auto
qed

section \<open>Properties\<close>

text \<open>The whole call.\<close>

lemma splice_broadcast_outputs:
  assumes "uring_laws ur view" "init_succeeds ur" "submits_all ur view" "waits_succeed ur"
      "completions_full ur"
    and ports: "splice_ports outs dws drs"
    and size: "get_file_size fstat blk src = of_nat (length bytes)" "length bytes < 9223372036854775808"
    and fits: "length outs = 256 \<or> (length outs \<le> 256 \<and> length bytes \<le> 262144)"
    and law: "exec_law exec look pipe_of cap" and cap: "262144 \<le> cap"
    and wired: "splice_wired pipe_of src outs dws drs"
    and w: "wd_files (look w) src = bytes" "splice_empty pipe_of outs dws (look w)"
  shows "\<exists>s' bs. perform_splice_broadcast ur fstat blk src outs dws drs s =
      (Inr (of_nat (length outs) * of_nat (length bytes)), s') \<and>
    rv_batches (view s') = rv_batches (view s) @ bs \<and>
    rv_drained (view s') = rv_drained (view s) @ replicate (length bs) True \<and>
    (\<forall>w'. runs_to exec (map (\<lambda>b. (b, True)) bs) w w' \<longrightarrow>
       (\<forall>out \<in> set outs. wd_files (look w') out = bytes @ drop (length bytes) (wd_files (look w) out)) \<and>
       (\<forall>g. g \<notin> set outs \<longrightarrow> wd_files (look w') g = wd_files (look w) g) \<and>
       splice_empty pipe_of outs dws (look w'))"
proof -
  let ?sz = "of_nat (length bytes) :: off_t"
  have sz: "unat ?sz = length bytes" "0 \<le>s ?sz"
    using size(2) by (simp_all add: unat_of_nat take_bit_eq_mod nonneg_iff_unat64)
  let ?pss = "splice_pieces src outs dws drs (length bytes) 0"
  have count: "length ?pss \<le> 1" if "length bytes \<le> 262144"
    using that by (simp add: length_splice_pieces)
  have flushes: "splice_flushes [] ?pss = ?pss"
    by (rule splice_flushes_pieces [OF splice_pieces_len]) (use fits count in auto)
  have n: "0 < length outs" using ports by (simp add: splice_ports_def)
  have "length outs * length ?pss \<le> 256" if "length outs \<le> 256" "length bytes \<le> 262144"
    using mult_le_mono [OF that(1) count [OF that(2)]] by simp
  then have "splice_sent 0 ?pss = concat ?pss"
    using fits by (intro splice_sent_fits [OF n splice_pieces_len]) auto
  then have sum: "sum_list (map sq_data (concat (splice_sent 0 ?pss))) = of_nat (length outs) * of_nat (length bytes)"
    using splice_pieces_data [of src outs dws drs ?sz] by (simp only: sz(1))
  from splice_broadcast_runs [OF assms(1-6) sz(2) size(1), of s] obtain s' where s':
    "perform_splice_broadcast ur fstat blk src outs dws drs s =
       (Inr (of_nat (length outs) * of_nat (length bytes)), s')"
    "rv_batches (view s') = rv_batches (view s) @ map concat ?pss"
    "rv_drained (view s') = rv_drained (view s) @ replicate (length (map concat ?pss)) True"
    unfolding sz(1) flushes by (auto simp only: sum)
  have len: "length bytes < 18446744073709551616" using size(2) by simp
  have "(\<forall>out \<in> set outs. wd_files (look w') out = bytes @ drop (length bytes) (wd_files (look w) out)) \<and>
       (\<forall>g. g \<notin> set outs \<longrightarrow> wd_files (look w') g = wd_files (look w) g) \<and>
       splice_empty pipe_of outs dws (look w')"
    if "runs_to exec (map (\<lambda>b. (b, True)) (map concat ?pss)) w w'" for w'
    using splice_pieces_run [OF law cap wired len _ copied_start [OF w(1)] w(2) drained_runs [OF that]]
      copied_end by fastforce
  with s' show ?thesis by blast
qed

text \<open>
  C11: the splice broadcast delivers files of one piece to at most 256 outputs, and any file
  to exactly 256. With distinct outputs, a pipe of its own for each, pipes that start empty and hold 256 KiB,
  and a kernel that transfers all it can, the call returns outputs times size and every run
  of what it submitted, in whatever order the pairs of the outputs run, ends with each output
  beginning with the input's bytes, the pipes empty and every other file unchanged.
\<close>

theorem splice_broadcast_delivers:
  assumes "uring_laws ur view" "init_succeeds ur" "submits_all ur view" "waits_succeed ur"
      "completions_full ur"
    and ports: "splice_ports outs dws drs"
    and size: "get_file_size fstat blk src = of_nat (length bytes)" "length bytes < 9223372036854775808"
    and fits: "length outs = 256 \<or> (length outs \<le> 256 \<and> length bytes \<le> 262144)"
    and law: "exec_law exec look pipe_of cap" and cap: "262144 \<le> cap"
    and wired: "splice_wired pipe_of src outs dws drs"
    and w: "wd_files (look w) src = bytes" "splice_empty pipe_of outs dws (look w)"
  shows "\<exists>s' bs. perform_splice_broadcast ur fstat blk src outs dws drs s =
      (Inr (of_nat (length outs) * of_nat (length bytes)), s') \<and>
    rv_batches (view s') = rv_batches (view s) @ bs \<and>
    rv_drained (view s') = rv_drained (view s) @ replicate (length bs) True \<and>
    (\<forall>w'. runs_to exec (map (\<lambda>b. (b, True)) bs) w w' \<longrightarrow>
       (\<forall>out \<in> set outs. wd_files (look w') out = bytes @ drop (length bytes) (wd_files (look w) out)) \<and>
       (\<forall>g. g \<notin> set outs \<longrightarrow> wd_files (look w') g = wd_files (look w) g) \<and>
       splice_empty pipe_of outs dws (look w'))"
  using assms by (rule splice_broadcast_outputs)

theorem splice_broadcast_delivers_witness:
  "\<exists>s' w'. perform_splice_broadcast full_ring (fixed_fstat 3) Map.empty 3 [5, 6] [20, 22] [21, 23] sim_start =
      (Inr 6, s') \<and>
    runs_to (effect (\<lambda>fd. if fd = 20 \<or> fd = 21 then Some 0 else if fd = 22 \<or> fd = 23 then Some 1 else None))
      (map (\<lambda>b. (b, True)) (sim_batches s'))
      \<lparr>wd_files = (\<lambda>fd. if fd = 3 then [7, 8, 9] else []), wd_pipes = (\<lambda>p. []), wd_mem = (\<lambda>p. [])\<rparr> w' \<and>
    wd_files w' 5 = [7, 8, 9] \<and> wd_files w' 6 = [7, 8, 9] \<and> wd_files w' 4 = []"
proof -
  let ?w = "\<lparr>wd_files = (\<lambda>fd. if fd = 3 then [7, 8, 9] else []), wd_pipes = (\<lambda>p. []), wd_mem = (\<lambda>p. [])\<rparr> :: world"
  let ?pipe = "\<lambda>fd :: c_int. if fd = 20 \<or> fd = 21 then Some 0 else if fd = 22 \<or> fd = 23 then Some (1 :: nat) else None"
  have ports: "splice_ports [5, 6] [20, 22] [21, 23]" by (simp add: splice_ports_def)
  have sz: "get_file_size (fixed_fstat 3) Map.empty 3 = of_nat (length [7, 8, 9 :: byte])"
    "length [7, 8, 9 :: byte] < 9223372036854775808"
    using fixed_fstat_size [of 3 Map.empty 3] by simp_all
  have fits: "length [5, 6 :: c_int] = 256 \<or> (length [5, 6 :: c_int] \<le> 256 \<and> length [7, 8, 9 :: byte] \<le> 262144)" by simp
  have wired: "splice_wired ?pipe 3 [5, 6] [20, 22] [21, 23]"
    by (auto simp: splice_wired_def less_Suc_eq)
  have w: "wd_files ?w 3 = [7, 8, 9]" "splice_empty ?pipe [5, 6] [20, 22] ?w" by (simp_all add: splice_empty_def)
  from splice_broadcast_delivers [OF full_ring_ok ports sz fits effect_exec_law [of ?pipe 262144] order_refl
      wired w, where s = sim_start]
  obtain s' where s': "perform_splice_broadcast full_ring (fixed_fstat 3) Map.empty 3 [5, 6] [20, 22] [21, 23]
      sim_start = (Inr 6, s')"
    and all: "\<And>w'. runs_to (effect ?pipe) (map (\<lambda>b. (b, True)) (sim_batches s')) ?w w' \<Longrightarrow>
      wd_files w' 5 = [7, 8, 9] \<and> wd_files w' 6 = [7, 8, 9] \<and> wd_files w' 4 = []"
    by (auto simp: sim_view_def sim_start_def)
  obtain w' where r: "runs_to (effect ?pipe) (map (\<lambda>b. (b, True)) (sim_batches s')) ?w w'"
    by (rule exE [OF runs_to_exists])
  from s' r all [OF r] show ?thesis by blast
qed

text \<open>
  C19: two pieces of one output in flight can change places. A file of two full pieces is
  spliced to one output by two pairs in one submission, which share the output's pipe. One
  of the orders the kernel may choose reads both pieces into the pipe and then runs the
  write of the second piece first: it takes the first piece out of the pipe, and the output
  ends with its halves exchanged, while the call returns the file's size as after a copy.
\<close>

theorem splice_broadcast_scrambles:
  assumes "uring_laws ur view" "init_succeeds ur" "submits_all ur view" "waits_succeed ur"
      "completions_full ur"
    and "get_file_size fstat blk src = 524288" "length bytes = 524288"
    and law: "exec_law exec look pipe_of cap" and cap: "524288 \<le> cap"
    and wired: "splice_wired pipe_of src [out] [dw] [dr]"
    and w: "wd_files (look w) src = bytes" "wd_files (look w) out = []" "splice_empty pipe_of [out] [dw] (look w)"
  shows "\<exists>s' bs w'. perform_splice_broadcast ur fstat blk src [out] [dw] [dr] s = (Inr 524288, s') \<and>
    rv_batches (view s') = rv_batches (view s) @ bs \<and>
    rv_drained (view s') = rv_drained (view s) @ replicate (length bs) True \<and>
    runs_to exec (map (\<lambda>b. (b, True)) bs) w w' \<and>
    wd_files (look w') out = drop 262144 bytes @ take 262144 bytes"
proof -
  let ?C = "262144 :: size_t"
  let ?r1 = "splice_read src dw 0 ?C" and ?w1 = "splice_write dr out 0 ?C"
  let ?r2 = "splice_read src dw ?C ?C" and ?w2 = "splice_write dr out ?C ?C"
  have ports: "splice_ports [out] [dw] [dr]" by (simp add: splice_ports_def)
  have sz: "(0 :: off_t) \<le>s 524288" by code_simp
  have "plan 262144 524288 0 = [(0, 262144), (262144, 262144)]" by (simp add: plan_step)
  then have pss: "splice_pieces src [out] [dw] [dr] 524288 0 = [[[?r1, ?w1]], [[?r2, ?w2]]]"
    by (simp add: splice_pieces_def splice_pairs_def)
  from splice_broadcast_runs [OF assms(1-5) ports sz assms(6), of s] obtain s' where
    s': "perform_splice_broadcast ur fstat blk src [out] [dw] [dr] s = (Inr 524288, s')"
      "rv_batches (view s') = rv_batches (view s) @ [[?r1, ?w1, ?r2, ?w2]]"
      "rv_drained (view s') = rv_drained (view s) @ [True]"
    by (auto simp: pss splice_read_def splice_write_def)
  obtain p where p: "pipe_of src = None" "pipe_of dw = Some p" "pipe_of dr = Some p" "pipe_of out = None" "src \<noteq> out"
    using wired by (auto simp: splice_wired_def)
  let ?v1 = "exec (sq_op ?r1) w"
  let ?v2 = "exec (sq_op ?r2) ?v1"
  let ?v3 = "exec (sq_op ?w2) ?v2"
  let ?v4 = "exec (sq_op ?w1) ?v3"
  let ?a = "take 262144 bytes" and ?b = "drop 262144 bytes"
  have len: "length ?a = 262144" "length ?b = 262144" using assms(7) by simp_all
  have empty: "wd_pipes (look w) p = []" using w(3) p by (simp add: splice_empty_def)
  have "look ?v1 = effect pipe_of (sq_op ?r1) (look w)"
    by (rule exec_lawD [OF law]) (use p empty cap in \<open>simp add: splice_read_def\<close>)
  then have v1: "look ?v1 = pipe_put p ?a (look w)" using p w(1) by (simp add: splice_read_def piece_def)
  have "look ?v2 = effect pipe_of (sq_op ?r2) (look ?v1)"
    by (rule exec_lawD [OF law]) (use p empty cap len v1 in \<open>simp add: splice_read_def\<close>)
  then have v2: "look ?v2 = pipe_put p ?b (pipe_put p ?a (look w))"
    using p w(1) v1 len by (simp add: splice_read_def piece_def)
  have "look ?v3 = effect pipe_of (sq_op ?w2) (look ?v2)"
    by (rule exec_lawD [OF law]) (use p empty len v2 in \<open>simp add: splice_write_def\<close>)
  then have v3: "wd_files (look ?v3) out = write_at [] 262144 ?a" "wd_pipes (look ?v3) p = ?b"
    using p w(2) v2 len empty by (simp_all add: splice_write_def)
  have "look ?v4 = effect pipe_of (sq_op ?w1) (look ?v3)"
    by (rule exec_lawD [OF law]) (use p len v3 in \<open>simp add: splice_write_def\<close>)
  then have "wd_files (look ?v4) out = write_at (write_at [] 262144 ?a) 0 ?b"
    using p v3 len by (simp add: splice_write_def)
  also have "\<dots> = ?b @ ?a"
    using len by (auto simp: write_at_def)
  finally have out: "wd_files (look ?v4) out = ?b @ ?a" .
  have "link_chains [?r1, ?w1, ?r2, ?w2] = [[?r1, ?w1], [?r2, ?w2]]"
    by (simp add: splice_read_def splice_write_def)
  then have "(ring_step exec)\<^sup>*\<^sup>* ([([?r1, ?w1, ?r2, ?w2], True)], [], w) ([], [[?r1, ?w1], [?r2, ?w2]], w)"
    using ring_take [of True "[]" exec "[?r1, ?w1, ?r2, ?w2]" "[]" w] by (simp add: all_run_def r_into_rtranclp)
  moreover have "(kernel_step exec)\<^sup>*\<^sup>* ([[?r1, ?w1], [?r2, ?w2]], w) ([[], []], ?v4)"
  proof -
    have "kernel_step exec ([[?r1, ?w1], [?r2, ?w2]], w) ([[?w1], [?r2, ?w2]], ?v1)"
      using run_head [of 0 "[[?r1, ?w1], [?r2, ?w2]]" ?r1 "[?w1]" exec w] by simp
    moreover have "kernel_step exec ([[?w1], [?r2, ?w2]], ?v1) ([[?w1], [?w2]], ?v2)"
      using run_head [of 1 "[[?w1], [?r2, ?w2]]" ?r2 "[?w2]" exec ?v1] by simp
    moreover have "kernel_step exec ([[?w1], [?w2]], ?v2) ([[?w1], []], ?v3)"
      using run_head [of 1 "[[?w1], [?w2]]" ?w2 "[]" exec ?v2] by simp
    moreover have "kernel_step exec ([[?w1], []], ?v3) ([[], []], ?v4)"
      using run_head [of 0 "[[?w1], []]" ?w1 "[]" exec ?v3] by simp
    ultimately show ?thesis by (meson converse_rtranclp_into_rtranclp rtranclp.rtrancl_refl)
  qed
  from ring_runs [OF this, of "[]"] have "(ring_step exec)\<^sup>*\<^sup>* ([], [[?r1, ?w1], [?r2, ?w2]], w) ([], [[], []], ?v4)"
    by simp
  ultimately have "runs_to exec [([?r1, ?w1, ?r2, ?w2], True)] w ?v4"
    unfolding runs_to_def by (intro exI [of _ "[[], []]"]) (auto simp: all_run_def intro: rtranclp_trans)
  with s' out show ?thesis by (intro exI [of _ s'] exI [of _ "[[?r1, ?w1, ?r2, ?w2]]"] exI [of _ ?v4]) simp
qed

text \<open>With 256 KiB of ones before 256 KiB of twos, the output is not the input.\<close>

definition two_halves :: "byte list" where
  "two_halves = replicate 262144 1 @ replicate 262144 2"

theorem splice_broadcast_scrambles_witness:
  "\<exists>s' w'. perform_splice_broadcast full_ring (fixed_fstat 524288) Map.empty 3 [5] [20] [21] sim_start =
      (Inr 524288, s') \<and>
    runs_to (effect [20 \<mapsto> 0, 21 \<mapsto> 0]) (map (\<lambda>b. (b, True)) (sim_batches s'))
      \<lparr>wd_files = (\<lambda>fd. if fd = 3 then two_halves else []), wd_pipes = (\<lambda>p. []), wd_mem = (\<lambda>p. [])\<rparr> w' \<and>
    wd_files w' 5 \<noteq> two_halves"
proof -
  let ?w = "\<lparr>wd_files = (\<lambda>fd. if fd = 3 then two_halves else []), wd_pipes = (\<lambda>p. []), wd_mem = (\<lambda>p. [])\<rparr> :: world"
  have len: "length two_halves = 524288" by (simp add: two_halves_def)
  have wired: "splice_wired [20 \<mapsto> 0, 21 \<mapsto> 0] 3 [5] [20] [21]" by (simp add: splice_wired_def)
  have w: "wd_files ?w 3 = two_halves" "wd_files ?w 5 = []" "splice_empty [20 \<mapsto> 0, 21 \<mapsto> 0] [5] [20] ?w"
    by (simp_all add: splice_empty_def)
  from splice_broadcast_scrambles [OF full_ring_ok fixed_fstat_size len
      effect_exec_law [of "[20 \<mapsto> 0, 21 \<mapsto> 0]" 524288] order_refl wired w, of Map.empty sim_start]
  obtain s' w' where r: "perform_splice_broadcast full_ring (fixed_fstat 524288) Map.empty 3 [5] [20] [21] sim_start =
      (Inr 524288, s')"
    "runs_to (effect [20 \<mapsto> 0, 21 \<mapsto> 0]) (map (\<lambda>b. (b, True)) (sim_batches s')) ?w w'"
    "wd_files w' 5 = drop 262144 two_halves @ take 262144 two_halves"
    by (auto simp: sim_view_def sim_start_def)
  have "hd (wd_files w' 5) = 2" "hd two_halves = 1"
    unfolding r(3) by (simp_all add: two_halves_def hd_append)
  then have "wd_files w' 5 \<noteq> two_halves" by auto
  with r(1,2) show ?thesis by blast
qed

end
