(* ===== verification/Main_Rings.thy ===== *)
theory Main_Rings
  imports Main_Run Uring_Vec_Run Tee_Run Splice_Run
begin

text \<open>
  \<open>main\<close> together with the engines that work through a ring: modes 2, 3 and the ones from 4
  on. The rest of the machine is the state of the ring (and of the allocator) and that of the
  kernel's world of files and pipes. What an engine submits runs as \<open>Uring_Exec\<close> says:
  \<open>settle\<close> is the kernel's choice of one of the runs its history allows.
\<close>

section \<open>Opening the pipes\<close>

lemma new_pipe_run:
  assumes laws: "main_file_laws mc ino files rest" "calls_succeed mc"
  obtains t' k' where "new_ManagedPipe (mc_mkfifo mc) dir i (t, k) = (Inr (pipe_path dir i), t', k')"
    "map_of t' = map_of t" "files k' = files k" "rest k' = rest k"
proof -
  obtain r t' k' where m: "mc_mkfifo mc (pipe_path dir i) (t, k) = (r, t', k')" by (metis prod_cases3)
  have "fst (mc_mkfifo mc (pipe_path dir i) (t, k)) = None" using laws(2) by (simp add: calls_succeed_def)
  then have "r = None" unfolding m by simp
  moreover have "map_of t' = map_of t" "files k' = files k" "rest k' = rest k"
    using main_keepsD(2) [OF laws(1), of "(t, k)" "pipe_path dir i"] unfolding m by (simp_all add: keeps_def)
  ultimately show ?thesis using m by (intro that [of t' k']) (simp_all add: new_ManagedPipe_def)
qed

lemma open_ends_run:
  assumes laws: "main_file_laws mc ino files rest" "calls_succeed mc"
  obtains w r t' k' where "open_ends mc path (t, k) = (Some (w, r), t', k')"
    "map_of t' w = Some (ino path)" "map_of t' r = Some (ino path)"
    "\<And>fd. map_of t fd \<noteq> None \<Longrightarrow> map_of t' fd = map_of t fd" "files k' = files k" "rest k' = rest k"
proof -
  obtain w t1 k1 where op: "mc_open mc path RDWR (t, k) = (w, t1, k1)" by (metis prod_cases3)
  note o = main_openD [OF laws op]
  obtain t2 k2 where sz: "mc_setpipe_sz mc w (1024 * 1024) (t1, k1) = (t2, k2)" by fastforce
  have s: "map_of t2 = map_of t1" "files k2 = files k1" "rest k2 = rest k1"
    using main_keepsD(4) [OF laws(1), of "(t1, k1)" w "1024 * 1024"] unfolding sz by (simp_all add: keeps_def)
  obtain r t3 k3 where du: "mc_dup mc w (t2, k2) = (r, t3, k3)" by (metis prod_cases3)
  note d = main_dupD [OF laws du]
  obtain t4 k4 where sz2: "mc_setpipe_sz mc r (1024 * 1024) (t3, k3) = (t4, k4)" by fastforce
  have s2: "map_of t4 = map_of t3" "files k4 = files k3" "rest k4 = rest k3"
    using main_keepsD(4) [OF laws(1), of "(t3, k3)" r "1024 * 1024"] unfolding sz2 by (simp_all add: keeps_def)
  show ?thesis
  proof (rule that)
    show "open_ends mc path (t, k) = (Some (w, r), t4, k4)"
      using op o(1) sz du sz2 by (simp add: open_ends_def Let_def)
    have w: "map_of t2 w = Some (ino path)" by (simp add: s o)
    then have ne: "r \<noteq> w" using d(3) by auto
    show "map_of t4 w = Some (ino path)" using w ne by (simp add: s2 d)
    show "map_of t4 r = Some (ino path)" using w by (simp add: s2 d)
    show "map_of t4 fd = map_of t fd" if "map_of t fd \<noteq> None" for fd
    proof -
      have "fd \<noteq> w" using that o(3) by auto
      then have "map_of t2 fd = map_of t fd" by (simp add: s o)
      moreover have "fd \<noteq> r" using that calculation d(3) by auto
      ultimately show ?thesis by (simp add: s2 d)
    qed
    show "files k4 = files k" by (simp add: s s2 d o truncates_def)
    show "rest k4 = rest k" by (simp add: s s2 d o)
  qed
qed

lemma open_pipes_run:
  assumes laws: "main_file_laws mc ino files rest" "calls_succeed mc"
  shows "\<exists>ps ws rs t' k'. open_pipes mc dir i n (t, k) = ((Try_ok, ps, ws, rs), t', k') \<and>
    map (map_of t') ws = map (\<lambda>j. Some (ino (pipe_path dir (int j + 1)))) [i..<i + n] \<and>
    map (map_of t') rs = map (\<lambda>j. Some (ino (pipe_path dir (int j + 1)))) [i..<i + n] \<and>
    (\<forall>fd. map_of t fd \<noteq> None \<longrightarrow> map_of t' fd = map_of t fd) \<and> files k' = files k \<and> rest k' = rest k"
proof (induction n arbitrary: i t k)
  case (Suc n)
  let ?p = "pipe_path dir (int i + 1)"
  obtain t1 k1 where mk: "new_ManagedPipe (mc_mkfifo mc) dir (int i + 1) (t, k) = (Inr ?p, t1, k1)"
    "map_of t1 = map_of t" "files k1 = files k" "rest k1 = rest k" by (rule new_pipe_run [OF laws])
  obtain w r t2 k2 where en: "open_ends mc ?p (t1, k1) = (Some (w, r), t2, k2)"
    "map_of t2 w = Some (ino ?p)" "map_of t2 r = Some (ino ?p)"
    "\<And>fd. map_of t1 fd \<noteq> None \<Longrightarrow> map_of t2 fd = map_of t1 fd" "files k2 = files k1" "rest k2 = rest k1"
    by (rule open_ends_run [OF laws, of ?p t1 k1]) blast
  from Suc.IH [of "Suc i" t2 k2] obtain ps ws rs t' k' where
    more: "open_pipes mc dir (Suc i) n (t2, k2) = ((Try_ok, ps, ws, rs), t', k')"
      "map (map_of t') ws = map (\<lambda>j. Some (ino (pipe_path dir (int j + 1)))) [Suc i..<Suc i + n]"
      "map (map_of t') rs = map (\<lambda>j. Some (ino (pipe_path dir (int j + 1)))) [Suc i..<Suc i + n]"
      "\<forall>fd. map_of t2 fd \<noteq> None \<longrightarrow> map_of t' fd = map_of t2 fd" "files k' = files k2" "rest k' = rest k2"
    by blast
  have upt: "[i..<i + Suc n] = i # [Suc i..<Suc i + n]" using upt_conv_Cons [of i "i + Suc n"] by simp
  have "open_pipes mc dir i (Suc n) (t, k) = ((Try_ok, ?p # ps, w # ws, r # rs), t', k')"
    using mk(1) en(1) more(1) by simp
  moreover have "map_of t' w = Some (ino ?p)" "map_of t' r = Some (ino ?p)" using more(4) en(2,3) by simp_all
  moreover have "map_of t' fd = map_of t fd" if "map_of t fd \<noteq> None" for fd
    using more(4) en(4) [of fd] mk(2) that by simp
  moreover have "files k' = files k" "rest k' = rest k"
    using more(5,6) en(5,6) mk(3,4) by simp_all
  ultimately show ?case unfolding upt using more(2,3) by auto
qed simp

section \<open>The pipe modes\<close>

text \<open>
  An engine whose calls go to the files and pipes its descriptors are open on; a pipe, too,
  has a number, the same for its two ends.
\<close>

definition splice_on_files :: "(c_int \<Rightarrow> c_int list \<Rightarrow> c_int list \<Rightarrow> c_int list \<Rightarrow> 'k \<Rightarrow> (cpp_error + size_t) \<times> 'k) \<Rightarrow>
    c_int \<Rightarrow> c_int list \<Rightarrow> c_int list \<Rightarrow> c_int list \<Rightarrow> fd_table \<times> 'k \<Rightarrow> (cpp_error + size_t) \<times> fd_table \<times> 'k" where
  "splice_on_files m src outs ws rs s =
     (case s of (t, k) \<Rightarrow>
        (case m (file_of t src) (map (file_of t) outs) (map (file_of t) ws) (map (file_of t) rs) k of
           (r, k') \<Rightarrow> (r, t, k')))"

definition tee_on_files ::
    "(c_int \<Rightarrow> c_int \<Rightarrow> c_int \<Rightarrow> c_int list \<Rightarrow> c_int list \<Rightarrow> c_int list \<Rightarrow> 'k \<Rightarrow> (cpp_error + size_t) \<times> 'k) \<Rightarrow>
    c_int \<Rightarrow> c_int \<Rightarrow> c_int \<Rightarrow> c_int list \<Rightarrow> c_int list \<Rightarrow> c_int list \<Rightarrow> fd_table \<times> 'k \<Rightarrow>
    (cpp_error + size_t) \<times> fd_table \<times> 'k" where
  "tee_on_files m src w r outs ws rs s =
     (case s of (t, k) \<Rightarrow>
        (case m (file_of t src) (file_of t w) (file_of t r) (map (file_of t) outs) (map (file_of t) ws)
                (map (file_of t) rs) k of
           (v, k') \<Rightarrow> (v, t, k')))"

definition pipe_files :: "(string \<Rightarrow> c_int) \<Rightarrow> string list \<Rightarrow> c_int list" where
  "pipe_files ino argv =
     map (\<lambda>j. ino (pipe_path (run_dir argv) (int j + 1))) [0..<nat (atoi (argv ! 3))]"

lemma unlink_all_files:
  assumes "main_file_laws mc ino files rest"
  shows "files (snd (unlink_all mc ps s)) = files (snd s) \<and> rest (snd (unlink_all mc ps s)) = rest (snd s)"
proof (induction ps arbitrary: s)
  case (Cons p ps)
  have "keeps files rest s (mc_unlink mc p s)" by (rule main_keepsD [OF assms])
  with Cons.IH [of "mc_unlink mc p s"] show ?case by (simp add: destroy_ManagedPipe_def keeps_def)
qed simp

lemma main_pipes_run:
  assumes laws: "main_file_laws mc ino files rest" "calls_succeed mc"
    and argv: "4 \<le> length argv" "2 < atoi (argv ! 1)" "0 \<le> atoi (argv ! 3)"
    and engine: "if atoi (argv ! 1) = 3 then en_splice en = splice_on_files ms else en_tee en = tee_on_files mt"
  obtains k1 where
    "\<And>g. files k1 g = (if g \<in> set (out_files ino argv) then [] else files k g)" "rest k1 = rest k"
    "\<And>n k2. (if atoi (argv ! 1) = 3
       then ms (ino (argv ! 2)) (out_files ino argv) (pipe_files ino argv) (pipe_files ino argv) k1
       else mt (ino (argv ! 2)) (ino (pipe_path (run_dir argv) 0)) (ino (pipe_path (run_dir argv) 0))
         (out_files ino argv) (pipe_files ino argv) (pipe_files ino argv) k1) = (Inr n, k2) \<Longrightarrow>
      \<exists>t' k'. main mc en argv (t, k) = (Inr 0, t', k') \<and> files k' = files k2 \<and> rest k' = rest k2"
proof -
  let ?dir = "run_dir argv" and ?n = "nat (atoi (argv ! 3))" and ?mode = "atoi (argv ! 1)"
  obtain src outs t1 k1 where m: "main mc en argv (t, k) = main_modes mc en ?mode ?n ?dir src outs (t1, k1)"
    "map_of t1 src = Some (ino (argv ! 2))" "map (map_of t1) outs = map Some (out_files ino argv)"
    "\<And>g. files k1 g = (if g \<in> set (out_files ino argv) then [] else files k g)" "rest k1 = rest k"
    using main_reaches_modes [OF laws argv(1,3)] by blast
  obtain t2 k2 where mk: "new_ManagedPipe (mc_mkfifo mc) ?dir 0 (t1, k1) = (Inr (pipe_path ?dir 0), t2, k2)"
    "map_of t2 = map_of t1" "files k2 = files k1" "rest k2 = rest k1" by (rule new_pipe_run [OF laws])
  obtain w r t3 k3 where en: "open_ends mc (pipe_path ?dir 0) (t2, k2) = (Some (w, r), t3, k3)"
    "map_of t3 w = Some (ino (pipe_path ?dir 0))" "map_of t3 r = Some (ino (pipe_path ?dir 0))"
    "\<And>fd. map_of t2 fd \<noteq> None \<Longrightarrow> map_of t3 fd = map_of t2 fd" "files k3 = files k2" "rest k3 = rest k2"
    by (rule open_ends_run [OF laws, of "pipe_path ?dir 0" t2 k2]) blast
  obtain ps ws rs t4 k4 where op: "open_pipes mc ?dir 0 ?n (t3, k3) = ((Try_ok, ps, ws, rs), t4, k4)"
      "map (map_of t4) ws = map Some (pipe_files ino argv)" "map (map_of t4) rs = map Some (pipe_files ino argv)"
      "\<forall>fd. map_of t3 fd \<noteq> None \<longrightarrow> map_of t4 fd = map_of t3 fd" "files k4 = files k3" "rest k4 = rest k3"
    using open_pipes_run [OF laws, of ?dir 0 ?n t3 k3] by (auto simp: pipe_files_def)
  have keep: "map_of t4 fd = map_of t1 fd" if "map_of t1 fd \<noteq> None" for fd
    using op(4) en(4) [of fd] mk(2) that by simp
  have src: "file_of t4 src = ino (argv ! 2)" using keep [of src] m(2) by (simp add: file_of_table)
  have "map (map_of t4) outs = map (map_of t1) outs"
  proof (rule map_cong [OF refl])
    fix fd assume "fd \<in> set outs"
    then have "map_of t1 fd \<in> set (map (map_of t1) outs)" by simp
    then have "map_of t1 fd \<noteq> None" unfolding m(3) by auto
    then show "map_of t4 fd = map_of t1 fd" by (rule keep)
  qed
  then have outs: "map (file_of t4) outs = out_files ino argv" by (intro files_of_table) (simp add: m(3))
  have ends: "file_of t4 w = ino (pipe_path ?dir 0)" "file_of t4 r = ino (pipe_path ?dir 0)"
    "map (file_of t4) ws = pipe_files ino argv" "map (file_of t4) rs = pipe_files ino argv"
    using op(2-4) en(2,3) by (auto simp: file_of_table intro!: files_of_table)
  have "\<exists>t' k'. main mc en argv (t, k) = (Inr 0, t', k') \<and> files k' = files k5 \<and> rest k' = rest k5"
    if run: "(if ?mode = 3 then ms (ino (argv ! 2)) (out_files ino argv) (pipe_files ino argv) (pipe_files ino argv) k4
       else mt (ino (argv ! 2)) (ino (pipe_path ?dir 0)) (ino (pipe_path ?dir 0))
         (out_files ino argv) (pipe_files ino argv) (pipe_files ino argv) k4) = (Inr n, k5)" for n k5
  proof -
    let ?unwind = "unlink_all mc (pipe_path ?dir 0 # ps) (close_all mc (rs @ ws @ [r, w]) (t4, k5))"
    have go: "(if ?mode = 3 then en_splice en src outs ws rs (t4, k4) else en_tee en src w r outs ws rs (t4, k4)) =
        (Inr n, t4, k5)"
      using run engine
      by (cases "?mode = 3") (simp_all add: splice_on_files_def tee_on_files_def src outs ends)
    have "pipe_modes mc en ?mode ?n ?dir src outs (t1, k1) = (Inr Try_ok, ?unwind)"
      unfolding pipe_modes_def mk(1) prod.case sum.case en(1) option.case op(1) Let_def go by simp
    then have "main mc en argv (t, k) = (Inr 0, close_all mc (outs @ [src]) ?unwind)"
      unfolding m(1) main_modes_def Let_def using argv(2) by simp
    moreover have "files (snd (close_all mc (outs @ [src]) ?unwind)) = files k5 \<and>
        rest (snd (close_all mc (outs @ [src]) ?unwind)) = rest k5"
      by (simp only: close_all_files [OF laws(1)] unlink_all_files [OF laws(1)] snd_conv)
    ultimately show ?thesis by (metis prod.collapse)
  qed
  moreover have "files k4 g = (if g \<in> set (out_files ino argv) then [] else files k g)" for g
    using m(4) mk(3) en(5) op(5) by simp
  moreover have "rest k4 = rest k" using m(5) mk(4) en(6) op(6) by simp
  ultimately show ?thesis by (intro that [of k4]) blast+
qed

lemma main_splice_run:
  assumes laws: "main_file_laws mc ino files rest" "calls_succeed mc"
    and argv: "4 \<le> length argv" "atoi (argv ! 1) = 3" "0 < atoi (argv ! 3)"
    and engine: "en_splice en = splice_on_files m"
  obtains k1 where
    "\<And>g. files k1 g = (if g \<in> set (out_files ino argv) then [] else files k g)" "rest k1 = rest k"
    "\<And>n k2. m (ino (argv ! 2)) (out_files ino argv) (pipe_files ino argv) (pipe_files ino argv) k1 = (Inr n, k2) \<Longrightarrow>
      \<exists>t' k'. main mc en argv (t, k) = (Inr 0, t', k') \<and> files k' = files k2 \<and> rest k' = rest k2"
proof -
  have a: "2 < atoi (argv ! 1)" "0 \<le> atoi (argv ! 3)"
    and e: "if atoi (argv ! 1) = 3 then en_splice en = splice_on_files m else en_tee en = tee_on_files undefined"
    using argv engine by simp_all
  have "(atoi (argv ! 1) = 3) = True" using argv(2) by simp
  from main_pipes_run [OF laws argv(1) a e, of k t, unfolded this if_True] that show thesis by blast
qed

lemma main_tee_run:
  assumes laws: "main_file_laws mc ino files rest" "calls_succeed mc"
    and argv: "4 \<le> length argv" "3 < atoi (argv ! 1)" "0 < atoi (argv ! 3)"
    and engine: "en_tee en = tee_on_files m"
  obtains k1 where
    "\<And>g. files k1 g = (if g \<in> set (out_files ino argv) then [] else files k g)" "rest k1 = rest k"
    "\<And>n k2. m (ino (argv ! 2)) (ino (pipe_path (run_dir argv) 0)) (ino (pipe_path (run_dir argv) 0))
         (out_files ino argv) (pipe_files ino argv) (pipe_files ino argv) k1 = (Inr n, k2) \<Longrightarrow>
      \<exists>t' k'. main mc en argv (t, k) = (Inr 0, t', k') \<and> files k' = files k2 \<and> rest k' = rest k2"
proof -
  have a: "2 < atoi (argv ! 1)" "0 \<le> atoi (argv ! 3)"
    and e: "if atoi (argv ! 1) = 3 then en_splice en = splice_on_files undefined else en_tee en = tee_on_files m"
    using argv engine by simp_all
  have "(atoi (argv ! 1) = 3) = False" using argv(2) by simp
  from main_pipes_run [OF laws argv(1) a e, of k t, unfolded this if_False] that show thesis by blast
qed

section \<open>Engines on a ring\<close>

text \<open>What a call has added to the ring's history.\<close>

definition new_history :: "('s \<Rightarrow> 'd ring_view) \<Rightarrow> 's \<Rightarrow> 's \<Rightarrow> 'd history" where
  "new_history view s s' =
     zip (drop (length (rv_batches (view s))) (rv_batches (view s')))
         (drop (length (rv_drained (view s))) (rv_drained (view s')))"

lemma new_history_marked:
  "rv_batches (view s') = rv_batches (view s) @ bs \<Longrightarrow>
   rv_drained (view s') = rv_drained (view s) @ replicate (length bs) d \<Longrightarrow>
   new_history view s s' = map (\<lambda>b. (b, d)) bs"
  by (simp add: new_history_def zip_replicate2)

definition settles :: "(uring_op \<Rightarrow> 'w \<Rightarrow> 'w) \<Rightarrow> ('d history \<Rightarrow> 'w \<Rightarrow> 'w) \<Rightarrow> bool" where
  "settles exec settle \<longleftrightarrow> (\<forall>h w. runs_to exec h w (settle h w))"

lemma in_order_settles: "settles exec (in_order exec)"
  by (simp add: settles_def in_order_runs)

text \<open>The size of a file is that of its contents.\<close>

definition stat_law :: "('w \<Rightarrow> c_int \<Rightarrow> stat option) \<Rightarrow> ('w \<Rightarrow> world) \<Rightarrow> pipe_ends \<Rightarrow> bool" where
  "stat_law fstat look pipe_of \<longleftrightarrow>
     (\<forall>w f. pipe_of f = None \<longrightarrow>
        fstat w f = Some \<lparr>st_mode = Regular, st_size = of_nat (length (wd_files (look w) f))\<rparr>)"

lemma stat_law_size:
  "stat_law fstat look pipe_of \<Longrightarrow> pipe_of f = None \<Longrightarrow>
   get_file_size (fstat w) blk f = of_nat (length (wd_files (look w) f))"
  by (simp add: stat_law_def get_file_size_def)

definition splice_machine :: "(uintptr, 's) uring \<Rightarrow> ('s \<Rightarrow> uintptr ring_view) \<Rightarrow> ('w \<Rightarrow> c_int \<Rightarrow> stat option) \<Rightarrow>
    (uintptr history \<Rightarrow> 'w \<Rightarrow> 'w) \<Rightarrow> c_int \<Rightarrow> c_int list \<Rightarrow> c_int list \<Rightarrow> c_int list \<Rightarrow> 's \<times> 'w \<Rightarrow>
    (cpp_error + size_t) \<times> 's \<times> 'w" where
  "splice_machine ur view fstat settle src outs ws rs k =
     (case k of (s, w) \<Rightarrow>
        (case perform_splice_broadcast ur (fstat w) Map.empty src outs ws rs s of
           (r, s') \<Rightarrow> (r, s', settle (new_history view s s') w)))"

definition tee_machine :: "(uintptr, 's) uring \<Rightarrow> ('s \<Rightarrow> uintptr ring_view) \<Rightarrow> ('w \<Rightarrow> c_int \<Rightarrow> stat option) \<Rightarrow>
    (uintptr history \<Rightarrow> 'w \<Rightarrow> 'w) \<Rightarrow> c_int \<Rightarrow> c_int \<Rightarrow> c_int \<Rightarrow> c_int list \<Rightarrow> c_int list \<Rightarrow> c_int list \<Rightarrow> 's \<times> 'w \<Rightarrow>
    (cpp_error + size_t) \<times> 's \<times> 'w" where
  "tee_machine ur view fstat settle src src_w src_r outs ws rs k =
     (case k of (s, w) \<Rightarrow>
        (case perform_tee_broadcast ur (fstat w) Map.empty src src_w src_r outs ws rs s of
           (r, s') \<Rightarrow> (r, s', settle (new_history view s s') w)))"

text \<open>The vectored engine waits for no batch in particular: all its batches are unmarked.\<close>

definition vec_machine :: "(ptr option, 's) uring \<Rightarrow> 'm posix \<Rightarrow> ('s \<Rightarrow> (ptr option) ring_view) \<Rightarrow>
    ('w \<Rightarrow> c_int \<Rightarrow> stat option) \<Rightarrow> ((ptr option) history \<Rightarrow> 'w \<Rightarrow> 'w) \<Rightarrow> c_int \<Rightarrow> c_int list \<Rightarrow>
    ('s, 'm) vec_state \<times> 'w \<Rightarrow> (cpp_error + size_t) \<times> ('s, 'm) vec_state \<times> 'w" where
  "vec_machine ur px view fstat settle src outs k =
     (case k of (st, w) \<Rightarrow>
        (case perform_uring_broadcast ur px (fstat w) Map.empty src outs st of
           None \<Rightarrow> (Inl Blocks, st, w)
         | Some (r, st') \<Rightarrow>
             (r, st', settle (map (\<lambda>b. (b, False))
                (drop (length (rv_batches (view (vs_ring st)))) (rv_batches (view (vs_ring st'))))) w)))"

abbreviation world_files :: "('w \<Rightarrow> world) \<Rightarrow> 's \<times> 'w \<Rightarrow> c_int \<Rightarrow> byte list" where
  "world_files look k \<equiv> wd_files (look (snd k))"

abbreviation world_rest :: "('w \<Rightarrow> world) \<Rightarrow> 's \<times> 'w \<Rightarrow> 's \<times> (nat \<Rightarrow> byte list)" where
  "world_rest look k \<equiv> (fst k, wd_pipes (look (snd k)))"

text \<open>The names of a run stand for different things: the input, the outputs, and the pipes.\<close>

definition run_names :: "(string \<Rightarrow> c_int) \<Rightarrow> pipe_ends \<Rightarrow> string list \<Rightarrow> bool" where
  "run_names ino pipe_of argv \<longleftrightarrow>
     distinct (ino (argv ! 2) # out_files ino argv) \<and>
     (\<forall>f \<in> set (ino (argv ! 2) # out_files ino argv). pipe_of f = None) \<and>
     (\<forall>f \<in> set (ino (pipe_path (run_dir argv) 0) # pipe_files ino argv). pipe_of f \<noteq> None) \<and>
     distinct (map pipe_of (ino (pipe_path (run_dir argv) 0) # pipe_files ino argv))"

definition run_pipes_empty :: "(string \<Rightarrow> c_int) \<Rightarrow> pipe_ends \<Rightarrow> string list \<Rightarrow> (nat \<Rightarrow> byte list) \<Rightarrow> bool" where
  "run_pipes_empty ino pipe_of argv pipes \<longleftrightarrow>
     (\<forall>f \<in> set (ino (pipe_path (run_dir argv) 0) # pipe_files ino argv). pipes (the (pipe_of f)) = [])"

lemma run_lengths: "length (out_files ino argv) = nat (atoi (argv ! 3))" "length (pipe_files ino argv) = nat (atoi (argv ! 3))"
  by (simp_all add: out_files_def pipe_files_def)

lemma run_names_splice:
  assumes "run_names ino pipe_of argv"
  shows "splice_wired pipe_of (ino (argv ! 2)) (out_files ino argv) (pipe_files ino argv) (pipe_files ino argv)"
proof -
  have "distinct (map pipe_of (pipe_files ino argv))" using assms by (simp add: run_names_def)
  then have "pipe_of (pipe_files ino argv ! j) \<noteq> pipe_of (pipe_files ino argv ! i)"
    if "i < length (out_files ino argv)" "j < length (out_files ino argv)" "j \<noteq> i" for i j
    using that by (simp add: distinct_conv_nth run_lengths)
  moreover have "pipe_of (pipe_files ino argv ! i) \<noteq> None" if "i < length (out_files ino argv)" for i
    using assms that nth_mem [of i "pipe_files ino argv"] unfolding run_names_def run_lengths by auto
  ultimately show ?thesis using assms by (simp add: splice_wired_def run_names_def)
qed

lemma run_names_tee:
  assumes "run_names ino pipe_of argv"
  shows "tee_wired pipe_of (the (pipe_of (ino (pipe_path (run_dir argv) 0)))) (ino (argv ! 2))
    (ino (pipe_path (run_dir argv) 0)) (ino (pipe_path (run_dir argv) 0))
    (out_files ino argv) (pipe_files ino argv) (pipe_files ino argv)"
proof -
  let ?p = "pipe_of (ino (pipe_path (run_dir argv) 0))"
  have p: "?p = Some (the ?p)" using assms by (simp add: run_names_def)
  have "pipe_of (pipe_files ino argv ! i) \<noteq> None \<and> pipe_of (pipe_files ino argv ! i) \<noteq> ?p"
    if "i < length (out_files ino argv) - 1" for i
  proof -
    have "pipe_files ino argv ! i \<in> set (pipe_files ino argv)" using that by (intro nth_mem) (simp add: run_lengths)
    then have "pipe_of (pipe_files ino argv ! i) \<in> pipe_of ` set (pipe_files ino argv)" by (rule imageI)
    moreover have "?p \<notin> pipe_of ` set (pipe_files ino argv)" "None \<notin> pipe_of ` set (pipe_files ino argv)"
      using assms by (auto simp: run_names_def)
    ultimately show ?thesis by metis
  qed
  then show ?thesis using assms p unfolding tee_wired_def run_names_def by auto
qed

lemma run_pipes_empty_splice:
  "run_pipes_empty ino pipe_of argv (wd_pipes w) \<Longrightarrow> splice_empty pipe_of (out_files ino argv) (pipe_files ino argv) w"
  by (auto simp: run_pipes_empty_def splice_empty_def run_lengths)

lemma run_pipes_empty_tee:
  assumes "run_pipes_empty ino pipe_of argv (wd_pipes w)"
  shows "tee_empty pipe_of (the (pipe_of (ino (pipe_path (run_dir argv) 0)))) (out_files ino argv)
    (pipe_files ino argv) w"
  using assms by (auto simp: run_pipes_empty_def tee_empty_def run_lengths)

section \<open>A machine with a ring\<close>

text \<open>
  For the witnesses: the input is file 3, the outputs 4 and 5, and from 10 on the numbers are
  those of pipes.
\<close>

definition ring_names :: "string \<Rightarrow> c_int" where
  "ring_names p = (case map_of
     [(''in.txt'', 3),
      (''./resource/2/Dual/output_0.txt'', 4), (''./resource/2/Dual/output_1.txt'', 5),
      (''./resource/3/Dual/output_0.txt'', 4), (''./resource/3/Dual/output_1.txt'', 5),
      (''./resource/4/Dual/output_0.txt'', 4), (''./resource/4/Dual/output_1.txt'', 5),
      (''./resource/3/Dual_0.fifo'', 10), (''./resource/3/Dual_1.fifo'', 11), (''./resource/3/Dual_2.fifo'', 12),
      (''./resource/4/Dual_0.fifo'', 10), (''./resource/4/Dual_1.fifo'', 11), (''./resource/4/Dual_2.fifo'', 12)] p
   of None \<Rightarrow> 0 | Some f \<Rightarrow> f)"

definition ring_pipes :: pipe_ends where
  "ring_pipes f = (if 10 \<le> f then Some (nat f) else None)"

definition ring_stat :: "world \<Rightarrow> c_int \<Rightarrow> stat option" where
  "ring_stat w f = Some \<lparr>st_mode = Regular, st_size = of_nat (length (wd_files w f))\<rparr>"

definition ring_empty :: "c_int \<Rightarrow> 's \<times> world \<Rightarrow> 's \<times> world" where
  "ring_empty f k = (fst k, (snd k)\<lparr>wd_files := (wd_files (snd k))(f := [])\<rparr>)"

definition ring_world :: world where
  "ring_world = \<lparr>wd_files = (\<lambda>f. if f = 3 then [7, 8, 9] else [1, 2]), wd_pipes = (\<lambda>p. []), wd_mem = (\<lambda>p. [])\<rparr>"

definition ring_args :: "string \<Rightarrow> string list" where
  "ring_args mode = [''b'', mode, ''in.txt'', ''2'']"

definition ring_engines :: "'s engines" where
  "ring_engines = \<lparr>en_readv = (\<lambda>i os s. (Inr 0, s)), en_uring = (\<lambda>i os s. (Inr 0, s)),
     en_splice = (\<lambda>i os ws rs s. (Inr 0, s)), en_tee = (\<lambda>i w r os ws rs s. (Inr 0, s))\<rparr>"

lemma ring_main_laws:
  "main_file_laws (run_main ring_empty ino) ino (world_files (\<lambda>w. w)) (world_rest (\<lambda>w. w))"
  by (rule run_main_laws) (simp_all add: ring_empty_def)

lemma ring_stat_law: "stat_law ring_stat (\<lambda>w. w) pipe_of"
  by (simp add: stat_law_def ring_stat_def)

lemma ring_run_names:
  "out_files ring_names (ring_args ''2'') = [4, 5]" "out_files ring_names (ring_args ''3'') = [4, 5]"
  "out_files ring_names (ring_args ''4'') = [4, 5]"
  "pipe_files ring_names (ring_args ''3'') = [11, 12]" "pipe_files ring_names (ring_args ''4'') = [11, 12]"
  "ring_names (pipe_path (out_dir 3 2) 0) = 10" "ring_names (pipe_path (out_dir 4 2) 0) = 10"
  "atoi ''2'' = 2" "atoi ''3'' = 3" "atoi ''4'' = 4"
  by code_simp+

lemma ring_args_nth:
  "ring_args m ! 1 = m" "ring_args m ! 2 = ''in.txt''" "ring_args m ! 3 = ''2''" "4 \<le> length (ring_args m)"
  "ring_names ''in.txt'' = 3"
  by (simp_all add: ring_args_def ring_names_def)

lemma ring_names_ok:
  "run_names ring_names ring_pipes (ring_args ''3'')" "run_names ring_names ring_pipes (ring_args ''4'')"
  unfolding run_names_def ring_run_names ring_args_nth by (simp_all add: ring_pipes_def)

lemma ring_pipes_ok: "run_pipes_empty ring_names ring_pipes argv (wd_pipes ring_world)"
  by (simp add: run_pipes_empty_def ring_world_def)

section \<open>Properties\<close>

text \<open>
  C3: the program in mode 3, when everything works. With names that stand for different
  things, empty pipes of its own that hold 256 KiB, calls of \<open>main\<close> that succeed, requests that
  move all they were asked for, and either exactly 256 outputs or at most 256 and a file of
  one piece (256 KiB), \<open>main\<close> returns 0 and, whichever of its runs the kernel chose, the file
  of each output's name holds exactly what the input held, and every other file what it held
  before.
\<close>

theorem main_splices_the_file:
  assumes "main_file_laws mc ino (world_files look) (world_rest look)" "calls_succeed mc"
    and "4 \<le> length argv" "atoi (argv ! 1) = 3" "0 < atoi (argv ! 3)"
    and "en_splice en = splice_on_files (splice_machine ur view fstat settle)"
    and "uring_laws ur view" "init_succeeds ur" "submits_all ur view" "waits_succeed ur" "completions_full ur"
    and "settles exec settle" "exec_law exec look pipe_of cap" "262144 \<le> cap" "stat_law fstat look pipe_of"
    and "run_names ino pipe_of argv" "run_pipes_empty ino pipe_of argv (wd_pipes (look w))"
    and "length (wd_files (look w) (ino (argv ! 2))) < 9223372036854775808"
    and "atoi (argv ! 3) = 256 \<or>
      (atoi (argv ! 3) \<le> 256 \<and> length (wd_files (look w) (ino (argv ! 2))) \<le> 262144)"
  shows "\<exists>t' s' w'. main mc en argv (t, s, w) = (Inr 0, t', s', w') \<and>
    (\<forall>out \<in> set (out_files ino argv). wd_files (look w') out = wd_files (look w) (ino (argv ! 2))) \<and>
    (\<forall>g. g \<notin> set (out_files ino argv) \<longrightarrow> wd_files (look w') g = wd_files (look w) g)"
proof -
  let ?in = "ino (argv ! 2)" and ?outs = "out_files ino argv" and ?ps = "pipe_files ino argv"
  let ?files = "world_files look" and ?rest = "world_rest look"
  obtain k1 where k1: "\<And>g. ?files k1 g = (if g \<in> set ?outs then [] else ?files (s, w) g)" "?rest k1 = ?rest (s, w)"
    and main: "\<And>n k2. splice_machine ur view fstat settle ?in ?outs ?ps ?ps k1 = (Inr n, k2) \<Longrightarrow>
      \<exists>t' k'. main mc en argv (t, s, w) = (Inr 0, t', k') \<and> ?files k' = ?files k2 \<and> ?rest k' = ?rest k2"
    by (rule main_splice_run [OF assms(1-6), of "(s, w)" t]) blast
  obtain w1 where w1: "k1 = (s, w1)" "wd_pipes (look w1) = wd_pipes (look w)" using k1(2) by (cases k1) simp
  have bytes: "wd_files (look w1) ?in = wd_files (look w) ?in"
    using k1(1) [of ?in] assms(16) by (simp add: w1 run_names_def)
  have ports: "splice_ports ?outs ?ps ?ps"
    using assms(5) by (simp add: splice_ports_def run_lengths length_0_conv [symmetric] del: length_0_conv)
  have "pipe_of ?in = None" using assms(16) by (simp add: run_names_def)
  then have size: "get_file_size (fstat w1) Map.empty ?in = of_nat (length (wd_files (look w) ?in))"
    using stat_law_size [OF assms(15)] by (simp add: bytes)
  have fits: "length ?outs = 256 \<or> (length ?outs \<le> 256 \<and> length (wd_files (look w) ?in) \<le> 262144)"
    using assms(19) by (auto simp: run_lengths)
  note empty = run_pipes_empty_splice [OF assms(17) [folded w1(2)]]
  from splice_broadcast_outputs [OF assms(7-11) ports size assms(18) fits assms(13,14)
      run_names_splice [OF assms(16)] bytes empty, of s] obtain s' bs where
    r: "perform_splice_broadcast ur (fstat w1) Map.empty ?in ?outs ?ps ?ps s =
        (Inr (of_nat (length ?outs) * of_nat (length (wd_files (look w) ?in))), s')"
      "new_history view s s' = map (\<lambda>b. (b, True)) bs"
    and all: "\<And>w'. runs_to exec (map (\<lambda>b. (b, True)) bs) w1 w' \<Longrightarrow>
       (\<forall>out \<in> set ?outs. wd_files (look w') out =
          wd_files (look w) ?in @ drop (length (wd_files (look w) ?in)) (wd_files (look w1) out)) \<and>
       (\<forall>g. g \<notin> set ?outs \<longrightarrow> wd_files (look w') g = wd_files (look w1) g)"
    by (metis new_history_marked)
  let ?w' = "settle (map (\<lambda>b. (b, True)) bs) w1"
  have "runs_to exec (map (\<lambda>b. (b, True)) bs) w1 ?w'" using assms(12) by (simp add: settles_def)
  note finished = all [OF this]
  have "splice_machine ur view fstat settle ?in ?outs ?ps ?ps k1 =
      (Inr (of_nat (length ?outs) * of_nat (length (wd_files (look w) ?in))), s', ?w')"
    by (simp add: splice_machine_def w1(1) r)
  from main [OF this] obtain t' s'' w'' where
    "main mc en argv (t, s, w) = (Inr 0, t', s'', w'')" "wd_files (look w'') = wd_files (look ?w')"
    by (metis prod.collapse snd_conv)
  with finished k1(1) show ?thesis by (intro exI [of _ t'] exI [of _ s''] exI [of _ w'']) (simp add: w1)
qed

theorem main_splices_the_file_witness:
  "\<exists>t' s' w'. main (run_main ring_empty ring_names)
      (ring_engines\<lparr>en_splice := splice_on_files
        (splice_machine full_ring sim_view ring_stat (in_order (effect ring_pipes)))\<rparr>)
      (ring_args ''3'') ([], sim_start, ring_world) = (Inr 0, t', s', w') \<and>
    wd_files w' 4 = [7, 8, 9] \<and> wd_files w' 5 = [7, 8, 9] \<and> wd_files w' 3 = [7, 8, 9] \<and> wd_files w' 6 = [1, 2]"
proof -
  let ?en = "ring_engines\<lparr>en_splice := splice_on_files
    (splice_machine full_ring sim_view ring_stat (in_order (effect ring_pipes)))\<rparr>"
  have argv: "atoi (ring_args ''3'' ! 1) = 3" "0 < atoi (ring_args ''3'' ! 3)"
    unfolding ring_args_nth ring_run_names by simp_all
  have en: "en_splice ?en = splice_on_files (splice_machine full_ring sim_view ring_stat (in_order (effect ring_pipes)))"
    by simp
  have size: "length (wd_files ring_world (ring_names (ring_args ''3'' ! 2))) < 9223372036854775808"
    "atoi (ring_args ''3'' ! 3) = 256 \<or> (atoi (ring_args ''3'' ! 3) \<le> 256 \<and>
      length (wd_files ring_world (ring_names (ring_args ''3'' ! 2))) \<le> 262144)"
    unfolding ring_args_nth ring_run_names by (simp_all add: ring_world_def)
  from main_splices_the_file [OF ring_main_laws run_main_succeeds ring_args_nth(4) argv en full_ring_ok
      in_order_settles effect_exec_law [of ring_pipes 262144] order_refl ring_stat_law ring_names_ok(1)
      ring_pipes_ok size, of "[]" sim_start]
  show ?thesis unfolding ring_run_names ring_args_nth by (auto simp: ring_world_def)
qed

text \<open>
  C4: the program in the modes from 4 on, when everything works. With names that stand for
  different things, empty pipes of its own that hold 256 KiB, calls of \<open>main\<close> that succeed, a
  kernel that carries every request out in full and at most 512 outputs, \<open>main\<close> returns 0 and
  the file of each output's name holds exactly what the input held, however long it is, and
  every other file what it held before.
\<close>

theorem main_tees_the_file:
  assumes "main_file_laws mc ino (world_files look) (world_rest look)" "calls_succeed mc"
    and "4 \<le> length argv" "3 < atoi (argv ! 1)" "0 < atoi (argv ! 3)"
    and "en_tee en = tee_on_files (tee_machine ur view fstat settle)"
    and "uring_laws ur view" "init_succeeds ur" "submits_all ur view" "requests_succeed ur"
    and "settles exec settle" "exec_law exec look pipe_of cap" "262144 \<le> cap" "stat_law fstat look pipe_of"
    and "run_names ino pipe_of argv" "run_pipes_empty ino pipe_of argv (wd_pipes (look w))"
    and "length (wd_files (look w) (ino (argv ! 2))) < 18446744073709551616" and "atoi (argv ! 3) \<le> 512"
  shows "\<exists>t' s' w'. main mc en argv (t, s, w) = (Inr 0, t', s', w') \<and>
    (\<forall>out \<in> set (out_files ino argv). wd_files (look w') out = wd_files (look w) (ino (argv ! 2))) \<and>
    (\<forall>g. g \<notin> set (out_files ino argv) \<longrightarrow> wd_files (look w') g = wd_files (look w) g)"
proof -
  let ?in = "ino (argv ! 2)" and ?outs = "out_files ino argv" and ?ps = "pipe_files ino argv"
  let ?p = "ino (pipe_path (run_dir argv) 0)"
  let ?files = "world_files look" and ?rest = "world_rest look"
  obtain k1 where k1: "\<And>g. ?files k1 g = (if g \<in> set ?outs then [] else ?files (s, w) g)" "?rest k1 = ?rest (s, w)"
    and main: "\<And>n k2. tee_machine ur view fstat settle ?in ?p ?p ?outs ?ps ?ps k1 = (Inr n, k2) \<Longrightarrow>
      \<exists>t' k'. main mc en argv (t, s, w) = (Inr 0, t', k') \<and> ?files k' = ?files k2 \<and> ?rest k' = ?rest k2"
    by (rule main_tee_run [OF assms(1-6), of "(s, w)" t]) blast
  obtain w1 where w1: "k1 = (s, w1)" "wd_pipes (look w1) = wd_pipes (look w)" using k1(2) by (cases k1) simp
  have bytes: "wd_files (look w1) ?in = wd_files (look w) ?in"
    using k1(1) [of ?in] assms(15) by (simp add: w1 run_names_def)
  have ports: "tee_ports ?outs ?ps ?ps" and few: "length ?outs \<le> 512"
    using assms(5,18) by (simp_all add: tee_ports_def run_lengths length_0_conv [symmetric] del: length_0_conv)
  have "pipe_of ?in = None" using assms(15) by (simp add: run_names_def)
  then have size: "get_file_size (fstat w1) Map.empty ?in = of_nat (length (wd_files (look w) ?in))"
    using stat_law_size [OF assms(14)] by (simp add: bytes)
  note empty = run_pipes_empty_tee [OF assms(16) [folded w1(2)]]
  from tee_broadcast_outputs [OF assms(7-10) ports few size assms(17,12,13)
      run_names_tee [OF assms(15)] bytes empty, of s] obtain s' bs where
    r: "perform_tee_broadcast ur (fstat w1) Map.empty ?in ?p ?p ?outs ?ps ?ps s =
        (Inr (of_nat (length ?outs) * of_nat (length (wd_files (look w) ?in))), s')"
      "new_history view s s' = map (\<lambda>b. (b, True)) bs"
    and all: "\<And>w'. runs_to exec (map (\<lambda>b. (b, True)) bs) w1 w' \<Longrightarrow>
       (\<forall>out \<in> set ?outs. wd_files (look w') out =
          wd_files (look w) ?in @ drop (length (wd_files (look w) ?in)) (wd_files (look w1) out)) \<and>
       (\<forall>g. g \<notin> set ?outs \<longrightarrow> wd_files (look w') g = wd_files (look w1) g)"
    by (metis new_history_marked)
  let ?w' = "settle (map (\<lambda>b. (b, True)) bs) w1"
  have "runs_to exec (map (\<lambda>b. (b, True)) bs) w1 ?w'" using assms(11) by (simp add: settles_def)
  note finished = all [OF this]
  have "tee_machine ur view fstat settle ?in ?p ?p ?outs ?ps ?ps k1 =
      (Inr (of_nat (length ?outs) * of_nat (length (wd_files (look w) ?in))), s', ?w')"
    by (simp only: tee_machine_def w1(1) prod.case r)
  from main [OF this] obtain t' s'' w'' where
    "main mc en argv (t, s, w) = (Inr 0, t', s'', w'')" "wd_files (look w'') = wd_files (look ?w')"
    by (metis prod.collapse snd_conv)
  with finished k1(1) show ?thesis by (intro exI [of _ t'] exI [of _ s''] exI [of _ w'']) (simp add: w1)
qed

theorem main_tees_the_file_witness:
  "\<exists>t' s' w'. main (run_main ring_empty ring_names)
      (ring_engines\<lparr>en_tee := tee_on_files
        (tee_machine (sim_uring (\<lambda>e. 1)) sim_view ring_stat (in_order (effect ring_pipes)))\<rparr>)
      (ring_args ''4'') ([], sim_start, ring_world) = (Inr 0, t', s', w') \<and>
    wd_files w' 4 = [7, 8, 9] \<and> wd_files w' 5 = [7, 8, 9] \<and> wd_files w' 3 = [7, 8, 9] \<and> wd_files w' 6 = [1, 2]"
proof -
  let ?en = "ring_engines\<lparr>en_tee := tee_on_files
    (tee_machine (sim_uring (\<lambda>e. 1)) sim_view ring_stat (in_order (effect ring_pipes)))\<rparr>"
  have ok: "requests_succeed (sim_uring (\<lambda>e :: uintptr sqe. 1))" by (rule sim_requests_succeed) simp
  have argv: "3 < atoi (ring_args ''4'' ! 1)" "0 < atoi (ring_args ''4'' ! 3)"
    unfolding ring_args_nth ring_run_names by simp_all
  have en: "en_tee ?en = tee_on_files (tee_machine (sim_uring (\<lambda>e. 1)) sim_view ring_stat (in_order (effect ring_pipes)))"
    by simp
  have size: "length (wd_files ring_world (ring_names (ring_args ''4'' ! 2))) < 18446744073709551616"
    "atoi (ring_args ''4'' ! 3) \<le> 512"
    unfolding ring_args_nth ring_run_names by (simp_all add: ring_world_def)
  from main_tees_the_file [OF ring_main_laws run_main_succeeds ring_args_nth(4) argv en sim_uring_laws sim_uring_ok(1,2) ok
      in_order_settles effect_exec_law [of ring_pipes 262144] order_refl ring_stat_law ring_names_ok(2)
      ring_pipes_ok size, of "[]" sim_start]
  show ?thesis unfolding ring_run_names ring_args_nth by (auto simp: ring_world_def)
qed

text \<open>
  C2: the program in mode 2. The same for the vectored engine, for every file and number of
  outputs whose windows can be counted: no order of the reads and writes it has in flight
  together can change the result.
\<close>

theorem main_vectors_the_file:
  assumes "main_file_laws mc ino (world_files look) (world_rest look)" "calls_succeed mc"
    and "4 \<le> length argv" "atoi (argv ! 1) = 2" "0 \<le> atoi (argv ! 3)"
    and "en_uring en = on_files (vec_machine ur px view fstat settle)"
    and "uring_laws ur view" "init_succeeds ur" "submits_all ur view" "waits_succeed ur" "requests_succeed ur"
    and "memalign_law px files mem live" "free_law px files live" "alloc_succeeds px" "vs_ctxs st = Map.empty"
    and "settles exec settle" "exec_law exec look pipe_of cap" "stat_law fstat look pipe_of"
    and "distinct (ino (argv ! 2) # out_files ino argv)" "pipe_of (ino (argv ! 2)) = None"
    and "length (wd_files (look w) (ino (argv ! 2))) < 9223372036854775808"
    and "nat (atoi (argv ! 3)) * length (plan 8388608 (length (wd_files (look w) (ino (argv ! 2)))) 0)
      < 18446744073709551616"
  shows "\<exists>t' st' w'. main mc en argv (t, st, w) = (Inr 0, t', st', w') \<and>
    (\<forall>out \<in> set (out_files ino argv). wd_files (look w') out = wd_files (look w) (ino (argv ! 2))) \<and>
    (\<forall>g. g \<notin> set (out_files ino argv) \<longrightarrow> wd_files (look w') g = wd_files (look w) g)"
proof -
  let ?in = "ino (argv ! 2)" and ?outs = "out_files ino argv"
  let ?files = "world_files look" and ?rest = "world_rest look"
  let ?m = "vec_machine ur px view fstat settle"
  have mode: "atoi (argv ! 1) = 1 \<and> en_readv en = on_files ?m \<or> atoi (argv ! 1) = 2 \<and> en_uring en = on_files ?m"
    using assms(4,6) by blast
  obtain k1 where k1: "\<And>g. ?files k1 g = (if g \<in> set ?outs then [] else ?files (st, w) g)" "?rest k1 = ?rest (st, w)"
    and main: "\<And>n k2. ?m ?in ?outs k1 = (Inr n, k2) \<Longrightarrow>
      \<exists>t' k'. main mc en argv (t, st, w) = (Inr 0, t', k') \<and> ?files k' = ?files k2 \<and> ?rest k' = ?rest k2"
    by (rule main_files_run [OF assms(1-3,5) mode, of "(st, w)" t]) blast
  obtain w1 where w1: "k1 = (st, w1)" using k1(2) by (cases k1) simp
  have bytes: "wd_files (look w1) ?in = wd_files (look w) ?in"
    using k1(1) [of ?in] assms(19) by (simp add: w1)
  have size: "get_file_size (fstat w1) Map.empty ?in = of_nat (length (wd_files (look w) ?in))"
    using stat_law_size [OF assms(18,20)] by (simp add: bytes)
  have few: "length ?outs * length (plan 8388608 (length (wd_files (look w) ?in)) 0) < 18446744073709551616"
    using assms(22) by (simp add: run_lengths)
  have names: "distinct ?outs" "?in \<notin> set ?outs"
    and short: "\<forall>out \<in> set ?outs. length (wd_files (look w1) out) \<le> length (wd_files (look w) ?in)"
    using assms(19) k1(1) by (simp_all add: w1)
  from uring_broadcast_outputs [OF assms(7-14) size assms(21) few assms(15,17) bytes names short] obtain st' bs where
    r: "perform_uring_broadcast ur px (fstat w1) Map.empty ?in ?outs st =
        Some (Inr (of_nat (length ?outs) * of_nat (length (wd_files (look w) ?in))), st')"
      "rv_batches (view (vs_ring st')) = rv_batches (view (vs_ring st)) @ bs"
    and all: "\<And>w'. runs_to exec (map (\<lambda>b. (b, False)) bs) w1 w' \<Longrightarrow>
       (\<forall>out \<in> set ?outs. wd_files (look w') out = wd_files (look w) ?in) \<and>
       (\<forall>g. g \<notin> set ?outs \<longrightarrow> wd_files (look w') g = wd_files (look w1) g)" by blast
  let ?w' = "settle (map (\<lambda>b. (b, False)) bs) w1"
  have "runs_to exec (map (\<lambda>b. (b, False)) bs) w1 ?w'" using assms(16) by (simp add: settles_def)
  note finished = all [OF this]
  have "?m ?in ?outs k1 =
      (Inr (of_nat (length ?outs) * of_nat (length (wd_files (look w) ?in))), st', ?w')"
    by (simp add: vec_machine_def w1 r)
  from main [OF this] obtain t' s'' w'' where
    "main mc en argv (t, st, w) = (Inr 0, t', s'', w'')" "wd_files (look w'') = wd_files (look ?w')"
    by (metis prod.collapse snd_conv)
  with finished k1(1) show ?thesis by (intro exI [of _ t'] exI [of _ s''] exI [of _ w'']) (simp add: w1)
qed

theorem main_vectors_the_file_witness:
  "\<exists>t' st' w'. main (run_main ring_empty ring_names)
      (ring_engines\<lparr>en_uring := on_files
        (vec_machine (sim_uring (\<lambda>e. 1)) mem_os sim_view ring_stat (in_order (effect ring_pipes)))\<rparr>)
      (ring_args ''2'') ([], vec_demo, ring_world) = (Inr 0, t', st', w') \<and>
    wd_files w' 4 = [7, 8, 9] \<and> wd_files w' 5 = [7, 8, 9] \<and> wd_files w' 3 = [7, 8, 9] \<and> wd_files w' 6 = [1, 2]"
proof -
  let ?en = "ring_engines\<lparr>en_uring := on_files
    (vec_machine (sim_uring (\<lambda>e. 1)) mem_os sim_view ring_stat (in_order (effect ring_pipes)))\<rparr>"
  have ok: "requests_succeed (sim_uring (\<lambda>e :: (ptr option) sqe. 1))" by (rule sim_requests_succeed) simp
  have laws: "memalign_law mem_os ms_files ms_mem mem_live" "free_law mem_os ms_files mem_live"
    using mem_os_laws [of UNIV] by (simp_all add: posix_laws_def)
  have ctx: "vs_ctxs vec_demo = Map.empty" by (simp add: vec_demo_def)
  have argv: "atoi (ring_args ''2'' ! 1) = 2" "0 \<le> atoi (ring_args ''2'' ! 3)"
    unfolding ring_args_nth ring_run_names by simp_all
  have en: "en_uring ?en = on_files (vec_machine (sim_uring (\<lambda>e. 1)) mem_os sim_view ring_stat (in_order (effect ring_pipes)))"
    by simp
  have names: "distinct (ring_names (ring_args ''2'' ! 2) # out_files ring_names (ring_args ''2''))"
    "ring_pipes (ring_names (ring_args ''2'' ! 2)) = None"
    unfolding ring_args_nth ring_run_names by (simp_all add: ring_pipes_def)
  have len: "length (wd_files ring_world (ring_names (ring_args ''2'' ! 2))) = 3"
    by (simp only: ring_args_nth) (simp add: ring_world_def)
  have "plan 8388608 3 0 = [(0, 3)]" by (simp add: plan_step)
  then have few: "nat (atoi (ring_args ''2'' ! 3)) *
      length (plan 8388608 (length (wd_files ring_world (ring_names (ring_args ''2'' ! 2)))) 0) < 18446744073709551616"
    unfolding len by (simp only: ring_args_nth ring_run_names) simp
  from main_vectors_the_file [OF ring_main_laws run_main_succeeds ring_args_nth(4) argv en sim_uring_laws sim_uring_ok ok
      laws mem_os_alloc ctx in_order_settles effect_exec_law [of ring_pipes 262144] ring_stat_law names _ few, of "[]"]
  show ?thesis unfolding len ring_run_names ring_args_nth by (auto simp: ring_world_def)
qed

end
