(* ===== verification/Mpi_Broadcast.thy ===== *)
theory Mpi_Broadcast
  imports Prelude
begin

text \<open>
  \<open>source/mpi/broadcaster.cpp\<close> and \<open>comms.hpp\<close>: sending a string from one MPI rank to all.
  The program runs once per rank; \<open>MPI_Bcast\<close> is collective, so the model runs all ranks
  side by side: a value per rank goes into the call and a value per rank comes out. What
  \<open>MPI_Bcast\<close> does is a parameter (\<open>bcast_int\<close>, \<open>bcast_chars\<close>: root, contents per rank),
  whose documented behaviour is that every rank ends with the root's contents.
\<close>

section \<open>One rank's part\<close>

text \<open>\<open>int size = msg.size()\<close> keeps the low 32 bits.\<close>

definition msg_size :: "string \<Rightarrow> 32 word" where
  "msg_size msg = of_nat (length msg)"

definition NUL :: char where "NUL = CHR 0x00"

text \<open>
  \<open>std::vector<char> buffer(size + 1)\<close>, zeroed, and at the caster the copy of the message
  into it, which is not checked against the size. \<open>size + 1\<close> overflows for the largest \<open>int\<close>,
  which C++ leaves undefined; here the sum is that of the integers.
\<close>

definition mpi_buffer :: "nat \<Rightarrow> nat \<Rightarrow> 32 word \<Rightarrow> string \<Rightarrow> cpp_error + string" where
  "mpi_buffer rank caster sz msg =
     (let n = sint sz + 1 in
      if n < 0 then Inl Length_error
      else if rank = caster then
        (if nat n < length msg then Inl Out_of_bounds
         else Inr (msg @ replicate (nat n - length msg) NUL))
      else Inr (replicate (nat n) NUL))"

text \<open>\<open>std::string(buffer.data())\<close>: the characters before the first NUL, which must exist.\<close>

definition c_string :: "string \<Rightarrow> cpp_error + string" where
  "c_string buf =
     (if NUL \<in> set buf then Inr (takeWhile (\<lambda>c. c \<noteq> NUL) buf) else Inl Out_of_bounds)"

section \<open>The collective\<close>

definition mpi_broadcast ::
    "(nat \<Rightarrow> (nat \<Rightarrow> 32 word) \<Rightarrow> nat \<Rightarrow> 32 word) \<Rightarrow> (nat \<Rightarrow> (nat \<Rightarrow> string) \<Rightarrow> nat \<Rightarrow> string) \<Rightarrow>
      nat \<Rightarrow> (nat \<Rightarrow> string) \<Rightarrow> nat \<Rightarrow> cpp_error + string" where
  "mpi_broadcast bcast_int bcast_chars caster msgs rank =
     (let sz = bcast_int caster (\<lambda>r. msg_size (msgs r));
          buffer = (\<lambda>r. mpi_buffer r caster (sz r) (msgs r))
      in case buffer rank of
           Inl e \<Rightarrow> Inl e
         | Inr _ \<Rightarrow>
             c_string (bcast_chars caster (\<lambda>r. case buffer r of Inl e \<Rightarrow> [] | Inr b \<Rightarrow> b) rank))"

text \<open>\<open>test_comms\<close>: the middle rank sends a greeting; the answer is what each rank prints.\<close>

definition test_comms ::
    "(nat \<Rightarrow> (nat \<Rightarrow> 32 word) \<Rightarrow> nat \<Rightarrow> 32 word) \<Rightarrow> (nat \<Rightarrow> (nat \<Rightarrow> string) \<Rightarrow> nat \<Rightarrow> string) \<Rightarrow>
      nat \<Rightarrow> nat \<Rightarrow> cpp_error + string" where
  "test_comms bcast_int bcast_chars num_proc rank =
     (let caster = num_proc div 2 in
      mpi_broadcast bcast_int bcast_chars caster (\<lambda>r. if r = caster then ''hello'' else '''') rank)"

section \<open>Properties\<close>

definition bcast_law :: "(nat \<Rightarrow> (nat \<Rightarrow> 'a) \<Rightarrow> nat \<Rightarrow> 'a) \<Rightarrow> bool" where
  "bcast_law bcast \<longleftrightarrow> (\<forall>caster f r. bcast caster f r = f caster)"

lemma takeWhile_pad:
  "takeWhile (\<lambda>c. c \<noteq> x) (xs @ replicate (Suc n) x) = takeWhile (\<lambda>c. c \<noteq> x) xs"
  by (induction xs) simp_all

text \<open>What every rank ends with.\<close>

lemma mpi_broadcast_value:
  assumes "bcast_law bcast_int" "bcast_law bcast_chars"
    and len: "length (msgs caster) < 2147483647"
  shows "mpi_broadcast bcast_int bcast_chars caster msgs rank =
    Inr (takeWhile (\<lambda>c. c \<noteq> NUL) (msgs caster))"
proof -
  let ?n = "length (msgs caster)"
  have "uint (of_nat ?n :: 32 word) = int ?n"
    using len by (simp add: uint_nat unat_of_nat take_bit_eq_mod)
  then have "sint (of_nat ?n :: 32 word) = int ?n"
    using len by (simp add: sint_uint signed_take_bit_int_eq_self)
  then have b: "mpi_buffer r caster (msg_size (msgs caster)) (msgs r) =
      Inr (if r = caster then msgs caster @ replicate (Suc 0) NUL else replicate (Suc ?n) NUL)" for r
    by (simp add: mpi_buffer_def msg_size_def nat_add_distrib Let_def)
  have "c_string (msgs caster @ replicate (Suc 0) NUL) = Inr (takeWhile (\<lambda>c. c \<noteq> NUL) (msgs caster))"
    unfolding c_string_def takeWhile_pad by simp
  with assms(1,2) b show ?thesis
    by (simp add: mpi_broadcast_def bcast_law_def Let_def)
qed

text \<open>
  C40: every rank, the caster included, ends with the caster's message up to its first NUL
  character: all of it if it has none, a proper prefix if it has one.
\<close>

theorem mpi_broadcast_delivers:
  assumes "bcast_law bcast_int" "bcast_law bcast_chars"
    and len: "length (msgs caster) < 2147483647"
  shows "mpi_broadcast bcast_int bcast_chars caster msgs rank =
    Inr (takeWhile (\<lambda>c. c \<noteq> NUL) (msgs caster))"
  using assms by (rule mpi_broadcast_value)

definition copy_root :: "nat \<Rightarrow> (nat \<Rightarrow> 'a) \<Rightarrow> nat \<Rightarrow> 'a" where
  "copy_root caster f r = f caster"

lemma copy_root_law: "bcast_law copy_root"
  by (simp add: bcast_law_def copy_root_def)

theorem mpi_broadcast_delivers_witness:
  "mpi_broadcast copy_root copy_root 1 (\<lambda>r. ''ab'' @ [CHR 0x00] @ ''cd'') 0 = Inr ''ab''"
  using mpi_broadcast_delivers [OF copy_root_law copy_root_law, of "\<lambda>r. ''ab'' @ [CHR 0x00] @ ''cd''" 1 0]
  by (simp add: NUL_def)

text \<open>
  The self test: with at least one process the sender is one of them and every process
  ends with the greeting.
\<close>

lemma test_comms_greets:
  assumes "bcast_law bcast_int" "bcast_law bcast_chars" and "0 < num_proc"
  shows "num_proc div 2 < num_proc \<and> test_comms bcast_int bcast_chars num_proc rank = Inr ''hello''"
  using mpi_broadcast_value [OF assms(1,2)] assms(3) by (simp add: test_comms_def NUL_def Let_def)

lemma test_comms_greets_witness:
  "test_comms copy_root copy_root 4 3 = Inr ''hello''"
  using test_comms_greets [OF copy_root_law copy_root_law, of 4 3] by simp

end
