(* ===== verification/Server.thy ===== *)
theory Server
  imports Prelude
begin

text \<open>
  \<open>source/Network/Server.h\<close>: opening a listening socket. The socket calls are the kernel's: a
  record of functions over an abstract state.
\<close>

record 's sockets =
  sk_socket :: "'s \<Rightarrow> int \<times> 's"
  sk_bind :: "c_int \<Rightarrow> nat \<Rightarrow> 's \<Rightarrow> int \<times> 's"
  sk_listen :: "c_int \<Rightarrow> 's \<Rightarrow> int \<times> 's"
  sk_close :: "c_int \<Rightarrow> 's \<Rightarrow> 's"

definition server_socket :: "'s sockets \<Rightarrow> 's \<Rightarrow> int \<times> 's" where
  "server_socket sk s =
     (case sk_socket sk s of
        (sockfd, s1) \<Rightarrow>
          if sockfd < 0 then (1, s1)
          else
            (case sk_bind sk sockfd 8080 s1 of
               (r, s2) \<Rightarrow>
                 if r < 0 then (1, sk_close sk sockfd s2)
                 else
                   (case sk_listen sk sockfd s2 of
                      (r, s3) \<Rightarrow>
                        if r < 0 then (1, sk_close sk sockfd s3)
                        else (0, sk_close sk sockfd s3))))"

section \<open>Properties\<close>

text \<open>
  The documented effect on the descriptors that are open: a successful \<open>socket\<close> opens a new
  one, \<open>close\<close> closes one, the other calls leave them alone.
\<close>

definition socket_laws :: "'s sockets \<Rightarrow> ('s \<Rightarrow> c_int set) \<Rightarrow> bool" where
  "socket_laws sk opened \<longleftrightarrow>
     (\<forall>s fd s'. sk_socket sk s = (fd, s') \<longrightarrow>
        (if fd < 0 then opened s' = opened s else fd \<notin> opened s \<and> opened s' = insert fd (opened s))) \<and>
     (\<forall>fd port s. opened (snd (sk_bind sk fd port s)) = opened s) \<and>
     (\<forall>fd s. opened (snd (sk_listen sk fd s)) = opened s) \<and>
     (\<forall>fd s. opened (sk_close sk fd s) = opened s - {fd})"

text \<open>
  On every path, success included, \<open>server_socket\<close> closes the socket it opened: no
  descriptor leaks, and when it returns 0 nothing is listening any more.
\<close>

lemma server_socket_closes:
  assumes "socket_laws sk opened"
  shows "opened (snd (server_socket sk s)) = opened s \<and> fst (server_socket sk s) \<in> {0, 1}"
proof -
  obtain fd s1 where sock: "sk_socket sk s = (fd, s1)" by fastforce
  obtain rb s2 where bind: "sk_bind sk fd 8080 s1 = (rb, s2)" by fastforce
  obtain rl s3 where listen: "sk_listen sk fd s2 = (rl, s3)" by fastforce
  have sock': "if fd < 0 then opened s1 = opened s else fd \<notin> opened s \<and> opened s1 = insert fd (opened s)"
    by (rule assms [unfolded socket_laws_def, THEN conjunct1, rule_format, OF sock])
  have laws: "\<forall>fd port s. opened (snd (sk_bind sk fd port s)) = opened s"
    "\<forall>fd s. opened (snd (sk_listen sk fd s)) = opened s"
    "\<forall>fd s. opened (sk_close sk fd s) = opened s - {fd}"
    using assms unfolding socket_laws_def by - (elim conjE, assumption)+
  have eqs: "opened s2 = opened s1" "opened s3 = opened s2" "opened (sk_close sk fd t) = opened t - {fd}" for t
    using laws(1) [rule_format, of fd 8080 s1] laws(2) [rule_format, of fd s2] laws(3) bind listen
    by simp_all
  show ?thesis
  proof (cases "fd < 0")
    case True
    with sock sock' show ?thesis by (simp add: server_socket_def)
  next
    case False
    with sock' have "fd \<notin> opened s" "opened s1 = insert fd (opened s)" by simp_all
    with False sock bind listen eqs show ?thesis by (simp add: server_socket_def)
  qed
qed

text \<open>A kernel whose state is the list of open descriptors, and on which the port is taken.\<close>

definition busy_sockets :: "c_int list sockets" where
  "busy_sockets =
     \<lparr>sk_socket = (\<lambda>s. (int (Suc (nat (sum_list (map abs s)))), int (Suc (nat (sum_list (map abs s)))) # s)),
      sk_bind = (\<lambda>fd port s. (-1, s)), sk_listen = (\<lambda>fd s. (0, s)), sk_close = (\<lambda>fd s. filter (\<lambda>x. x \<noteq> fd) s)\<rparr>"

lemma busy_sockets_laws: "socket_laws busy_sockets set"
proof -
  have "int (Suc (nat (sum_list (map abs (s :: int list))))) \<notin> set s" for s
  proof
    let ?t = "sum_list (map abs s)"
    assume a: "int (Suc (nat ?t)) \<in> set s"
    have "0 \<le> ?t" by (rule sum_list_nonneg) auto
    moreover have "abs x \<le> ?t" if "x \<in> set s" for x
      using that by (intro member_le_sum_list) auto
    ultimately show False using a by fastforce
  qed
  then show ?thesis by (auto simp: socket_laws_def busy_sockets_def)
qed

lemma server_socket_closes_witness:
  "fst (server_socket busy_sockets [3, 4]) = 1 \<and> set (snd (server_socket busy_sockets [3, 4])) = {3, 4}"
  using server_socket_closes [OF busy_sockets_laws, of "[3, 4]"]
  by (simp add: server_socket_def busy_sockets_def)

end
