(* ===== verification/Sender_Pipe.thy ===== *)
theory Sender_Pipe
  imports Uring
begin

unbundle bit_operations_syntax

text \<open>
  \<open>source/Network/sender_pipe.h\<close>: reading a whole file in 4096-byte blocks through a ring of
  depth 4. The user data of a request is the number of the buffer it reads into. \<open>off_t\<close> and
  \<open>ssize_t\<close> values of the loop are HOL integers: they stay below the aligned file size.
\<close>

section \<open>The code\<close>

definition Q_DEPTH :: nat where "Q_DEPTH = 4"
definition BLOCK :: int where "BLOCK = 4096"

text \<open>File system calls over an abstract state, and the state of a run.\<close>

record 'f file_calls =
  fc_open :: "string \<Rightarrow> 'f \<Rightarrow> c_int \<times> 'f"
  fc_close :: "c_int \<Rightarrow> 'f \<Rightarrow> 'f"
  fc_fstat :: "'f \<Rightarrow> c_int \<Rightarrow> stat option"
  fc_stat :: "'f \<Rightarrow> string \<Rightarrow> stat option"

record ('r, 'm, 'f) sp_state =
  sp_ring :: 'r
  sp_mem :: 'm
  sp_files :: 'f

definition setup_uring :: "(nat, 'r) uring \<Rightarrow> 'r \<Rightarrow> (cpp_error + unit) \<times> 'r" where
  "setup_uring ur r =
     (case ur_init ur Q_DEPTH r of (ret, r1) \<Rightarrow> if ret < 0 then (Inl (Exit 1), r1) else (Inr (), r1))"

definition FdGetFileSize :: "'f file_calls \<Rightarrow> c_int \<Rightarrow> 'f \<Rightarrow> ssize_t" where
  "FdGetFileSize fc fd f = (case fc_fstat fc f fd of None \<Rightarrow> -1 | Some st \<Rightarrow> st_size st)"

definition GetFileSize :: "'f file_calls \<Rightarrow> string \<Rightarrow> 'f \<Rightarrow> ssize_t" where
  "GetFileSize fc filename f = (case fc_stat fc f filename of None \<Rightarrow> -1 | Some st \<Rightarrow> st_size st)"

definition close_uring :: "(nat, 'r) uring \<Rightarrow> 'r \<Rightarrow> 'r" where
  "close_uring ur r = ur_exit ur r"

text \<open>\<open>(fsize + BLOCK - 1) & ~(BLOCK - 1)\<close>, the mask sign-extended to 64 bits.\<close>

definition aligned_size :: "ssize_t \<Rightarrow> ssize_t" where
  "aligned_size fsize = (fsize + 4096 - 1) AND NOT (4096 - 1)"

fun read_buffers :: "'m posix \<Rightarrow> nat \<Rightarrow> 'm \<Rightarrow> iovec list option \<times> 'm" where
  "read_buffers px 0 m = (Some [], m)"
| "read_buffers px (Suc n) m =
     (case px_memalign px 4096 4096 m of
        (None, m1) \<Rightarrow> (None, m1)
      | (Some p, m1) \<Rightarrow>
          (case read_buffers px n m1 of
             (None, m2) \<Rightarrow> (None, m2)
           | (Some vs, m2) \<Rightarrow> (Some (\<lparr>iov_base = p, iov_len = 4096\<rparr> # vs), m2)))"

fun free_buffers :: "'m posix \<Rightarrow> iovec list \<Rightarrow> 'm \<Rightarrow> 'm" where
  "free_buffers px [] m = m"
| "free_buffers px (v # vs) m = free_buffers px vs (px_free px (iov_base v) m)"

text \<open>The inner loop: prepare requests until the ring's depth is reached; \<open>idx\<close>, \<open>offset\<close>.\<close>

function read_fill :: "(nat, 'r) uring \<Rightarrow> c_int \<Rightarrow> iovec list \<Rightarrow> nat \<Rightarrow> int \<Rightarrow> int \<Rightarrow> 'r \<Rightarrow> nat \<times> int \<times> 'r" where
  "read_fill ur fd iovecs idx offset aligned r =
     (if idx < Q_DEPTH \<and> offset < aligned then
        (case push_sqe ur \<lparr>sq_op = Op_readv fd [iovecs ! idx] (of_int offset), sq_link = False, sq_data = idx\<rparr> r of
           (False, r1) \<Rightarrow> (idx, offset, r1)
         | (True, r1) \<Rightarrow> read_fill ur fd iovecs (idx + 1) (offset + BLOCK) aligned r1)
      else (idx, offset, r))"
  by pat_completeness auto
termination read_fill
  by (relation "measure (\<lambda>(ur, fd, vs, idx, off, al, r). Q_DEPTH - idx)") auto

declare read_fill.simps [simp del]

lemma read_fill_measure:
  "read_fill ur fd iovecs idx offset aligned r = (idx', offset', r') \<Longrightarrow>
   2 * nat (aligned - offset') + idx' \<le> 2 * nat (aligned - offset) + idx"
proof (induction ur fd iovecs idx offset aligned r rule: read_fill.induct)
  case (1 ur fd iovecs idx offset aligned r)
  show ?case
  proof (cases "idx < Q_DEPTH \<and> offset < aligned")
    case False
    with "1.prems" show ?thesis by (subst (asm) read_fill.simps) simp
  next
    case True
    obtain b r1 where p: "push_sqe ur \<lparr>sq_op = Op_readv fd [iovecs ! idx] (of_int offset), sq_link = False,
        sq_data = idx\<rparr> r = (b, r1)" by fastforce
    show ?thesis
    proof (cases b)
      case False
      with "1.prems" True p show ?thesis by (subst (asm) read_fill.simps) simp
    next
      case b: True
      with "1.prems" True p have "read_fill ur fd iovecs (idx + 1) (offset + BLOCK) aligned r1 = (idx', offset', r')"
        by (subst (asm) read_fill.simps) simp
      from "1.IH" [OF True p [symmetric] _ this] b
      have "2 * nat (aligned - offset') + idx' \<le> 2 * nat (aligned - (offset + BLOCK)) + (idx + 1)" by simp
      moreover have "nat (aligned - (offset + BLOCK)) < nat (aligned - offset)" using True by (simp add: BLOCK_def)
      ultimately show ?thesis by linarith
    qed
  qed
qed

text \<open>
  The outer loop. When the wait fails the code goes on to use the completion pointer it
  never received.
\<close>

function read_loop :: "(nat, 'r) uring \<Rightarrow> c_int \<Rightarrow> iovec list \<Rightarrow> nat \<Rightarrow> int \<Rightarrow> int \<Rightarrow> int \<Rightarrow> 'r \<Rightarrow>
    (cpp_error + int) \<times> 'r" where
  "read_loop ur fd iovecs idx offset aligned total_read r =
     (if offset < aligned \<or> 0 < idx then
        (case read_fill ur fd iovecs idx offset aligned r of
           (idx1, offset1, r1) \<Rightarrow>
             if idx1 = 0 then (Inr total_read, r1)
             else
               (case ur_submit ur r1 of
                  (_, r2) \<Rightarrow>
                    (case ur_wait_cqe ur r2 of
                       (None, r3) \<Rightarrow> (Inl Blocks, r3)
                     | (Some (Inl ret), r3) \<Rightarrow> (Inl Dangling_ref, r3)
                     | (Some (Inr c), r3) \<Rightarrow>
                         if cq_res c < 0 then (Inr total_read, ur_cqe_seen ur c r3)
                         else read_loop ur fd iovecs (idx1 - 1) offset1 aligned
                                (total_read + cq_res c) (ur_cqe_seen ur c r3))))
      else (Inr total_read, r))"
  by pat_completeness auto
termination read_loop
  by (relation "measure (\<lambda>(ur, fd, vs, idx, off, al, t, r). 2 * nat (al - off) + idx)")
     (auto dest!: read_fill_measure [OF sym])

declare read_loop.simps [simp del]

definition read_file_request :: "(nat, 'r) uring \<Rightarrow> 'm posix \<Rightarrow> 'f file_calls \<Rightarrow> string \<Rightarrow>
    ('r, 'm, 'f) sp_state \<Rightarrow> (cpp_error + c_int) \<times> ('r, 'm, 'f) sp_state" where
  "read_file_request ur px fc fname st =
     (case setup_uring ur (sp_ring st) of
        (Inl e, r) \<Rightarrow> (Inl e, st\<lparr>sp_ring := r\<rparr>)
      | (Inr _, r) \<Rightarrow>
          (case fc_open fc fname (sp_files st) of
             (fd, f) \<Rightarrow>
               if fd < 0 then (Inr 1, st\<lparr>sp_ring := r, sp_files := f\<rparr>)
               else
                 (let fsize = FdGetFileSize fc fd f in
                  if fsize <s 0 then (Inr 1, st\<lparr>sp_ring := r, sp_files := f\<rparr>)
                  else
                    (case read_buffers px Q_DEPTH (sp_mem st) of
                       (None, m) \<Rightarrow> (Inr 1, \<lparr>sp_ring = r, sp_mem = m, sp_files = f\<rparr>)
                     | (Some iovecs, m) \<Rightarrow>
                         (case read_loop ur fd iovecs 0 0 (sint (aligned_size fsize)) 0 r of
                            (Inl e, r1) \<Rightarrow> (Inl e, \<lparr>sp_ring = r1, sp_mem = m, sp_files = f\<rparr>)
                          | (Inr total_read, r1) \<Rightarrow>
                              (Inr 0, \<lparr>sp_ring = ur_exit ur r1, sp_mem = free_buffers px iovecs m,
                                       sp_files = fc_close fc fd f\<rparr>))))))"

definition send_pipe_data :: "(nat, 'r) uring \<Rightarrow> 'm posix \<Rightarrow> 'f file_calls \<Rightarrow> string \<Rightarrow>
    ('r, 'm, 'f) sp_state \<Rightarrow> (cpp_error + unit) \<times> ('r, 'm, 'f) sp_state" where
  "send_pipe_data ur px fc file st =
     (case read_file_request ur px fc file st of (Inl e, st1) \<Rightarrow> (Inl e, st1) | (Inr _, st1) \<Rightarrow> (Inr (), st1))"

section \<open>The requests\<close>

text \<open>The request for block \<open>k\<close> into buffer \<open>i\<close>.\<close>

definition block_read :: "c_int \<Rightarrow> iovec list \<Rightarrow> nat \<Rightarrow> nat \<Rightarrow> nat sqe" where
  "block_read fd iovecs k i =
     \<lparr>sq_op = Op_readv fd [iovecs ! i] (of_int (4096 * int k)), sq_link = False, sq_data = i\<rparr>"

lemma read_fill_push:
  assumes law: "get_sqe_law ur view"
  shows "rv_entries (view r) = 4 \<Longrightarrow> length (rv_pending (view r)) \<le> idx \<Longrightarrow> k \<le> n \<Longrightarrow>
    m = min (4 - idx) (n - k) \<Longrightarrow>
    \<exists>r'. read_fill ur fd iovecs idx (4096 * int k) (4096 * int n) r = (idx + m, 4096 * int (k + m), r') \<and>
      view r' = view_push (map (\<lambda>j. block_read fd iovecs (k + j) (idx + j)) [0..<m]) (view r)"
proof (induction m arbitrary: idx k r)
  case 0
  then have "\<not> (idx < Q_DEPTH \<and> 4096 * int k < 4096 * int n)" by (auto simp: Q_DEPTH_def min_def split: if_splits)
  then show ?case by (subst read_fill.simps) (simp only: if_False, simp)
next
  case (Suc m)
  then have lt: "idx < 4" "k < n" by (auto simp: min_def split: if_splits)
  let ?e = "block_read fd iovecs k idx"
  obtain b r1 where p: "push_sqe ur ?e r = (b, r1)" by fastforce
  from push_sqe_law [OF law p] Suc.prems(1,2) lt have b: "b" and v1: "view r1 = view_push [?e] (view r)"
    by auto
  have step: "read_fill ur fd iovecs idx (4096 * int k) (4096 * int n) r =
      read_fill ur fd iovecs (Suc idx) (4096 * int (Suc k)) (4096 * int n) r1"
    using lt p b by (subst read_fill.simps) (simp add: Q_DEPTH_def BLOCK_def block_read_def add.commute)
  have m: "m = min (4 - Suc idx) (n - Suc k)" using Suc.prems(4) lt by (auto simp: min_def split: if_splits)
  have "rv_entries (view r1) = 4" "length (rv_pending (view r1)) \<le> Suc idx" "Suc k \<le> n"
    using Suc.prems(1,2) v1 lt by simp_all
  from Suc.IH [OF this m] obtain r' where
    r': "read_fill ur fd iovecs (Suc idx) (4096 * int (Suc k)) (4096 * int n) r1 =
       (Suc idx + m, 4096 * int (Suc k + m), r')"
    "view r' = view_push (map (\<lambda>j. block_read fd iovecs (Suc k + j) (Suc idx + j)) [0..<m]) (view r1)" by blast
  have "map (\<lambda>j. block_read fd iovecs (k + j) (idx + j)) [0..<Suc m] =
      ?e # map (\<lambda>j. block_read fd iovecs (Suc k + j) (Suc idx + j)) [0..<m]"
    by (subst upt_conv_Cons) (simp_all add: map_Suc_upt [symmetric] comp_def del: upt_Suc)
  with r' v1 show ?case unfolding step by simp
qed




section \<open>Properties\<close>

text \<open>
  \<open>aligned_size\<close> rounds a file size up to the next multiple of the block size, without
  overflow for sizes the addition can represent.
\<close>

lemma aligned_size_rounds:
  assumes "unat f + 4095 < 9223372036854775808"
  shows "unat (aligned_size f) = (unat f + 4095) div 4096 * 4096 \<and> 0 \<le>s aligned_size f"
proof -
  let ?x = "f + 4096 - 1"
  have "unat f + unat (4095 :: ssize_t) < 18446744073709551616" using assms by simp
  from unat_plus64 [OF this] have "unat (f + 4095) = unat f + 4095" by simp
  moreover have "?x = f + 4095" by (simp only: add_diff_eq [symmetric]) simp
  ultimately have x: "unat ?x = unat f + 4095" by (simp only:)
  have m: "(4096 - 1 :: ssize_t) = mask 12" by (simp add: mask_eq_exp_minus_1)
  have "?x AND NOT (mask 12) = push_bit 12 (drop_bit 12 ?x)"
    by (rule bit_word_eqI) (auto simp: bit_simps)
  then have "aligned_size f = push_bit 12 (drop_bit 12 ?x)"
    by (simp only: aligned_size_def m)
  also have "\<dots> = ?x div 4096 * 4096"
    by (simp add: drop_bit_eq_div push_bit_eq_mult)
  finally have e: "aligned_size f = ?x div 4096 * 4096" .
  have d: "unat (?x div 4096) = unat ?x div 4096" by (simp only: unat_div) simp
  have "unat (aligned_size f) = (unat (?x div 4096) * unat (4096 :: ssize_t)) mod 2 ^ LENGTH(64)"
    unfolding e by (rule unat_word_ariths(2))
  also have "\<dots> = (unat ?x div 4096 * 4096) mod 18446744073709551616"
    unfolding d by simp
  also have "\<dots> = (unat f + 4095) div 4096 * 4096"
  proof -
    have "(unat f + 4095) div 4096 * 4096 \<le> unat f + 4095" by simp
    then have "(unat f + 4095) div 4096 * 4096 < 18446744073709551616" using assms by linarith
    then show ?thesis unfolding x by (rule mod_less)
  qed
  finally have "unat (aligned_size f) = (unat f + 4095) div 4096 * 4096" .
  moreover have "(unat f + 4095) div 4096 * 4096 \<le> unat f + 4095" by simp
  ultimately show ?thesis using assms by (simp only: nonneg_iff_unat64) linarith
qed

lemma aligned_size_rounds_witness:
  "unat (aligned_size 10000) = 12288"
  using aligned_size_rounds [of 10000] by simp







text \<open>
  C34: a buffer is reused while a read into it is in flight. For a file of more than four
  blocks the loop first reads blocks 0 to 3 into buffers 0 to 3. After the first completion,
  whichever it is, \<open>idx\<close> is 3, and the loop submits the read of block 4 into buffer 3, although
  the read of block 3 into that buffer is still in flight unless it was the one that completed.
\<close>

theorem buffer_reused_in_flight:
  assumes "uring_laws ur view" "submits_all ur view" "waits_succeed ur" "requests_succeed ur"
    and "ring_idle 4 view r" and "4 < n"
  shows "\<exists>(c :: nat cqe) r1 r2 m r3.
    read_loop ur fd iovecs 0 0 (4096 * int n) t r = read_loop ur fd iovecs 3 16384 (4096 * int n) (t + cq_res c) r1 \<and>
    read_fill ur fd iovecs 3 16384 (4096 * int n) r1 = (4, 20480, r2) \<and> ur_submit ur r2 = (m, r3) \<and>
    rv_submitted (view r3) = rv_submitted (view r) @
      [block_read fd iovecs 0 0, block_read fd iovecs 1 1, block_read fd iovecs 2 2, block_read fd iovecs 3 3,
       block_read fd iovecs 4 3] \<and>
    cq_data c \<in> {0, 1, 2, 3} \<and> rv_outstanding (view r3) = {#0, 1, 2, 3, 3#} - {#cq_data c#} \<and>
    count (rv_outstanding (view r3)) 3 = (if cq_data c = 3 then 1 else 2)"
proof -
  let ?al = "4096 * int n" and ?first = "map (\<lambda>j. block_read fd iovecs j j) [0, 1, 2, 3]"
  have r: "rv_entries (view r) = 4" "length (rv_pending (view r)) \<le> 0" "rv_pending (view r) = []"
    "rv_outstanding (view r) = {#}" using assms(5) by (simp_all add: ring_idle_def)
  have four: "[0..<4] = [0, 1, 2, 3 :: nat]" by (simp add: upt_rec)
  have "4 = min (4 - 0) (n - 0)" using assms(6) by simp
  from read_fill_push [OF uring_lawsD(2) [OF assms(1)] r(1,2) _ this, of fd iovecs] obtain ra where
    ra: "read_fill ur fd iovecs 0 0 ?al r = (4, 16384, ra)" "view ra = view_push ?first (view r)"
    by (auto simp: four)
  obtain k rb where rb: "ur_submit ur ra = (k, rb)" by fastforce
  note vb = submits_allD(1) [OF assms(1,2) rb]
  have out: "rv_outstanding (view rb) = {#0, 1, 2, 3#}" using vb ra(2) r by (simp add: block_read_def)
  then have "rv_outstanding (view rb) \<noteq> {#}" by simp
  from wait_succeeds [OF assms(1,3) this] obtain c rc where
    c: "ur_wait_cqe ur rb = (Some (Inr c), rc)" "cq_data c \<in># rv_outstanding (view rb)"
      "view (ur_cqe_seen ur c rc) = view_consume {#cq_data c#} (view rb)" by blast
  let ?r1 = "ur_cqe_seen ur c rc"
  have "0 \<le> cq_res c" using assms(4) c(1) by (metis requests_succeed_def fst_conv)
  then have step: "read_loop ur fd iovecs 0 0 ?al t r = read_loop ur fd iovecs 3 16384 ?al (t + cq_res c) ?r1"
    using assms(6) ra(1) rb c(1) by (subst read_loop.simps) (simp add: not_less)
  have v1: "rv_entries (view ?r1) = 4" "length (rv_pending (view ?r1)) \<le> 3" "rv_pending (view ?r1) = []"
    using c(3) vb ra(2) r by simp_all
  have "1 = min (4 - 3) (n - 4)" using assms(6) by simp
  from read_fill_push [OF uring_lawsD(2) [OF assms(1)] v1(1,2) _ this, of fd iovecs] assms(6) obtain r2 where
    r2: "read_fill ur fd iovecs 3 16384 ?al ?r1 = (4, 20480, r2)" "view r2 = view_push [block_read fd iovecs 4 3] (view ?r1)"
    by auto
  obtain m r3 where r3: "ur_submit ur r2 = (m, r3)" by fastforce
  note v3 = submits_allD(1) [OF assms(1,2) r3]
  have one: "cq_data c \<in> {0, 1, 2, 3}" using c(2) out by auto
  have o3: "rv_outstanding (view r3) = {#0, 1, 2, 3#} - {#cq_data c#} + {#3#}"
    using v3 r2(2) v1(3) c(3) out by (simp add: block_read_def)
  have "rv_submitted (view r3) = rv_submitted (view r) @ ?first @ [block_read fd iovecs 4 3]"
    using v3 r2(2) v1(3) c(3) vb ra(2) r(3) by simp
  with step r2(1) r3 one o3 show ?thesis
    by (intro exI [of _ c] exI [of _ ?r1] exI [of _ r2] exI [of _ m] exI [of _ r3]) auto
qed

definition four_buffers :: "iovec list" where
  "four_buffers = map (\<lambda>p. \<lparr>iov_base = p, iov_len = 4096\<rparr>) [10, 11, 12, 13]"

text \<open>On the ring that completes in order, where block 0 comes first, two reads share buffer 13.\<close>

theorem buffer_reused_in_flight_witness:
  "\<exists>(c :: nat cqe) r1 r2 m r3.
    read_loop (sim_uring (\<lambda>e. 4096)) 7 four_buffers 0 0 20480 0 (sim_start\<lparr>sim_entries := 4\<rparr>) =
      read_loop (sim_uring (\<lambda>e. 4096)) 7 four_buffers 3 16384 20480 (cq_res c) r1 \<and>
    read_fill (sim_uring (\<lambda>e. 4096)) 7 four_buffers 3 16384 20480 r1 = (4, 20480, r2) \<and>
    ur_submit (sim_uring (\<lambda>e. 4096)) r2 = (m, r3) \<and>
    map sq_op (rv_submitted (sim_view r3)) =
      [Op_readv 7 [\<lparr>iov_base = 10, iov_len = 4096\<rparr>] 0, Op_readv 7 [\<lparr>iov_base = 11, iov_len = 4096\<rparr>] 4096,
       Op_readv 7 [\<lparr>iov_base = 12, iov_len = 4096\<rparr>] 8192, Op_readv 7 [\<lparr>iov_base = 13, iov_len = 4096\<rparr>] 12288,
       Op_readv 7 [\<lparr>iov_base = 13, iov_len = 4096\<rparr>] 16384] \<and>
    count (rv_outstanding (sim_view r3)) 3 = (if cq_data c = 3 then 1 else 2)"
proof -
  have ok: "requests_succeed (sim_uring (\<lambda>e :: nat sqe. 4096))" by (rule sim_requests_succeed) simp
  have idle: "ring_idle 4 sim_view (sim_start\<lparr>sim_entries := 4\<rparr> :: nat sim)"
    by (simp add: ring_idle_def sim_view_def sim_start_def)
  have none: "rv_submitted (sim_view (sim_start\<lparr>sim_entries := 4\<rparr> :: nat sim)) = []"
    by (simp add: rv_submitted_def sim_view_def sim_start_def)
  from buffer_reused_in_flight [OF sim_uring_laws sim_uring_ok(2,3) ok idle, of 5 7 four_buffers 0, unfolded none]
  obtain c :: "nat cqe" and r1 r2 m r3 where
    "read_loop (sim_uring (\<lambda>e. 4096)) 7 four_buffers 0 0 (4096 * int 5) 0 (sim_start\<lparr>sim_entries := 4\<rparr>) =
      read_loop (sim_uring (\<lambda>e. 4096)) 7 four_buffers 3 16384 (4096 * int 5) (0 + cq_res c) r1"
    "read_fill (sim_uring (\<lambda>e. 4096)) 7 four_buffers 3 16384 (4096 * int 5) r1 = (4, 20480, r2)"
    "ur_submit (sim_uring (\<lambda>e. 4096)) r2 = (m, r3)"
    "rv_submitted (sim_view r3) = [] @ [block_read 7 four_buffers 0 0, block_read 7 four_buffers 1 1,
       block_read 7 four_buffers 2 2, block_read 7 four_buffers 3 3, block_read 7 four_buffers 4 3]"
    "count (rv_outstanding (sim_view r3)) 3 = (if cq_data c = 3 then 1 else 2)" by auto
  then show ?thesis
    by (intro exI [of _ c] exI [of _ r1] exI [of _ r2] exI [of _ m] exI [of _ r3])
      (simp add: block_read_def four_buffers_def)
qed

end
