(* ===== verification/Broadcaster.thy ===== *)
theory Broadcaster
  imports Uring
begin

text \<open>
  \<open>source/Network/broadcaster.hpp\<close>: an event loop that reads a chunk from the input and writes
  it to every client before it reads the next one. The file is written against an earlier
  interface of \<open>Request\<close> (names in the \<open>Network\<close> namespace, shared handles and buffers), so
  the model has its own record of a queued request: its type, the address of its shared
  buffer, the descriptor \<open>getFile\<close> stands for, and its byte count. Ownership of a request
  passes through the user data pointer and back (\<open>release\<close>, then a \<open>unique_ptr\<close> again), so the
  request itself is the user data. \<open>buf\<close> is the allocator: the address at which a new buffer is
  made in a given state.
\<close>

section \<open>The code\<close>

definition NET_Q_DEPTH :: nat where "NET_Q_DEPTH = 64"
definition CHUNK :: "32 word" where "CHUNK = 4096"

record queued =
  q_type :: OpType
  q_buf :: ptr
  q_fd :: c_int
  q_bytes :: size_t

record 'r bc_state =
  bc_ring :: 'r
  bc_outputs :: "c_int list"
  bc_writes_pending :: int

definition read_sqe :: "queued \<Rightarrow> queued sqe" where
  "read_sqe q = \<lparr>sq_op = Op_read (q_fd q) (q_buf q) CHUNK 0, sq_link = False, sq_data = q\<rparr>"

definition write_sqe :: "queued \<Rightarrow> queued sqe" where
  "write_sqe q = \<lparr>sq_op = Op_write (q_fd q) (q_buf q) (ucast (q_bytes q)) 0, sq_link = False, sq_data = q\<rparr>"

definition submit_read :: "(queued, 'r) uring \<Rightarrow> queued \<Rightarrow> 'r \<Rightarrow> (cpp_error + unit) \<times> 'r" where
  "submit_read ur q r =
     (case push_sqe ur (read_sqe q) r of
        (False, r1) \<Rightarrow> (Inl (Exit 1), r1)
      | (True, r1) \<Rightarrow> (case ur_submit ur r1 of (_, r2) \<Rightarrow> (Inr (), r2)))"

definition submit_write :: "(queued, 'r) uring \<Rightarrow> queued \<Rightarrow> 'r \<Rightarrow> (cpp_error + unit) \<times> 'r" where
  "submit_write ur q r =
     (case push_sqe ur (write_sqe q) r of
        (False, r1) \<Rightarrow> (Inl (Exit 1), r1)
      | (True, r1) \<Rightarrow> (Inr (), r1))"

definition start_read :: "(queued, 'r) uring \<Rightarrow> ('r \<Rightarrow> ptr) \<Rightarrow> c_int \<Rightarrow> 'r \<Rightarrow> (cpp_error + unit) \<times> 'r" where
  "start_read ur buf inp r = submit_read ur \<lparr>q_type = Read, q_buf = buf r, q_fd = inp, q_bytes = 0\<rparr> r"

fun submit_writes :: "(queued, 'r) uring \<Rightarrow> ptr \<Rightarrow> size_t \<Rightarrow> c_int list \<Rightarrow> 'r \<Rightarrow>
    (cpp_error + unit) \<times> 'r" where
  "submit_writes ur share n [] r = (Inr (), r)"
| "submit_writes ur share n (out # outs) r =
     (case submit_write ur \<lparr>q_type = Write, q_buf = share, q_fd = out, q_bytes = n\<rparr> r of
        (Inl e, r1) \<Rightarrow> (Inl e, r1)
      | (Inr _, r1) \<Rightarrow> submit_writes ur share n outs r1)"

text \<open>
  The body of the event loop after the completion has been taken: whether to go on, and the
  new state. \<open>False\<close> is a \<open>break\<close>.
\<close>

definition on_completion :: "(queued, 'r) uring \<Rightarrow> ('r \<Rightarrow> ptr) \<Rightarrow> c_int \<Rightarrow> queued cqe \<Rightarrow> 'r bc_state \<Rightarrow>
    (cpp_error + bool) \<times> 'r bc_state" where
  "on_completion ur buf inp c st =
     (let q = cq_data c; res = cq_res c in
      if res < 0 then
        if res = - EAGAIN then
          (case submit_read ur q (bc_ring st) of
             (Inl e, r) \<Rightarrow> (Inl e, st\<lparr>bc_ring := r\<rparr>)
           | (Inr _, r) \<Rightarrow> (Inr True, st\<lparr>bc_ring := r\<rparr>))
        else if q_type q = Write then
          (let outs = filter (\<lambda>fd. fd \<noteq> q_fd q) (bc_outputs st);
               pending = bc_writes_pending st - 1;
               st1 = st\<lparr>bc_outputs := outs, bc_writes_pending := pending\<rparr>
           in if pending = 0 \<and> outs \<noteq> [] then
                (case start_read ur buf inp (bc_ring st1) of
                   (Inl e, r) \<Rightarrow> (Inl e, st1\<lparr>bc_ring := r\<rparr>)
                 | (Inr _, r) \<Rightarrow> (Inr True, st1\<lparr>bc_ring := r\<rparr>))
              else (Inr True, st1))
        else (Inr False, st)
      else if q_type q = Read then
        if res = 0 then (Inr False, st)
        else
          (let st1 = st\<lparr>bc_writes_pending := int (length (bc_outputs st))\<rparr> in
           case submit_writes ur (q_buf q) (of_int res) (bc_outputs st1) (bc_ring st1) of
             (Inl e, r) \<Rightarrow> (Inl e, st1\<lparr>bc_ring := r\<rparr>)
           | (Inr _, r) \<Rightarrow> (case ur_submit ur r of (_, r1) \<Rightarrow> (Inr True, st1\<lparr>bc_ring := r1\<rparr>)))
      else if q_type q = Write then
        (let st1 = st\<lparr>bc_writes_pending := bc_writes_pending st - 1\<rparr> in
         if bc_writes_pending st1 = 0 then
           (case start_read ur buf inp (bc_ring st1) of
              (Inl e, r) \<Rightarrow> (Inl e, st1\<lparr>bc_ring := r\<rparr>)
            | (Inr _, r) \<Rightarrow> (Inr True, st1\<lparr>bc_ring := r\<rparr>))
         else (Inr True, st1))
      else (Inr True, st))"

text \<open>The loop; \<open>None\<close> is a run that never leaves it although every wait returns.\<close>

partial_function (option) event_loop :: "(queued, 'r) uring \<Rightarrow> ('r \<Rightarrow> ptr) \<Rightarrow> c_int \<Rightarrow> 'r bc_state \<Rightarrow>
    ((cpp_error + unit) \<times> 'r bc_state) option" where
  "event_loop ur buf inp st =
     (case ur_wait_cqe ur (bc_ring st) of
        (None, r) \<Rightarrow> Some (Inl Blocks, st\<lparr>bc_ring := r\<rparr>)
      | (Some (Inl ret), r) \<Rightarrow> Some (Inr (), st\<lparr>bc_ring := r\<rparr>)
      | (Some (Inr c), r) \<Rightarrow>
          (case on_completion ur buf inp c (st\<lparr>bc_ring := ur_cqe_seen ur c r\<rparr>) of
             (Inl e, st1) \<Rightarrow> Some (Inl e, st1)
           | (Inr go_on, st1) \<Rightarrow> if go_on then event_loop ur buf inp st1 else Some (Inr (), st1)))"

definition broadcast :: "(queued, 'r) uring \<Rightarrow> ('r \<Rightarrow> ptr) \<Rightarrow> c_int \<Rightarrow> c_int list \<Rightarrow> 'r \<Rightarrow>
    ((cpp_error + unit) \<times> 'r bc_state) option" where
  "broadcast ur buf inp outs r =
     (case ur_init ur NET_Q_DEPTH r of
        (ret, r1) \<Rightarrow>
          if ret < 0 then Some (Inl (Exit 1), \<lparr>bc_ring = r1, bc_outputs = outs, bc_writes_pending = 0\<rparr>)
          else
            (case start_read ur buf inp r1 of
               (Inl e, r2) \<Rightarrow> Some (Inl e, \<lparr>bc_ring = r2, bc_outputs = outs, bc_writes_pending = 0\<rparr>)
             | (Inr _, r2) \<Rightarrow>
                 (case event_loop ur buf inp \<lparr>bc_ring = r2, bc_outputs = outs, bc_writes_pending = 0\<rparr> of
                    None \<Rightarrow> None
                  | Some (Inl e, st) \<Rightarrow> Some (Inl e, st)
                  | Some (Inr _, st) \<Rightarrow> Some (Inr (), st\<lparr>bc_ring := ur_exit ur (bc_ring st)\<rparr>))))"

section \<open>Single operations\<close>

text \<open>With nothing pending in the ring every operation leaves nothing pending.\<close>

definition bc_ready :: "('r \<Rightarrow> queued ring_view) \<Rightarrow> 'r \<Rightarrow> bool" where
  "bc_ready view r \<longleftrightarrow> rv_pending (view r) = [] \<and> rv_entries (view r) = 64"

lemma submit_read_ok:
  assumes laws: "uring_laws ur view" "submits_all ur view" and r: "bc_ready view r"
  shows "\<exists>r'. submit_read ur q r = (Inr (), r') \<and> bc_ready view r' \<and>
    rv_outstanding (view r') = add_mset q (rv_outstanding (view r)) \<and>
    rv_batches (view r') = rv_batches (view r) @ [[read_sqe q]]"
proof -
  obtain b r1 where p: "push_sqe ur (read_sqe q) r = (b, r1)" by fastforce
  from push_sqe_law [OF uring_lawsD(2) [OF laws(1)] p] r
  have b: b "view r1 = view_push [read_sqe q] (view r)" by (simp_all add: bc_ready_def)
  obtain s r2 where s: "ur_submit ur r1 = (s, r2)" by fastforce
  with p b submits_allD(1) [OF laws s] r show ?thesis
    by (simp add: submit_read_def bc_ready_def read_sqe_def)
qed

text \<open>The requests that write a chunk of \<open>n\<close> bytes to every output.\<close>

definition write_batch :: "ptr \<Rightarrow> size_t \<Rightarrow> c_int list \<Rightarrow> queued sqe list" where
  "write_batch share n outs =
     map (\<lambda>out. write_sqe \<lparr>q_type = Write, q_buf = share, q_fd = out, q_bytes = n\<rparr>) outs"

lemma submit_writes_ok:
  assumes law: "get_sqe_law ur view"
  shows "rv_entries (view r) = 64 \<Longrightarrow> length (rv_pending (view r)) + length outs \<le> 64 \<Longrightarrow>
    \<exists>r'. submit_writes ur share n outs r = (Inr (), r') \<and>
      view r' = view_push (write_batch share n outs) (view r)"
proof (induction outs arbitrary: r)
  case (Cons out outs)
  let ?e = "write_sqe \<lparr>q_type = Write, q_buf = share, q_fd = out, q_bytes = n\<rparr>"
  obtain b r1 where p: "push_sqe ur ?e r = (b, r1)" by fastforce
  from push_sqe_law [OF law p] Cons.prems have b: b "view r1 = view_push [?e] (view r)" by simp_all
  with Cons.IH [of r1] Cons.prems p show ?case by (auto simp: submit_write_def write_batch_def)
qed (simp add: write_batch_def)

lemma submit_writes_full:
  assumes law: "get_sqe_law ur view"
  shows "rv_entries (view r) = 64 \<Longrightarrow> length (rv_pending (view r)) \<le> 64 \<Longrightarrow>
    64 < length (rv_pending (view r)) + length outs \<Longrightarrow>
    \<exists>r'. submit_writes ur share n outs r = (Inl (Exit 1), r')"
proof (induction outs arbitrary: r)
  case (Cons out outs)
  let ?e = "write_sqe \<lparr>q_type = Write, q_buf = share, q_fd = out, q_bytes = n\<rparr>"
  obtain b r1 where p: "push_sqe ur ?e r = (b, r1)" by fastforce
  note l = push_sqe_law [OF law p]
  show ?case
  proof (cases b)
    case True
    with l Cons.prems have "rv_entries (view r1) = 64" "length (rv_pending (view r1)) \<le> 64"
      "64 < length (rv_pending (view r1)) + length outs" by auto
    from Cons.IH [OF this] p True show ?thesis by (auto simp: submit_write_def)
  next
    case False
    with p show ?thesis by (simp add: submit_write_def)
  qed
qed simp

section \<open>The state machine\<close>

text \<open>
  One turn of the loop that goes on. The kernel may complete any outstanding request with
  any result.
\<close>

inductive bc_turn :: "(queued, 'r) uring \<Rightarrow> ('r \<Rightarrow> ptr) \<Rightarrow> c_int \<Rightarrow> 'r bc_state \<Rightarrow> 'r bc_state \<Rightarrow> bool"
  for ur buf inp where
  turn: "ur_wait_cqe ur (bc_ring st) = (Some (Inr c), r) \<Longrightarrow>
     on_completion ur buf inp c (st\<lparr>bc_ring := ur_cqe_seen ur c r\<rparr>) = (Inr True, st') \<Longrightarrow>
     bc_turn ur buf inp st st'"

inductive_cases bc_turnE: "bc_turn ur buf inp st st'"

text \<open>
  Either one read and no write is in flight, or no read and as many writes as
  \<open>writes_pending\<close> counts, at least one; or nothing at all is in flight, which happens only
  when no client is left.
\<close>

definition bc_inv :: "('r \<Rightarrow> queued ring_view) \<Rightarrow> 'r bc_state \<Rightarrow> bool" where
  "bc_inv view st \<longleftrightarrow>
     bc_ready view (bc_ring st) \<and>
     (let D = rv_outstanding (view (bc_ring st)) in
      (\<exists>q. D = {#q#} \<and> q_type q = Read \<and> bc_writes_pending st = 0) \<or>
      ((\<forall>q \<in># D. q_type q = Write) \<and> bc_writes_pending st = int (size D) \<and>
       (D = {#} \<longrightarrow> bc_outputs st = [])))"

lemma start_read_inv:
  assumes laws: "uring_laws ur view" "submits_all ur view"
    and r: "bc_ready view (bc_ring st)" "rv_outstanding (view (bc_ring st)) = {#}" "bc_writes_pending st = 0"
  shows "\<exists>r'. start_read ur buf inp (bc_ring st) = (Inr (), r') \<and> bc_inv view (st\<lparr>bc_ring := r'\<rparr>)"
proof -
  from submit_read_ok [OF laws r(1), of "\<lparr>q_type = Read, q_buf = buf (bc_ring st), q_fd = inp, q_bytes = 0\<rparr>"] obtain r' where
    "start_read ur buf inp (bc_ring st) = (Inr (), r')" "bc_ready view r'"
    "rv_outstanding (view r') = {#\<lparr>q_type = Read, q_buf = buf (bc_ring st), q_fd = inp, q_bytes = 0\<rparr>#}"
    using r(2) by (auto simp: start_read_def)
  then show ?thesis using r(3) by (auto simp: bc_inv_def Let_def)
qed

text \<open>What the completion of a read does: one write per output, as one submission.\<close>

lemma read_completion:
  assumes laws: "uring_laws ur view" "submits_all ur view"
    and r: "bc_ready view (bc_ring st)" and c: "q_type (cq_data c) = Read" "0 < cq_res c"
    and few: "length (bc_outputs st) \<le> 64"
    and ws: "ws = write_batch (q_buf (cq_data c)) (of_int (cq_res c)) (bc_outputs st)"
  shows "\<exists>r'. on_completion ur buf inp c st =
      (Inr True, st\<lparr>bc_writes_pending := int (length (bc_outputs st)), bc_ring := r'\<rparr>) \<and>
    bc_ready view r' \<and> rv_batches (view r') = rv_batches (view (bc_ring st)) @ [ws] \<and>
    rv_outstanding (view r') = rv_outstanding (view (bc_ring st)) + mset (map sq_data ws)"
proof -
  have "rv_entries (view (bc_ring st)) = 64" "length (rv_pending (view (bc_ring st))) + length (bc_outputs st) \<le> 64"
    using r few by (simp_all add: bc_ready_def)
  from submit_writes_ok [OF uring_lawsD(2) [OF laws(1)] this, of "q_buf (cq_data c)" "of_int (cq_res c)"] obtain r1 where
    r1: "submit_writes ur (q_buf (cq_data c)) (of_int (cq_res c)) (bc_outputs st) (bc_ring st) = (Inr (), r1)"
      "view r1 = view_push ws (view (bc_ring st))" unfolding ws by blast
  obtain s r2 where s: "ur_submit ur r1 = (s, r2)" by fastforce
  from submits_allD(1) [OF laws s] r1(2) r
  have "bc_ready view r2" "rv_batches (view r2) = rv_batches (view (bc_ring st)) @ [ws]"
    "rv_outstanding (view r2) = rv_outstanding (view (bc_ring st)) + mset (map sq_data ws)"
    by (simp_all add: bc_ready_def)
  moreover have "on_completion ur buf inp c st =
      (Inr True, st\<lparr>bc_writes_pending := int (length (bc_outputs st)), bc_ring := r2\<rparr>)"
    using c r1(1) s by (simp add: on_completion_def Let_def)
  ultimately show ?thesis by blast
qed

lemma read_completion_many:
  assumes laws: "uring_laws ur view"
    and r: "bc_ready view (bc_ring st)" and c: "q_type (cq_data c) = Read" "0 < cq_res c"
    and many: "64 < length (bc_outputs st)"
  shows "\<exists>st'. on_completion ur buf inp c st = (Inl (Exit 1), st')"
proof -
  from submit_writes_full [OF uring_lawsD(2) [OF laws], of "bc_ring st" "bc_outputs st" "q_buf (cq_data c)" "of_int (cq_res c)"]
  obtain r1 where "submit_writes ur (q_buf (cq_data c)) (of_int (cq_res c)) (bc_outputs st) (bc_ring st) = (Inl (Exit 1), r1)"
    using r many by (auto simp: bc_ready_def)
  with c show ?thesis by (simp add: on_completion_def Let_def)
qed

text \<open>The completion of a request of the invariant's state keeps the invariant.\<close>

lemma on_completion_inv:
  assumes laws: "uring_laws ur view" "submits_all ur view"
    and r: "bc_ready view (bc_ring st)"
    and D: "D = add_mset (cq_data c) (rv_outstanding (view (bc_ring st)))"
      "(\<exists>q. D = {#q#} \<and> q_type q = Read \<and> bc_writes_pending st = 0) \<or>
       ((\<forall>q \<in># D. q_type q = Write) \<and> bc_writes_pending st = int (size D))"
    and step: "on_completion ur buf inp c st = (Inr True, st')"
  shows "bc_inv view st'"
proof -
  let ?O = "rv_outstanding (view (bc_ring st))" and ?q = "cq_data c"
  from submit_read_ok [OF laws r, of ?q] obtain r1 where
    again: "submit_read ur ?q (bc_ring st) = (Inr (), r1)" "bc_ready view r1"
      "rv_outstanding (view r1) = add_mset ?q ?O" by blast
  show ?thesis
  proof (cases "cq_res c = - EAGAIN")
    case True
    then have "st' = st\<lparr>bc_ring := r1\<rparr>"
      using step again(1) by (simp add: on_completion_def errno_defs)
    with again(2,3) D show ?thesis by (auto simp: bc_inv_def)
  next
    case no_again: False
    from D(2) show ?thesis
    proof
      assume "\<exists>q. D = {#q#} \<and> q_type q = Read \<and> bc_writes_pending st = 0"
      then have q: "q_type ?q = Read" "?O = {#}" using D(1) by (auto simp: single_is_union)
      then have res: "0 < cq_res c"
        using step no_again by (auto simp: on_completion_def Let_def split: if_splits)
      show ?thesis
      proof (cases "length (bc_outputs st) \<le> 64")
        case True
        from read_completion [OF laws r q(1) res True refl, of buf inp] step q(2) show ?thesis
          by (auto simp: bc_inv_def write_sqe_def write_batch_def)
      next
        case False
        then have "64 < length (bc_outputs st)" by simp
        from read_completion_many [OF laws(1) r q(1) res this, of buf inp] step show ?thesis by auto
      qed
    next
      assume w: "(\<forall>q \<in># D. q_type q = Write) \<and> bc_writes_pending st = int (size D)"
      then have q: "q_type ?q = Write" "\<forall>q \<in># ?O. q_type q = Write"
        "bc_writes_pending st - 1 = int (size ?O)" using D(1) by auto
      let ?outs = "if cq_res c < 0 then filter (\<lambda>fd. fd \<noteq> q_fd ?q) (bc_outputs st) else bc_outputs st"
      let ?st = "st\<lparr>bc_outputs := ?outs, bc_writes_pending := bc_writes_pending st - 1\<rparr>"
      show ?thesis
      proof (cases "bc_writes_pending st = 1 \<and> (0 \<le> cq_res c \<or> ?outs \<noteq> [])")
        case True
        then have "?O = {#}" using q(3) by simp
        then obtain r2 where r2: "start_read ur buf inp (bc_ring st) = (Inr (), r2)"
          "bc_inv view (?st\<lparr>bc_ring := r2\<rparr>)"
          using start_read_inv [OF laws, of ?st buf inp] r True by auto
        have "st' = ?st\<lparr>bc_ring := r2\<rparr>"
          using step no_again q(1) r2(1) True by (cases "cq_res c < 0") (auto simp: on_completion_def Let_def)
        with r2(2) show ?thesis by simp
      next
        case False
        then have "st' = ?st"
          using step no_again q(1) by (cases "cq_res c < 0") (auto simp: on_completion_def Let_def split: if_splits)
        moreover have "?O = {#} \<longrightarrow> ?outs = []" using False q(3) by auto
        ultimately show ?thesis using q r by (auto simp: bc_inv_def)
      qed
    qed
  qed
qed

lemma bc_turn_inv:
  assumes laws: "uring_laws ur view" "submits_all ur view"
    and inv: "bc_inv view st" and turn: "bc_turn ur buf inp st st'"
  shows "bc_inv view st'"
  using turn
proof (cases rule: bc_turn.cases)
  case (turn c r)
  let ?D = "rv_outstanding (view (bc_ring st))"
  note w = uring_lawsD(5) [OF laws(1), unfolded wait_law_def, rule_format, OF turn(1)]
  then have c: "cq_data c \<in># ?D" "view (ur_cqe_seen ur c r) = view_consume {#cq_data c#} (view (bc_ring st))"
    by auto
  let ?st = "st\<lparr>bc_ring := ur_cqe_seen ur c r\<rparr>"
  have "bc_ready view (bc_ring ?st)" using c(2) inv by (simp add: bc_inv_def bc_ready_def)
  moreover have "?D = add_mset (cq_data c) (rv_outstanding (view (bc_ring ?st)))" using c by simp
  moreover have "(\<exists>q. ?D = {#q#} \<and> q_type q = Read \<and> bc_writes_pending ?st = 0) \<or>
      ((\<forall>q \<in># ?D. q_type q = Write) \<and> bc_writes_pending ?st = int (size ?D))"
    using inv by (auto simp: bc_inv_def Let_def)
  ultimately show ?thesis by (rule on_completion_inv [OF laws _ _ _ turn(2)])
qed

section \<open>Requests and their tags\<close>

text \<open>
  A request is of the kind its tag says, unless it is the repetition of a write that was
  answered \<open>EAGAIN\<close>: that one is a read, and keeps the tag.
\<close>

definition own_request :: "queued sqe \<Rightarrow> bool" where
  "own_request e \<longleftrightarrow> q_type (sq_data e) = Read \<and> e = read_sqe (sq_data e) \<or>
     q_type (sq_data e) = Write \<and> e = write_sqe (sq_data e)"

definition again_request :: "queued sqe \<Rightarrow> bool" where
  "again_request e \<longleftrightarrow> q_type (sq_data e) = Write \<and> e = read_sqe (sq_data e)"

definition never_again :: "(queued, 'r) uring \<Rightarrow> bool" where
  "never_again ur \<longleftrightarrow> (\<forall>s c. fst (ur_wait_cqe ur s) = Some (Inr c) \<longrightarrow> cq_res c \<noteq> - EAGAIN)"

text \<open>What an operation of the loop hands over: the requests \<open>es\<close>, in one submission or none.\<close>

definition hands_over :: "('r \<Rightarrow> queued ring_view) \<Rightarrow> queued sqe list \<Rightarrow> 'r \<Rightarrow> 'r \<Rightarrow> bool" where
  "hands_over view es r r' \<longleftrightarrow> bc_ready view r' \<and> rv_submitted (view r') = rv_submitted (view r) @ es \<and>
     rv_outstanding (view r') = rv_outstanding (view r) + mset (map sq_data es)"

lemma hands_over_nothing: "bc_ready view r \<Longrightarrow> hands_over view [] r r"
  by (simp add: hands_over_def)

lemma submit_read_hands:
  assumes "uring_laws ur view" "submits_all ur view" "bc_ready view r" "submit_read ur q r = (x, r')"
  shows "hands_over view [read_sqe q] r r'"
  using submit_read_ok [OF assms(1-3), of q] assms(4)
  by (auto simp: hands_over_def rv_submitted_def) (simp add: read_sqe_def)

lemma submit_writes_view:
  assumes "get_sqe_law ur view"
  shows "submit_writes ur share n outs r = (Inr (), r') \<Longrightarrow>
    view r' = view_push (write_batch share n outs) (view r)"
proof (induction outs arbitrary: r)
  case (Cons out outs)
  let ?e = "write_sqe \<lparr>q_type = Write, q_buf = share, q_fd = out, q_bytes = n\<rparr>"
  obtain b r1 where p: "push_sqe ur ?e r = (b, r1)" by fastforce
  with Cons.prems have "b" "submit_writes ur share n outs r1 = (Inr (), r')"
    by (cases b; simp add: submit_write_def)+
  with push_sqe_law [OF assms p] Cons.IH show ?case by (simp add: write_batch_def)
qed (simp add: write_batch_def)

lemma submit_writes_hand:
  assumes "uring_laws ur view" "submits_all ur view" "bc_ready view r"
    and "submit_writes ur share n outs r = (Inr (), r1)" "ur_submit ur r1 = (m, r2)"
  shows "hands_over view (write_batch share n outs) r r2"
  using submit_writes_view [OF uring_lawsD(2) [OF assms(1)] assms(4)] submits_allD(1) [OF assms(1,2,5)] assms(3)
  by (simp add: hands_over_def bc_ready_def)

lemma own_requests:
  "own_request (read_sqe \<lparr>q_type = Read, q_buf = b, q_fd = fd, q_bytes = n\<rparr>)"
  "e \<in> set (write_batch b n outs) \<Longrightarrow> own_request e"
  by (auto simp: own_request_def write_batch_def read_sqe_def write_sqe_def)

lemma on_completion_hands:
  assumes laws: "uring_laws ur view" "submits_all ur view" and r: "bc_ready view (bc_ring st)"
    and tag: "q_type (cq_data c) = Read \<or> q_type (cq_data c) = Write"
    and step: "on_completion ur buf inp c st = (Inr True, st')"
  obtains es where "hands_over view es (bc_ring st) (bc_ring st')"
    "\<forall>e \<in> set es. own_request e \<or> again_request e \<and> cq_res c = - EAGAIN"
proof (cases "cq_res c = - EAGAIN")
  case True
  let ?q = "cq_data c"
  obtain x r1 where r1: "submit_read ur ?q (bc_ring st) = (x, r1)" by fastforce
  with step True have "st' = st\<lparr>bc_ring := r1\<rparr>"
    by (cases x) (simp_all add: on_completion_def errno_defs)
  moreover have "own_request (read_sqe ?q) \<or> again_request (read_sqe ?q)"
    using tag by (auto simp: own_request_def again_request_def read_sqe_def)
  ultimately show thesis using submit_read_hands [OF laws r r1] True by (intro that [of "[read_sqe ?q]"]) auto
next
  case no_again: False
  note found = that
  have quiet: thesis if "bc_ring st' = bc_ring st"
    by (rule found [of "[]"]) (simp_all add: \<open>bc_ring st' = bc_ring st\<close> hands_over_nothing [OF r])
  have read: thesis if "start_read ur buf inp (bc_ring st) = (Inr u, bc_ring st')" for u
  proof -
    from that [unfolded start_read_def] have "hands_over view
        [read_sqe \<lparr>q_type = Read, q_buf = buf (bc_ring st), q_fd = inp, q_bytes = 0\<rparr>] (bc_ring st) (bc_ring st')"
      by (rule submit_read_hands [OF laws r])
    then show thesis by (rule found) (simp add: own_requests)
  qed
  show thesis
  proof (cases "q_type (cq_data c) = Read")
    case True
    then obtain r1 m where "submit_writes ur (q_buf (cq_data c)) (of_int (cq_res c)) (bc_outputs st) (bc_ring st) = (Inr (), r1)"
      "ur_submit ur r1 = (m, bc_ring st')"
      using step no_again by (auto simp: on_completion_def Let_def split: if_splits sum.splits prod.splits)
    from submit_writes_hand [OF laws r this] show thesis by (rule that) (simp add: own_requests)
  next
    case False
    with tag have "q_type (cq_data c) = Write" by simp
    then have "bc_ring st' = bc_ring st \<or> (\<exists>u. start_read ur buf inp (bc_ring st) = (Inr u, bc_ring st'))"
      using step no_again by (auto simp: on_completion_def Let_def split: if_splits sum.splits prod.splits)
    with quiet read show thesis by blast
  qed
qed

text \<open>All that has been submitted since the ring was made, after \<open>base\<close>.\<close>

definition sent_inv :: "(queued, 'r) uring \<Rightarrow> ('r \<Rightarrow> queued ring_view) \<Rightarrow> queued sqe list \<Rightarrow> 'r bc_state \<Rightarrow> bool" where
  "sent_inv ur view base st \<longleftrightarrow> bc_ready view (bc_ring st) \<and>
     (\<exists>es. rv_submitted (view (bc_ring st)) = base @ es \<and>
        rv_outstanding (view (bc_ring st)) \<subseteq># mset (map sq_data es) \<and>
        (\<forall>e \<in> set es. own_request e \<or> again_request e \<and> \<not> never_again ur))"

section \<open>Properties\<close>

text \<open>The state the event loop starts in: a fresh ring with one read of the input submitted.\<close>

definition bc_initial :: "(queued, 'r) uring \<Rightarrow> ('r \<Rightarrow> ptr) \<Rightarrow> c_int \<Rightarrow> c_int list \<Rightarrow> 'r \<Rightarrow> 'r bc_state \<Rightarrow> bool" where
  "bc_initial ur buf inp outs r st \<longleftrightarrow>
     (case ur_init ur NET_Q_DEPTH r of
        (ret, r1) \<Rightarrow> 0 \<le> ret \<and>
          (case start_read ur buf inp r1 of
             (Inl e, r2) \<Rightarrow> False
           | (Inr _, r2) \<Rightarrow> st = \<lparr>bc_ring = r2, bc_outputs = outs, bc_writes_pending = 0\<rparr>))"

lemma bc_initial_inv:
  assumes laws: "uring_laws ur view" "submits_all ur view" and init: "bc_initial ur buf inp outs r st"
  shows "bc_inv view st"
proof -
  obtain ret r1 where i: "ur_init ur (2 ^ 6) r = (ret, r1)" by fastforce
  with init have ret: "0 \<le> ret" by (simp add: bc_initial_def NET_Q_DEPTH_def)
  have v: "bc_ready view r1" "rv_outstanding (view r1) = {#}"
    using uring_lawsD(1) [OF laws(1), unfolded init_law_def, rule_format, OF i ret] by (simp_all add: bc_ready_def)
  from start_read_inv [OF laws, of "\<lparr>bc_ring = r1, bc_outputs = outs, bc_writes_pending = 0\<rparr>" buf inp] v
  obtain r2 where "start_read ur buf inp r1 = (Inr (), r2)"
    "bc_inv view \<lparr>bc_ring = r2, bc_outputs = outs, bc_writes_pending = 0\<rparr>" by auto
  with init i show ?thesis by (simp add: bc_initial_def NET_Q_DEPTH_def)
qed

lemma bc_system:
  assumes "uring_laws ur view" "submits_all ur view"
  shows "invariant_system (bc_initial ur buf inp outs r) (bc_turn ur buf inp) (bc_inv view)"
  by unfold_locales (rule bc_initial_inv [OF assms], assumption, rule bc_turn_inv [OF assms])

lemma sent_initial:
  assumes laws: "uring_laws ur view" "submits_all ur view" and init: "bc_initial ur buf inp outs r st"
  shows "sent_inv ur view (rv_submitted (view r)) st"
proof -
  obtain ret r1 where i: "ur_init ur (2 ^ 6) r = (ret, r1)" by fastforce
  with init have ret: "0 \<le> ret" by (simp add: bc_initial_def NET_Q_DEPTH_def)
  have v: "bc_ready view r1" "rv_outstanding (view r1) = {#}" "rv_submitted (view r1) = rv_submitted (view r)"
    using uring_lawsD(1) [OF laws(1), unfolded init_law_def, rule_format, OF i ret]
    by (simp_all add: bc_ready_def rv_submitted_def)
  let ?q = "\<lparr>q_type = Read, q_buf = buf r1, q_fd = inp, q_bytes = 0\<rparr>"
  obtain x r2 where r2: "submit_read ur ?q r1 = (x, r2)" by fastforce
  have "bc_ring st = r2" using init i r2 by (cases x) (auto simp: bc_initial_def NET_Q_DEPTH_def start_read_def)
  moreover have "hands_over view [read_sqe ?q] r1 r2" by (rule submit_read_hands [OF laws v(1) r2])
  ultimately show ?thesis using v by (auto simp: sent_inv_def hands_over_def own_requests)
qed

lemma sent_turn:
  assumes laws: "uring_laws ur view" "submits_all ur view"
    and inv: "sent_inv ur view base st" and turn: "bc_turn ur buf inp st st'"
  shows "sent_inv ur view base st'"
  using turn
proof (cases rule: bc_turn.cases)
  case (turn c r)
  let ?D = "rv_outstanding (view (bc_ring st))" and ?st = "st\<lparr>bc_ring := ur_cqe_seen ur c r\<rparr>"
  note w = uring_lawsD(5) [OF laws(1), unfolded wait_law_def, rule_format, OF turn(1)]
  then have c: "cq_data c \<in># ?D" "view (ur_cqe_seen ur c r) = view_consume {#cq_data c#} (view (bc_ring st))"
    by auto
  from inv obtain es where es: "rv_submitted (view (bc_ring st)) = base @ es" "?D \<subseteq># mset (map sq_data es)"
    "\<forall>e \<in> set es. own_request e \<or> again_request e \<and> \<not> never_again ur" by (auto simp: sent_inv_def)
  have "bc_ready view (bc_ring ?st)" using c(2) inv by (simp add: sent_inv_def bc_ready_def)
  moreover have "cq_data c \<in> sq_data ` set es" using c(1) es(2) by (metis mset_subset_eqD set_image_mset set_mset_mset mset_map)
  then have "q_type (cq_data c) = Read \<or> q_type (cq_data c) = Write"
    using es(3) by (auto simp: own_request_def again_request_def)
  ultimately obtain fs where fs: "hands_over view fs (bc_ring ?st) (bc_ring st')"
    "\<forall>e \<in> set fs. own_request e \<or> again_request e \<and> cq_res c = - EAGAIN"
    by (rule on_completion_hands [OF laws _ _ turn(2)])
  have "\<not> never_again ur" if "cq_res c = - EAGAIN"
    using turn(1) that unfolding never_again_def by (metis fst_conv)
  moreover have "?D - {#cq_data c#} \<subseteq># mset (map sq_data es)" using es(2) by (meson diff_subset_eq_self subset_mset.trans)
  ultimately show ?thesis
    using fs es c(2) by (auto simp: sent_inv_def hands_over_def intro!: exI [of _ "es @ fs"] mset_subset_eq_mono_add)
qed

lemma sent_system:
  assumes "uring_laws ur view" "submits_all ur view"
  shows "invariant_system (bc_initial ur buf inp outs r) (bc_turn ur buf inp) (sent_inv ur view (rv_submitted (view r)))"
  by unfold_locales (rule sent_initial [OF assms], assumption, rule sent_turn [OF assms])

text \<open>
  C17: the bookkeeping of the event loop, however the kernel orders and answers the requests.
  In every state it reaches \<open>writes_pending\<close> is the number of requests in flight that carry
  the tag \<open>Write\<close>; at most one carries the tag \<open>Read\<close>, and none together with one tagged
  \<open>Write\<close>; nothing is in flight only when no client is left. Every request it has submitted is
  the operation its tag says, except a write answered \<open>EAGAIN\<close>, which is submitted again as a
  read with its tag kept. So as long as no request is answered \<open>EAGAIN\<close> the tags are the
  operations and no read is in flight together with a write.
\<close>

theorem event_loop_invariant:
  assumes "uring_laws ur view" "submits_all ur view"
    and "bc_initial ur buf inp outs r st0" "(bc_turn ur buf inp)\<^sup>*\<^sup>* st0 st"
  defines "D \<equiv> rv_outstanding (view (bc_ring st))"
  defines "reads \<equiv> filter_mset (\<lambda>q. q_type q = Read) D" and "writes \<equiv> filter_mset (\<lambda>q. q_type q = Write) D"
  shows "bc_writes_pending st = int (size writes) \<and> size reads \<le> 1 \<and> (reads = {#} \<or> writes = {#}) \<and>
    D = reads + writes \<and> (D = {#} \<longrightarrow> bc_outputs st = []) \<and>
    (\<exists>es. rv_submitted (view (bc_ring st)) = rv_submitted (view r) @ es \<and> D \<subseteq># mset (map sq_data es) \<and>
       (\<forall>e \<in> set es. own_request e \<or> again_request e \<and> \<not> never_again ur))"
proof -
  have "bc_inv view st"
    by (rule invariant_system.reachable_inv [OF bc_system [OF assms(1,2)] assms(3,4)])
  then consider q where "D = {#q#}" "q_type q = Read" "bc_writes_pending st = 0"
    | "\<forall>q \<in># D. q_type q = Write" "bc_writes_pending st = int (size D)" "D = {#} \<longrightarrow> bc_outputs st = []"
    by (auto simp: bc_inv_def Let_def D_def)
  then have tags: "bc_writes_pending st = int (size writes) \<and> size reads \<le> 1 \<and> (reads = {#} \<or> writes = {#}) \<and>
    D = reads + writes \<and> (D = {#} \<longrightarrow> bc_outputs st = [])"
  proof cases
    case 1
    then show ?thesis by (simp add: reads_def writes_def)
  next
    case 2
    have w: "(q_type q = Write) = True" "(q_type q = Read) = False" if "q \<in># D" for q
      using 2(1) that by auto
    have "writes = filter_mset (\<lambda>q. True) D"
      unfolding writes_def by (rule filter_mset_cong [OF refl w(1)])
    moreover have "reads = filter_mset (\<lambda>q. False) D"
      unfolding reads_def by (rule filter_mset_cong [OF refl w(2)])
    ultimately have "writes = D" "reads = {#}" by simp_all
    with 2 show ?thesis by simp
  qed
  have "sent_inv ur view (rv_submitted (view r)) st"
    by (rule invariant_system.reachable_inv [OF sent_system [OF assms(1,2)] assms(3,4)])
  with tags show ?thesis by (simp add: sent_inv_def D_def)
qed

definition bc_demo :: "queued sim bc_state" where
  "bc_demo = \<lparr>bc_ring = \<lparr>sim_entries = 64, sim_pending = [],
       sim_batches = [[read_sqe \<lparr>q_type = Read, q_buf = 0, q_fd = 3, q_bytes = 0\<rparr>]], sim_drained = [True],
       sim_done = [read_sqe \<lparr>q_type = Read, q_buf = 0, q_fd = 3, q_bytes = 0\<rparr>]\<rparr>,
     bc_outputs = [5, 6], bc_writes_pending = 0\<rparr>"

theorem event_loop_invariant_witness:
  "\<exists>st. (bc_turn (sim_uring (\<lambda>e. 10)) (\<lambda>_. 0) 3)\<^sup>*\<^sup>* bc_demo st \<and> bc_writes_pending st = 2 \<and>
     size (filter_mset (\<lambda>q. q_type q = Write) (rv_outstanding (sim_view (bc_ring st)))) = 2 \<and>
     (\<forall>e \<in> set (rv_submitted (sim_view (bc_ring st))). own_request e)"
proof -
  let ?ur = "sim_uring (\<lambda>e :: queued sqe. 10)" and ?buf = "\<lambda>_ :: queued sim. 0 :: ptr"
  have init: "bc_initial ?ur ?buf 3 [5, 6] sim_start bc_demo"
    by (simp add: bc_initial_def start_read_def submit_read_def push_sqe_def sim_uring_def sim_submit_def
        NET_Q_DEPTH_def sim_start_def bc_demo_def read_sqe_def)
  obtain c r st where w: "ur_wait_cqe ?ur (bc_ring bc_demo) = (Some (Inr c), r)"
    "on_completion ?ur ?buf 3 c (bc_demo\<lparr>bc_ring := ur_cqe_seen ?ur c r\<rparr>) = (Inr True, st)"
    and p: "bc_writes_pending st = 2"
    by (simp add: sim_uring_def bc_demo_def on_completion_def completion_def submit_write_def push_sqe_def
        sim_submit_def read_sqe_def write_sqe_def)
  from w have "bc_turn ?ur ?buf 3 bc_demo st" by (rule bc_turn.turn)
  then have t: "(bc_turn ?ur ?buf 3)\<^sup>*\<^sup>* bc_demo st" by (rule r_into_rtranclp)
  have "never_again ?ur"
    by (auto simp: never_again_def sim_uring_def completion_def errno_defs split: list.splits)
  moreover have "rv_submitted (sim_view (sim_start :: queued sim)) = []" by (simp add: rv_submitted_def sim_view_def sim_start_def)
  moreover note inv = event_loop_invariant [OF sim_uring_laws sim_uring_ok(2) init t]
  from inv have "bc_writes_pending st = int (size (filter_mset (\<lambda>q. q_type q = Write) (rv_outstanding (sim_view (bc_ring st)))))"
    by (rule conjunct1)
  moreover from inv obtain es where "rv_submitted (sim_view (bc_ring st)) = rv_submitted (sim_view sim_start) @ es"
    "\<forall>e \<in> set es. own_request e \<or> again_request e \<and> \<not> never_again ?ur" by blast
  ultimately show ?thesis using p t by (intro exI [of _ st]) simp
qed

text \<open>
  A completed read of \<open>n\<close> bytes is written to every client: with at most 64 clients, one
  submission of one \<open>n\<close>-byte write per client, and \<open>writes_pending\<close> counts them. With more
  than 64 the ring is full before all are prepared and the process exits.
\<close>

lemma chunk_fan_out:
  assumes "uring_laws ur view" "submits_all ur view" "bc_ready view (bc_ring st)"
    and "q_type (cq_data c) = Read" "0 < cq_res c"
  shows "if length (bc_outputs st) \<le> 64
    then \<exists>r'. on_completion ur buf inp c st =
        (Inr True, st\<lparr>bc_writes_pending := int (length (bc_outputs st)), bc_ring := r'\<rparr>) \<and>
      rv_batches (view r') = rv_batches (view (bc_ring st)) @
        [map (\<lambda>out. \<lparr>sq_op = Op_write out (q_buf (cq_data c))
                            (ucast (of_int (cq_res c) :: size_t)) 0,
                     sq_link = False,
                     sq_data = \<lparr>q_type = Write, q_buf = q_buf (cq_data c), q_fd = out, q_bytes = of_int (cq_res c)\<rparr>\<rparr>)
           (bc_outputs st)]
    else \<exists>st'. on_completion ur buf inp c st = (Inl (Exit 1), st')"
proof (cases "length (bc_outputs st) \<le> 64")
  case True
  from read_completion [OF assms True refl, of buf inp] True show ?thesis
    by (simp add: write_batch_def write_sqe_def) blast
next
  case False
  with read_completion_many [OF assms(1,3-5), of buf inp] show ?thesis by simp
qed

lemma chunk_fan_out_witness:
  "\<exists>st'. on_completion (sim_uring (\<lambda>e. 10)) (\<lambda>_. 0) 3
     (completion (\<lambda>e. 10) (read_sqe \<lparr>q_type = Read, q_buf = 0, q_fd = 3, q_bytes = 0\<rparr>))
     (bc_demo\<lparr>bc_ring := (bc_ring bc_demo)\<lparr>sim_done := []\<rparr>\<rparr>) = (Inr True, st') \<and> bc_writes_pending st' = 2"
proof -
  have r: "bc_ready sim_view (bc_ring (bc_demo\<lparr>bc_ring := (bc_ring bc_demo)\<lparr>sim_done := []\<rparr>\<rparr>))"
    by (simp add: bc_ready_def sim_view_def bc_demo_def)
  show ?thesis
    using chunk_fan_out [OF sim_uring_laws sim_uring_ok(2) r,
        of "completion (\<lambda>e. 10) (read_sqe \<lparr>q_type = Read, q_buf = 0, q_fd = 3, q_bytes = 0\<rparr>)"
          "\<lambda>e. 10" "\<lambda>_. 0" 3]
    by (auto simp: read_sqe_def bc_demo_def)
qed

text \<open>
  C37: the loop hangs when its last client dies. If the only request in flight is a write to
  the only client left and it fails, no new read is started and the loop waits for ever for
  a completion that cannot come.
\<close>

theorem last_client_hangs:
  assumes laws: "uring_laws ur view"
    and blocks: "\<And>s. rv_outstanding (view s) = {#} \<Longrightarrow> fst (ur_wait_cqe ur s) = None"
    and only: "rv_outstanding (view (bc_ring st)) = {#q#}" "q_type q = Write"
      "set (bc_outputs st) \<subseteq> {q_fd q}" "bc_writes_pending st = 1"
    and fails: "ur_wait_cqe ur (bc_ring st) = (Some (Inr c), r)" "cq_res c < 0" "cq_res c \<noteq> - EAGAIN"
  shows "\<exists>st'. event_loop ur buf inp st = Some (Inl Blocks, st') \<and> bc_outputs st' = []"
proof -
  note w = uring_lawsD(5) [OF laws, unfolded wait_law_def, rule_format, OF fails(1)]
  then have "cq_data c = q" using only(1) by auto
  then have "view (ur_cqe_seen ur c r) = view_consume {#q#} (view (bc_ring st))" using w by auto
  then have "rv_outstanding (view (ur_cqe_seen ur c r)) = {#}" using only(1) by simp
  from blocks [OF this] obtain r' where r': "ur_wait_cqe ur (ur_cqe_seen ur c r) = (None, r')"
    by (metis prod.collapse)
  have none: "filter (\<lambda>fd. fd \<noteq> q_fd q) (bc_outputs st) = []" using only(3) by (auto simp: filter_empty_conv)
  let ?st = "st\<lparr>bc_ring := ur_cqe_seen ur c r, bc_outputs := [], bc_writes_pending := 0\<rparr>"
  have "on_completion ur buf inp c (st\<lparr>bc_ring := ur_cqe_seen ur c r\<rparr>) = (Inr True, ?st)"
    using fails(2,3) only(2,4) \<open>cq_data c = q\<close> none by (simp add: on_completion_def Let_def)
  then have "event_loop ur buf inp st = event_loop ur buf inp ?st"
    using fails(1) by (subst event_loop.simps) simp
  also have "event_loop ur buf inp ?st = Some (Inl Blocks, ?st\<lparr>bc_ring := r'\<rparr>)"
    using r' by (subst event_loop.simps) simp
  finally show ?thesis by simp
qed

theorem last_client_hangs_witness:
  "\<exists>st'. event_loop (sim_uring (\<lambda>e. -32)) (\<lambda>_. 0) 3
     \<lparr>bc_ring = sim_start\<lparr>sim_done := [write_sqe \<lparr>q_type = Write, q_buf = 0, q_fd = 5, q_bytes = 10\<rparr>]\<rparr>,
      bc_outputs = [5], bc_writes_pending = 1\<rparr> = Some (Inl Blocks, st') \<and> bc_outputs st' = []"
  by (rule last_client_hangs [OF sim_uring_laws, where q = "\<lparr>q_type = Write, q_buf = 0, q_fd = 5, q_bytes = 10\<rparr>"
        and c = "\<lparr>cq_res = -32, cq_data = \<lparr>q_type = Write, q_buf = 0, q_fd = 5, q_bytes = 10\<rparr>\<rparr>"
        and r = "sim_start\<lparr>sim_done := [write_sqe \<lparr>q_type = Write, q_buf = 0, q_fd = 5, q_bytes = 10\<rparr>]\<rparr>"])
     (simp_all add: sim_uring_def sim_view_def sim_start_def write_sqe_def completion_def errno_defs
        split: list.splits)

text \<open>
  A write that would block is retried as a read. When a write to a client answers
  \<open>EAGAIN\<close>, what the loop submits for it is a read from that client's descriptor; the chunk
  is not written again, and the loop still counts a write in flight.
\<close>

lemma again_reads_from_client:
  assumes "uring_laws ur view" "submits_all ur view" "bc_ready view (bc_ring st)"
    and "q_type (cq_data c) = Write" "cq_res c = - EAGAIN"
  shows "\<exists>r'. on_completion ur buf inp c st = (Inr True, st\<lparr>bc_ring := r'\<rparr>) \<and>
    rv_batches (view r') = rv_batches (view (bc_ring st)) @
      [[\<lparr>sq_op = Op_read (q_fd (cq_data c)) (q_buf (cq_data c)) CHUNK 0, sq_link = False, sq_data = cq_data c\<rparr>]]"
proof -
  from submit_read_ok [OF assms(1-3), of "cq_data c"] obtain r' where
    "submit_read ur (cq_data c) (bc_ring st) = (Inr (), r')"
    "rv_batches (view r') = rv_batches (view (bc_ring st)) @ [[read_sqe (cq_data c)]]" by blast
  with assms(5) show ?thesis
    by (intro exI [of _ r']) (simp add: on_completion_def read_sqe_def errno_defs Let_def)
qed

lemma again_reads_from_client_witness:
  "\<exists>r'. on_completion (sim_uring (\<lambda>e. 10)) (\<lambda>_. 0) 3
      \<lparr>cq_res = -11, cq_data = \<lparr>q_type = Write, q_buf = 0, q_fd = 5, q_bytes = 10\<rparr>\<rparr>
      (bc_demo\<lparr>bc_writes_pending := 1\<rparr>) = (Inr True, bc_demo\<lparr>bc_writes_pending := 1, bc_ring := r'\<rparr>) \<and>
    map (map sq_op) (sim_batches r') = [[Op_read 3 0 4096 0], [Op_read 5 0 4096 0]]"
proof -
  have r: "bc_ready sim_view (bc_ring (bc_demo\<lparr>bc_writes_pending := 1\<rparr>))"
    by (simp add: bc_ready_def sim_view_def bc_demo_def)
  show ?thesis
    using again_reads_from_client [OF sim_uring_laws sim_uring_ok(2) r,
        of "\<lparr>cq_res = -11, cq_data = \<lparr>q_type = Write, q_buf = 0, q_fd = 5, q_bytes = 10\<rparr>\<rparr>" "\<lambda>e. 10" "\<lambda>_. 0" 3]
    by (auto simp: errno_defs sim_view_def bc_demo_def read_sqe_def CHUNK_def)
qed

end
