(* ===== verification/Stream_Kernel.thy ===== *)
theory Stream_Kernel
  imports Uring
begin

text \<open>
  What the kernel does with the reads and writes of a ring whose descriptors are streams
  (pipes, sockets), and what it answers. \<open>answers\<close> is the documented meaning of a result:
  a negative one is an error and nothing was moved, any other is the number of bytes moved,
  at most as many as asked for. \<open>net_step\<close> is one request carried out, of any of those
  submitted; \<open>net_laws\<close> couples it with the calls of a ring: a request is carried out at some
  time after its submission, and a completion reports a request that was carried out and what
  was answered. Which answers occur is a parameter \<open>ok\<close>, so that a property can say which
  of them it excludes. \<open>net_uring\<close> is a concrete ring on which the laws are proved.
\<close>

section \<open>Streams\<close>

text \<open>
  Of each descriptor the bytes it has still to yield, and those written to it so far; and
  the contents of buffers by address.
\<close>

record net_world =
  nw_src :: "c_int \<Rightarrow> byte list"
  nw_sink :: "c_int \<Rightarrow> byte list"
  nw_mem :: "ptr \<Rightarrow> byte list"

definition stream_read :: "c_int \<Rightarrow> ptr \<Rightarrow> nat \<Rightarrow> net_world \<Rightarrow> net_world" where
  "stream_read fd p k w =
     w\<lparr>nw_src := (nw_src w)(fd := drop k (nw_src w fd)),
       nw_mem := (nw_mem w)(p := take k (nw_src w fd) @ drop k (nw_mem w p))\<rparr>"

definition stream_write :: "c_int \<Rightarrow> ptr \<Rightarrow> nat \<Rightarrow> net_world \<Rightarrow> net_world" where
  "stream_write fd p k w = w\<lparr>nw_sink := (nw_sink w)(fd := nw_sink w fd @ take k (nw_mem w p))\<rparr>"

lemma stream_simps [simp]:
  "nw_src (stream_read fd p k w) = (nw_src w)(fd := drop k (nw_src w fd))"
  "nw_mem (stream_read fd p k w) = (nw_mem w)(p := take k (nw_src w fd) @ drop k (nw_mem w p))"
  "nw_sink (stream_read fd p k w) = nw_sink w"
  "nw_sink (stream_write fd p k w) = (nw_sink w)(fd := nw_sink w fd @ take k (nw_mem w p))"
  "nw_src (stream_write fd p k w) = nw_src w" "nw_mem (stream_write fd p k w) = nw_mem w"
  by (simp_all add: stream_read_def stream_write_def)

text \<open>
  A read of a stream answers 0 only at its end. The offset is ignored, as a stream has none;
  of the other operations nothing is said.
\<close>

fun answers :: "uring_op \<Rightarrow> int \<Rightarrow> net_world \<Rightarrow> net_world \<Rightarrow> bool" where
  "answers (Op_read fd p n off) res w w' \<longleftrightarrow>
     (if res < 0 then w' = w
      else nat res \<le> unat n \<and> nat res \<le> length (nw_src w fd) \<and>
        (res = 0 \<longrightarrow> n = 0 \<or> nw_src w fd = []) \<and> w' = stream_read fd p (nat res) w)"
| "answers (Op_write fd p n off) res w w' \<longleftrightarrow>
     (if res < 0 then w' = w else nat res \<le> unat n \<and> w' = stream_write fd p (nat res) w)"
| "answers op res w w' \<longleftrightarrow> True"

section \<open>Requests carried out\<close>

record 'd net_view =
  nv_waiting :: "'d sqe multiset"  \<comment> \<open>submitted and not yet carried out\<close>
  nv_done :: "('d sqe \<times> int) multiset"  \<comment> \<open>carried out, the completion not consumed\<close>
  nv_world :: net_world

definition net_submit :: "'d sqe list \<Rightarrow> 'd net_view \<Rightarrow> 'd net_view" where
  "net_submit es v = v\<lparr>nv_waiting := nv_waiting v + mset es\<rparr>"

definition net_seen :: "'d sqe \<times> int \<Rightarrow> 'd net_view \<Rightarrow> 'd net_view" where
  "net_seen x v = v\<lparr>nv_done := nv_done v - {#x#}\<rparr>"

lemma net_view_simps [simp]:
  "nv_waiting (net_submit es v) = nv_waiting v + mset es" "nv_done (net_submit es v) = nv_done v"
  "nv_world (net_submit es v) = nv_world v"
  "nv_waiting (net_seen x v) = nv_waiting v" "nv_done (net_seen x v) = nv_done v - {#x#}"
  "nv_world (net_seen x v) = nv_world v"
  by (simp_all add: net_submit_def net_seen_def)

inductive net_step :: "(uring_op \<Rightarrow> int \<Rightarrow> bool) \<Rightarrow> 'd net_view \<Rightarrow> 'd net_view \<Rightarrow> bool" for ok where
  carry_out: "e \<in># nv_waiting v \<Longrightarrow> ok (sq_op e) res \<Longrightarrow> answers (sq_op e) res (nv_world v) w \<Longrightarrow>
    net_step ok v (v\<lparr>nv_waiting := nv_waiting v - {#e#}, nv_done := add_mset (e, res) (nv_done v), nv_world := w\<rparr>)"

inductive_cases net_stepE: "net_step ok v v'"

definition net_laws :: "(uring_op \<Rightarrow> int \<Rightarrow> bool) \<Rightarrow> ('d, 's) uring \<Rightarrow> ('s \<Rightarrow> 'd ring_view) \<Rightarrow>
    ('s \<Rightarrow> 'd net_view) \<Rightarrow> bool" where
  "net_laws ok ur view net \<longleftrightarrow>
     (\<forall>n s r s'. ur_init ur n s = (r, s') \<longrightarrow> 0 \<le> r \<longrightarrow>
        net s' = \<lparr>nv_waiting = {#}, nv_done = {#}, nv_world = nv_world (net s)\<rparr>) \<and>
     (\<forall>s b s'. ur_get_sqe ur s = (b, s') \<longrightarrow> net s' = net s) \<and>
     (\<forall>e s. net (ur_prep ur e s) = net s) \<and>
     (\<forall>s r s'. ur_submit ur s = (r, s') \<longrightarrow>
        (net_step ok)\<^sup>*\<^sup>* (net_submit (take (nat r) (rv_pending (view s))) (net s)) (net s')) \<and>
     (\<forall>s x s'. ur_wait_cqe ur s = (x, s') \<longrightarrow> (net_step ok)\<^sup>*\<^sup>* (net s) (net s') \<and>
        (\<forall>c. x = Some (Inr c) \<longrightarrow> (\<exists>e. (e, cq_res c) \<in># nv_done (net s') \<and> sq_data e = cq_data c \<and>
           net (ur_cqe_seen ur c s') = net_seen (e, cq_res c) (net s')))) \<and>
     (\<forall>s. nv_waiting (net s) = {#} \<longrightarrow> nv_world (net (ur_exit ur s)) = nv_world (net s)) \<and>
     (\<forall>s. rv_outstanding (view s) =
        image_mset sq_data (nv_waiting (net s)) + image_mset (\<lambda>x. sq_data (fst x)) (nv_done (net s)))"

lemma net_lawsD:
  assumes "net_laws ok ur view net"
  shows "ur_init ur n s = (r, s') \<Longrightarrow> 0 \<le> r \<Longrightarrow>
      net s' = \<lparr>nv_waiting = {#}, nv_done = {#}, nv_world = nv_world (net s)\<rparr>"
    and "ur_get_sqe ur s = (b, s') \<Longrightarrow> net s' = net s"
    and "net (ur_prep ur e s) = net s"
    and "ur_submit ur s = (r, s') \<Longrightarrow>
      (net_step ok)\<^sup>*\<^sup>* (net_submit (take (nat r) (rv_pending (view s))) (net s)) (net s')"
    and "ur_wait_cqe ur s = (x, s') \<Longrightarrow> (net_step ok)\<^sup>*\<^sup>* (net s) (net s')"
    and "ur_wait_cqe ur s = (Some (Inr c), s') \<Longrightarrow>
      \<exists>e. (e, cq_res c) \<in># nv_done (net s') \<and> sq_data e = cq_data c \<and>
        net (ur_cqe_seen ur c s') = net_seen (e, cq_res c) (net s')"
    and "nv_waiting (net s) = {#} \<Longrightarrow> nv_world (net (ur_exit ur s)) = nv_world (net s)"
    and "rv_outstanding (view s) =
      image_mset sq_data (nv_waiting (net s)) + image_mset (\<lambda>x. sq_data (fst x)) (nv_done (net s))"
proof -
  note L = assms [unfolded net_laws_def]
  note L2 = L [THEN conjunct2] note L3 = L2 [THEN conjunct2] note L4 = L3 [THEN conjunct2]
  note L5 = L4 [THEN conjunct2] note L6 = L5 [THEN conjunct2] note L7 = L6 [THEN conjunct2]
  show "ur_init ur n s = (r, s') \<Longrightarrow> 0 \<le> r \<Longrightarrow>
      net s' = \<lparr>nv_waiting = {#}, nv_done = {#}, nv_world = nv_world (net s)\<rparr>"
    using L [THEN conjunct1] by blast
  show "ur_get_sqe ur s = (b, s') \<Longrightarrow> net s' = net s" using L2 [THEN conjunct1] by blast
  show "net (ur_prep ur e s) = net s" using L3 [THEN conjunct1] by blast
  show "ur_submit ur s = (r, s') \<Longrightarrow>
      (net_step ok)\<^sup>*\<^sup>* (net_submit (take (nat r) (rv_pending (view s))) (net s)) (net s')"
    using L4 [THEN conjunct1] by blast
  show "ur_wait_cqe ur s = (x, s') \<Longrightarrow> (net_step ok)\<^sup>*\<^sup>* (net s) (net s')"
    using L5 [THEN conjunct1] by blast
  show "ur_wait_cqe ur s = (Some (Inr c), s') \<Longrightarrow>
      \<exists>e. (e, cq_res c) \<in># nv_done (net s') \<and> sq_data e = cq_data c \<and>
        net (ur_cqe_seen ur c s') = net_seen (e, cq_res c) (net s')"
    using L5 [THEN conjunct1] by blast
  show "nv_waiting (net s) = {#} \<Longrightarrow> nv_world (net (ur_exit ur s)) = nv_world (net s)"
    using L6 [THEN conjunct1] by blast
  show "rv_outstanding (view s) =
      image_mset sq_data (nv_waiting (net s)) + image_mset (\<lambda>x. sq_data (fst x)) (nv_done (net s))"
    using L7 by blast
qed

lemma push_sqe_net:
  assumes "net_laws ok ur view net" "push_sqe ur e s = (b, s')"
  shows "net s' = net s"
  using assms(2) net_lawsD(2,3) [OF assms(1)] by (auto simp: push_sqe_def split: prod.splits bool.splits)

text \<open>What every step keeps, a run keeps.\<close>

lemma net_run_inv:
  assumes "(net_step ok)\<^sup>*\<^sup>* v v'" "P v" "\<And>v v'. net_step ok v v' \<Longrightarrow> P v \<Longrightarrow> P v'"
  shows "P v'"
  using assms(1,2) by (induction rule: rtranclp_induct) (blast intro: assms(3))+


section \<open>A concrete ring\<close>

text \<open>
  Requests are carried out when the loop waits for one: \<open>pick\<close> says which of those waiting
  is next, \<open>res\<close> what it answers.
\<close>

record 'd net_ring =
  nr_entries :: nat
  nr_pending :: "'d sqe list"
  nr_batches :: "'d sqe list list"
  nr_drained :: "bool list"
  nr_waiting :: "'d sqe list"
  nr_done :: "('d sqe \<times> int) list"
  nr_world :: net_world

fun net_effect :: "uring_op \<Rightarrow> int \<Rightarrow> net_world \<Rightarrow> net_world" where
  "net_effect (Op_read fd p n off) res w = (if res < 0 then w else stream_read fd p (nat res) w)"
| "net_effect (Op_write fd p n off) res w = (if res < 0 then w else stream_write fd p (nat res) w)"
| "net_effect op res w = w"

definition run_one :: "('d sqe list \<Rightarrow> nat) \<Rightarrow> ('d sqe \<Rightarrow> net_world \<Rightarrow> int) \<Rightarrow> 'd net_ring \<Rightarrow> 'd net_ring" where
  "run_one pick res s =
     (case nr_waiting s of
        [] \<Rightarrow> s
      | es \<Rightarrow>
          (let i = pick es mod length es; e = es ! i; k = res e (nr_world s)
           in s\<lparr>nr_waiting := take i es @ drop (Suc i) es, nr_done := nr_done s @ [(e, k)],
                nr_world := net_effect (sq_op e) k (nr_world s)\<rparr>))"

definition net_sim_submit :: "'d net_ring \<Rightarrow> int \<times> 'd net_ring" where
  "net_sim_submit s = (int (length (nr_pending s)),
     s\<lparr>nr_pending := [], nr_batches := nr_batches s @ [nr_pending s],
       nr_drained := nr_drained s @ [nr_waiting s = [] \<and> nr_done s = []],
       nr_waiting := nr_waiting s @ nr_pending s\<rparr>)"

definition net_uring :: "('d sqe list \<Rightarrow> nat) \<Rightarrow> ('d sqe \<Rightarrow> net_world \<Rightarrow> int) \<Rightarrow> ('d, 'd net_ring) uring" where
  "net_uring pick res =
     \<lparr>ur_init = (\<lambda>n s. (0, s\<lparr>nr_entries := n, nr_pending := [], nr_waiting := [], nr_done := []\<rparr>)),
      ur_get_sqe = (\<lambda>s. (length (nr_pending s) < nr_entries s, s)),
      ur_prep = (\<lambda>e s. s\<lparr>nr_pending := nr_pending s @ [e]\<rparr>),
      ur_submit = net_sim_submit,
      ur_submit_and_wait = (\<lambda>n s. (case net_sim_submit s of
         (r, s1) \<Rightarrow> (r, (run_one pick res ^^ length (nr_waiting s1)) s1))),
      ur_wait_cqe = (\<lambda>s. (let s1 = (if nr_done s = [] then run_one pick res s else s)
         in (case nr_done s1 of [] \<Rightarrow> None | x # _ \<Rightarrow> Some (Inr (done_cqe x)), s1))),
      ur_cqe_seen = (\<lambda>c s. s\<lparr>nr_done := tl (nr_done s)\<rparr>),
      ur_ready = (\<lambda>s. map done_cqe (nr_done s)),
      ur_cq_advance = (\<lambda>n s. s\<lparr>nr_done := drop n (nr_done s)\<rparr>),
      ur_exit = (\<lambda>s. s\<lparr>nr_pending := [], nr_waiting := [], nr_done := []\<rparr>)\<rparr>"

definition net_sim_view :: "'d net_ring \<Rightarrow> 'd ring_view" where
  "net_sim_view s = \<lparr>rv_pending = nr_pending s, rv_entries = nr_entries s,
     rv_batches = nr_batches s, rv_drained = nr_drained s,
     rv_outstanding = mset (map sq_data (nr_waiting s)) + mset (map (\<lambda>x. sq_data (fst x)) (nr_done s))\<rparr>"

definition net_sim_net :: "'d net_ring \<Rightarrow> 'd net_view" where
  "net_sim_net s = \<lparr>nv_waiting = mset (nr_waiting s), nv_done = mset (nr_done s), nv_world = nr_world s\<rparr>"

lemma mset_without_nth:
  assumes "i < length es"
  shows "mset (take i es @ drop (Suc i) es) = mset es - {#es ! i#}"
proof -
  have "mset es = mset (take i es @ es ! i # drop (Suc i) es)"
    by (simp only: id_take_nth_drop [OF assms, symmetric])
  then show ?thesis by simp
qed

lemma run_one_cases:
  obtains "nr_waiting s = []" "run_one pick res s = s"
  | e k where "e \<in> set (nr_waiting s)" "k = res e (nr_world s)"
    "mset (nr_waiting (run_one pick res s)) = mset (nr_waiting s) - {#e#}"
    "nr_done (run_one pick res s) = nr_done s @ [(e, k)]"
    "nr_world (run_one pick res s) = net_effect (sq_op e) k (nr_world s)"
    "Suc (length (nr_waiting (run_one pick res s))) = length (nr_waiting s)"
proof (cases "nr_waiting s")
  case Nil
  with that(1) show thesis by (simp add: run_one_def)
next
  case (Cons a es)
  let ?es = "nr_waiting s" and ?i = "pick (nr_waiting s) mod length (nr_waiting s)"
  have i: "?i < length ?es" using Cons by simp
  have r: "run_one pick res s =
      s\<lparr>nr_waiting := take ?i ?es @ drop (Suc ?i) ?es, nr_done := nr_done s @ [(?es ! ?i, res (?es ! ?i) (nr_world s))],
        nr_world := net_effect (sq_op (?es ! ?i)) (res (?es ! ?i) (nr_world s)) (nr_world s)\<rparr>"
    using Cons by (simp add: run_one_def Let_def)
  show thesis
    by (rule that(2) [of "?es ! ?i" "res (?es ! ?i) (nr_world s)"])
       (use i in \<open>simp_all add: r mset_without_nth del: mset_append\<close>)
qed

lemma run_one_fields [simp]:
  "nr_pending (run_one pick res s) = nr_pending s" "nr_entries (run_one pick res s) = nr_entries s"
  "nr_batches (run_one pick res s) = nr_batches s" "nr_drained (run_one pick res s) = nr_drained s"
  by (auto simp: run_one_def Let_def split: list.splits)

lemma run_one_view [simp]: "net_sim_view (run_one pick res s) = net_sim_view s"
proof (cases rule: run_one_cases [where s = s and pick = pick and res = res])
  case (2 e k)
  have "mset (nr_waiting s) = add_mset e (mset (nr_waiting (run_one pick res s)))" using 2(1,3) by simp
  then have "image_mset sq_data (mset (nr_waiting s)) =
      add_mset (sq_data e) (image_mset sq_data (mset (nr_waiting (run_one pick res s))))" by simp
  with 2(4) show ?thesis by (simp add: net_sim_view_def)
qed simp

lemma run_many_view [simp]: "net_sim_view ((run_one pick res ^^ n) s) = net_sim_view s"
  by (induction n) simp_all

lemma run_many_done:
  "length (nr_waiting s) = n \<Longrightarrow>
   nr_waiting ((run_one pick res ^^ n) s) = [] \<and> length (nr_done ((run_one pick res ^^ n) s)) = length (nr_done s) + n"
proof (induction n arbitrary: s)
  case (Suc n)
  then show ?case
    by (cases rule: run_one_cases [where s = s and pick = pick and res = res]) (simp_all add: funpow_Suc_right del: funpow.simps)
qed simp

lemma net_uring_laws: "uring_laws (net_uring pick res) net_sim_view"
proof -
  let ?ur = "net_uring pick res"
  have sub: "net_sim_view s' = view_submit (nat r) (net_sim_view s) \<and> nat r = length (nr_pending s) \<and> 0 \<le> r"
    if "net_sim_submit s = (r, s')" for s r and s' :: "'a net_ring"
    using that by (auto simp: net_sim_submit_def net_sim_view_def view_submit_def)
  have "init_law ?ur net_sim_view"
    by (simp add: init_law_def net_uring_def net_sim_view_def)
  moreover have "get_sqe_law ?ur net_sim_view"
    by (simp add: get_sqe_law_def net_uring_def net_sim_view_def view_push_def)
  moreover have "submit_law ?ur net_sim_view"
    using sub by (simp add: submit_law_def net_uring_def) (simp add: net_sim_view_def)
  moreover have "submit_and_wait_law ?ur net_sim_view"
    unfolding submit_and_wait_law_def
  proof (intro allI impI)
    fix n s r s' assume w: "ur_submit_and_wait ?ur n s = (r, s')"
    obtain s1 where s1: "net_sim_submit s = (r, s1)" "s' = (run_one pick res ^^ length (nr_waiting s1)) s1"
      using w by (auto simp: net_uring_def split: prod.splits)
    have v: "net_sim_view s' = net_sim_view s1" using s1(2) by simp
    have "nr_waiting s' = []" using run_many_done [OF refl, of s1 pick res] s1(2) by simp
    then have "size (rv_outstanding (net_sim_view s')) = length (nr_done s')" by (simp add: net_sim_view_def)
    then show "nat r \<le> length (rv_pending (net_sim_view s)) \<and> net_sim_view s' = view_submit (nat r) (net_sim_view s) \<and>
        (0 \<le> r \<longrightarrow> min n (size (rv_outstanding (net_sim_view s'))) \<le> length (ur_ready ?ur s'))"
      using sub [OF s1(1)] v by (simp add: net_uring_def) (simp add: net_sim_view_def)
  qed
  moreover have "wait_law ?ur net_sim_view"
    unfolding wait_law_def
  proof (intro allI impI)
    fix s r s' assume "ur_wait_cqe ?ur s = (r, s')"
    then have s': "s' = (if nr_done s = [] then run_one pick res s else s)"
      and r: "r = (case nr_done s' of [] \<Rightarrow> None | x # _ \<Rightarrow> Some (Inr (done_cqe x)))"
      by (auto simp: net_uring_def Let_def split: if_splits)
    have v: "net_sim_view s' = net_sim_view s" using s' by simp
    have empty: "nr_waiting s' = []" if "nr_done s' = []"
      using that s' by (cases rule: run_one_cases [where s = s and pick = pick and res = res]) (auto split: if_splits)
    have "r = None \<Longrightarrow> nr_done s' = []" using r by (cases "nr_done s'") simp_all
    with empty have "r = None \<longrightarrow> rv_outstanding (net_sim_view s') = {#}" by (simp add: net_sim_view_def)
    then have none: "r = None \<longrightarrow> rv_outstanding (net_sim_view s) = {#}" using v by simp
    have "cq_data c \<in># rv_outstanding (net_sim_view s') \<and>
        net_sim_view (ur_cqe_seen ?ur c s') = view_consume {#cq_data c#} (net_sim_view s')"
      if c: "r = Some (Inr c)" for c
    proof -
      from c r obtain y ys where "nr_done s' = y # ys" "c = done_cqe y" by (auto split: list.splits)
      then show ?thesis by (simp add: net_uring_def net_sim_view_def done_cqe_def view_consume_def)
    qed
    with v none show "net_sim_view s' = net_sim_view s \<and> (r = None \<longrightarrow> rv_outstanding (net_sim_view s) = {#}) \<and>
        (\<forall>c. r = Some (Inr c) \<longrightarrow> cq_data c \<in># rv_outstanding (net_sim_view s) \<and>
           net_sim_view (ur_cqe_seen ?ur c s') = view_consume {#cq_data c#} (net_sim_view s))"
      by simp
  qed
  moreover have "ready_law ?ur net_sim_view"
    unfolding ready_law_def
  proof (intro allI conjI)
    fix s n
    have c: "map cq_data (map done_cqe xs) = map (\<lambda>x. sq_data (fst x)) xs" for xs :: "('a sqe \<times> int) list"
      by (simp add: done_cqe_def)
    show "mset (map cq_data (ur_ready ?ur s)) \<subseteq># rv_outstanding (net_sim_view s)"
      unfolding net_uring_def by (simp only: uring.simps c) (simp add: net_sim_view_def)
    have "mset (map (\<lambda>x. sq_data (fst x)) (nr_done s)) =
        mset (map (\<lambda>x. sq_data (fst x)) (take n (nr_done s))) + mset (map (\<lambda>x. sq_data (fst x)) (drop n (nr_done s)))"
      by (metis append_take_drop_id map_append mset_append)
    then show "net_sim_view (ur_cq_advance ?ur n s) =
        view_consume (mset (map cq_data (take n (ur_ready ?ur s)))) (net_sim_view s)"
      unfolding net_uring_def by (simp only: uring.simps take_map c) (simp add: net_sim_view_def view_consume_def)
  qed
  moreover have "exit_law ?ur net_sim_view"
    by (simp add: exit_law_def net_uring_def net_sim_view_def)
  ultimately show ?thesis by (simp add: uring_laws_def)
qed

lemma net_uring_ok:
  "init_succeeds (net_uring pick res)" "submits_all (net_uring pick res) net_sim_view"
  "waits_succeed (net_uring pick res)"
  by (auto simp: init_succeeds_def submits_all_def waits_succeed_def net_uring_def net_sim_submit_def
      net_sim_view_def Let_def split: list.splits prod.splits)

lemma net_uring_net_laws:
  assumes "\<And>e w. ok (sq_op e) (res e w) \<and> answers (sq_op e) (res e w) w (net_effect (sq_op e) (res e w) w)"
  shows "net_laws ok (net_uring pick res) net_sim_view net_sim_net"
proof -
  let ?ur = "net_uring pick res"
  have step: "(net_step ok)\<^sup>*\<^sup>* (net_sim_net s) (net_sim_net (run_one pick res s))" for s
  proof (cases rule: run_one_cases [where s = s and pick = pick and res = res])
    case (2 e k)
    then have "e \<in># nv_waiting (net_sim_net s)" by (simp add: net_sim_net_def)
    from carry_out [where ok = ok, OF this, of k "net_effect (sq_op e) k (nr_world s)"] assms [of e "nr_world s"] 2
    have "net_step ok (net_sim_net s) (net_sim_net (run_one pick res s))"
      by (simp add: net_sim_net_def)
    then show ?thesis by (rule r_into_rtranclp)
  qed simp
  show ?thesis
    unfolding net_laws_def
  proof (intro conjI allI impI)
    fix s x s' assume w: "ur_wait_cqe ?ur s = (x, s')"
    then have s': "s' = (if nr_done s = [] then run_one pick res s else s)"
      and x: "x = (case nr_done s' of [] \<Rightarrow> None | x # _ \<Rightarrow> Some (Inr (done_cqe x)))"
      by (auto simp: net_uring_def Let_def split: if_splits)
    show "(net_step ok)\<^sup>*\<^sup>* (net_sim_net s) (net_sim_net s')" using s' step by simp
    fix c assume "x = Some (Inr c)"
    with x obtain y ys where "nr_done s' = y # ys" "c = done_cqe y" by (auto split: list.splits)
    then show "\<exists>e. (e, cq_res c) \<in># nv_done (net_sim_net s') \<and> sq_data e = cq_data c \<and>
        net_sim_net (ur_cqe_seen ?ur c s') = net_seen (e, cq_res c) (net_sim_net s')"
      by (intro exI [of _ "fst y"]) (simp add: net_uring_def net_sim_net_def done_cqe_def net_seen_def)
  qed (auto simp: net_uring_def net_sim_net_def net_sim_submit_def net_sim_view_def net_submit_def)
qed

text \<open>Reads that take all there is, up to the count, and writes that take everything.\<close>

fun full_answer :: "uring_op \<Rightarrow> net_world \<Rightarrow> int" where
  "full_answer (Op_read fd p n off) w = int (min (unat n) (length (nw_src w fd)))"
| "full_answer (Op_write fd p n off) w = int (unat n)"
| "full_answer op w = 0"

lemma full_answers: "answers op (full_answer op w) w (net_effect op (full_answer op w) w)"
proof (cases op)
  case (Op_read fd p n off)
  then show ?thesis by (cases "unat n = 0") (auto simp: min_def unat_eq_0)
qed auto

end
