(* ===== verification/Broadcaster_Run.thy ===== *)
theory Broadcaster_Run
  imports Broadcaster Stream_Kernel
begin

text \<open>
  The event loop of \<open>source/Network/broadcaster.hpp\<close> on a kernel that carries its requests
  out: what the clients have received in every state of a run, and at its end. The input and
  the clients are streams, as the file means them to be (its \<open>EAGAIN\<close> is ``pipe is
  currently empty'').
\<close>

section \<open>The states of a session\<close>

text \<open>
  What a session is about: the input, its bytes, what each descriptor had received before
  and the clients it began with.
\<close>

record session =
  ss_inp :: c_int
  ss_bytes :: "byte list"
  ss_sink :: "c_int \<Rightarrow> byte list"
  ss_outs :: "c_int list"

text \<open>
  Answers without a short write and without a write that would block; and those where the
  input, too, yields something or ends.
\<close>

definition writes_whole :: "uring_op \<Rightarrow> int \<Rightarrow> bool" where
  "writes_whole op res \<longleftrightarrow>
     (case op of Op_write fd p n off \<Rightarrow> res = int (unat n) \<or> res < 0 \<and> res \<noteq> - EAGAIN | _ \<Rightarrow> True)"

definition reads_succeed :: "uring_op \<Rightarrow> int \<Rightarrow> bool" where
  "reads_succeed op res \<longleftrightarrow> (case op of Op_read fd p n off \<Rightarrow> 0 \<le> res | _ \<Rightarrow> True)"

text \<open>A client that may fail: one of whose writes may answer with an error.\<close>

definition mortal :: "(uring_op \<Rightarrow> int \<Rightarrow> bool) \<Rightarrow> c_int \<Rightarrow> bool" where
  "mortal ok fd \<longleftrightarrow> (\<exists>p n off res. res < 0 \<and> ok (Op_write fd p n off) res)"

definition has_got :: "session \<Rightarrow> nat \<Rightarrow> net_world \<Rightarrow> c_int \<Rightarrow> bool" where
  "has_got ss k w fd \<longleftrightarrow> nw_sink w fd = ss_sink ss fd @ take k (ss_bytes ss)"

text \<open>The clients that are left, and those that are not.\<close>

definition clients :: "(uring_op \<Rightarrow> int \<Rightarrow> bool) \<Rightarrow> session \<Rightarrow> c_int list \<Rightarrow> net_world \<Rightarrow> bool" where
  "clients ok ss outs w \<longleftrightarrow> distinct outs \<and> set outs \<subseteq> set (ss_outs ss) \<and>
     (\<forall>fd \<in> set (ss_outs ss). \<exists>k. has_got ss k w fd) \<and>
     (\<forall>fd \<in> set (ss_outs ss) - set outs. mortal ok fd) \<and>
     (\<forall>fd. fd \<notin> set (ss_outs ss) \<longrightarrow> nw_sink w fd = ss_sink ss fd)"

abbreviation read_of :: "session \<Rightarrow> ptr \<Rightarrow> queued sqe" where
  "read_of ss b \<equiv> read_sqe \<lparr>q_type = Read, q_buf = b, q_fd = ss_inp ss, q_bytes = 0\<rparr>"

abbreviation write_to :: "ptr \<Rightarrow> size_t \<Rightarrow> c_int \<Rightarrow> queued sqe" where
  "write_to p n fd \<equiv> write_sqe \<lparr>q_type = Write, q_buf = p, q_fd = fd, q_bytes = n\<rparr>"

text \<open>
  A chunk of \<open>k\<close> bytes from position \<open>T\<close> on is in a buffer, and the input has advanced past it.
\<close>

definition chunk_in :: "session \<Rightarrow> nat \<Rightarrow> nat \<Rightarrow> ptr \<Rightarrow> net_world \<Rightarrow> bool" where
  "chunk_in ss T k p w \<longleftrightarrow> T + k \<le> length (ss_bytes ss) \<and> k \<le> 4096 \<and>
     nw_src w (ss_inp ss) = drop (T + k) (ss_bytes ss) \<and> take k (nw_mem w p) = take k (drop T (ss_bytes ss))"

text \<open>
  A read is in flight and every client has the first \<open>T\<close> bytes: the read is waiting, or it
  was carried out.
\<close>

definition read_waits :: "session \<Rightarrow> nat \<Rightarrow> ptr \<Rightarrow> queued net_view \<Rightarrow> bool" where
  "read_waits ss T b v \<longleftrightarrow> nv_waiting v = {#read_of ss b#} \<and> nv_done v = {#} \<and>
     nw_src (nv_world v) (ss_inp ss) = drop T (ss_bytes ss)"

definition read_done :: "(uring_op \<Rightarrow> int \<Rightarrow> bool) \<Rightarrow> session \<Rightarrow> nat \<Rightarrow> ptr \<Rightarrow> int \<Rightarrow> queued net_view \<Rightarrow> bool" where
  "read_done ok ss T b res v \<longleftrightarrow> nv_waiting v = {#} \<and> nv_done v = {#(read_of ss b, res)#} \<and>
     ok (Op_read (ss_inp ss) b CHUNK 0) res \<and>
     (if res < 0 then nw_src (nv_world v) (ss_inp ss) = drop T (ss_bytes ss)
      else chunk_in ss T (nat res) b (nv_world v) \<and> (res = 0 \<longrightarrow> T = length (ss_bytes ss)))"

definition reading :: "(uring_op \<Rightarrow> int \<Rightarrow> bool) \<Rightarrow> session \<Rightarrow> nat \<Rightarrow> c_int list \<Rightarrow> queued net_view \<Rightarrow> bool" where
  "reading ok ss T outs v \<longleftrightarrow> T \<le> length (ss_bytes ss) \<and> clients ok ss outs (nv_world v) \<and>
     (\<forall>fd \<in> set outs. has_got ss T (nv_world v) fd) \<and>
     (\<exists>b. read_waits ss T b v \<or> (\<exists>res. read_done ok ss T b res v))"

text \<open>
  The chunk is being written: the clients \<open>W\<close> have still to get it, \<open>D\<close> are the answers of the
  others the loop has not seen.
\<close>

definition writing :: "(uring_op \<Rightarrow> int \<Rightarrow> bool) \<Rightarrow> session \<Rightarrow> nat \<Rightarrow> size_t \<Rightarrow> ptr \<Rightarrow> c_int multiset \<Rightarrow>
    (c_int \<times> int) multiset \<Rightarrow> c_int list \<Rightarrow> queued net_view \<Rightarrow> bool" where
  "writing ok ss T n p W D outs v \<longleftrightarrow> 0 < n \<and> clients ok ss outs (nv_world v) \<and>
     chunk_in ss T (unat n) p (nv_world v) \<and>
     nv_waiting v = image_mset (write_to p n) W \<and>
     nv_done v = image_mset (\<lambda>x. (write_to p n (fst x), snd x)) D \<and>
     W + image_mset fst D \<subseteq># mset outs \<and>
     (\<forall>x \<in># D. snd x = int (unat n) \<or> snd x < 0 \<and> snd x \<noteq> - EAGAIN \<and> mortal ok (fst x)) \<and>
     (\<forall>fd \<in> set outs. has_got ss T (nv_world v) fd \<and> (fd \<in># W \<or> (\<exists>res < 0. (fd, res) \<in># D)) \<or>
        has_got ss (T + unat n) (nv_world v) fd \<and> fd \<notin># W)"

section \<open>The kernel between two turns\<close>

lemma unat_CHUNK: "unat CHUNK = 4096"
  by (simp add: CHUNK_def)

lemma clients_world:
  "clients ok ss outs w \<Longrightarrow> nw_sink w' = nw_sink w \<Longrightarrow> clients ok ss outs w'"
  by (simp add: clients_def has_got_def)

lemma has_got_world: "nw_sink w' = nw_sink w \<Longrightarrow> has_got ss k w' fd = has_got ss k w fd"
  by (simp add: has_got_def)

lemma read_waits_step:
  assumes "net_step ok v v'" "read_waits ss T b v" "T \<le> length (ss_bytes ss)"
  shows "\<exists>res. read_done ok ss T b res v' \<and> nw_sink (nv_world v') = nw_sink (nv_world v)"
  using assms(1)
proof (cases rule: net_step.cases)
  case (carry_out e res w)
  with assms(2) have e: "e = read_of ss b" by (simp add: read_waits_def)
  let ?s = "nw_src (nv_world v) (ss_inp ss)"
  have s: "?s = drop T (ss_bytes ss)" using assms(2) by (simp add: read_waits_def)
  from carry_out(4) e have a: "if res < 0 then w = nv_world v else nat res \<le> 4096 \<and> nat res \<le> length ?s \<and>
      (res = 0 \<longrightarrow> ?s = []) \<and> w = stream_read (ss_inp ss) b (nat res) (nv_world v)"
    by (auto simp: read_sqe_def unat_CHUNK CHUNK_def split: if_splits)
  have ok: "ok (Op_read (ss_inp ss) b CHUNK 0) res" using carry_out(3) e by (simp add: read_sqe_def)
  show ?thesis
  proof (cases "res < 0")
    case True
    with a s ok carry_out(1) e assms(2) show ?thesis by (auto simp: read_waits_def read_done_def)
  next
    case False
    with a s assms(3) have "T + nat res \<le> length (ss_bytes ss)" "res = 0 \<longrightarrow> T = length (ss_bytes ss)" by auto
    with False a s ok carry_out(1) e assms(2) show ?thesis
      by (auto simp: read_waits_def read_done_def chunk_in_def add.commute)
  qed
qed


lemma reading_step:
  assumes "net_step ok v v'" "reading ok ss T outs v"
  shows "reading ok ss T outs v'"
proof -
  from assms(2) obtain b where r: "read_waits ss T b v \<or> (\<exists>res. read_done ok ss T b res v)"
    by (auto simp: reading_def)
  have "nv_waiting v \<noteq> {#}" using assms(1) by (cases rule: net_step.cases) auto
  then have "read_waits ss T b v" using r by (auto simp: read_done_def)
  moreover have "T \<le> length (ss_bytes ss)" using assms(2) by (simp add: reading_def)
  ultimately obtain res where "read_done ok ss T b res v'" "nw_sink (nv_world v') = nw_sink (nv_world v)"
    using read_waits_step [OF assms(1)] by blast
  then show ?thesis using assms(2) clients_world has_got_world unfolding reading_def by blast
qed

lemma take_chunk: "take k m = take k (drop T bs) \<Longrightarrow> take T bs @ take k m = take (T + k) bs"
  by (simp add: take_add)

lemma unat_count: "unat (n :: size_t) \<le> 4096 \<Longrightarrow> unat (ucast n :: 32 word) = unat n"
  by (simp add: unsigned_ucast_eq take_bit_nat_eq_self)

lemma writing_step:
  assumes "net_step ok v v'" "writing ok ss T n p W D outs v"
    and whole: "ok \<le> writes_whole"
  shows "\<exists>W' D'. writing ok ss T n p W' D' outs v' \<and> size W' + size D' = size W + size D"
  using assms(1)
proof (cases rule: net_step.cases)
  case (carry_out e res w)
  note wr = assms(2) [unfolded writing_def]
  have c: "chunk_in ss T (unat n) p (nv_world v)" and cl: "clients ok ss outs (nv_world v)" using wr by simp_all
  have n: "unat (ucast n :: 32 word) = unat n" using c by (intro unat_count) (simp add: chunk_in_def)
  obtain fd where fd: "fd \<in># W" "e = write_to p n fd" using carry_out(2) wr by auto
  let ?W = "W - {#fd#}" and ?D = "add_mset (fd, res) D"
  have ok: "ok (Op_write fd p (ucast n) 0) res" using carry_out(3) fd(2) by (simp add: write_sqe_def)
  from predicate2D [OF whole ok] n have res: "res = int (unat n) \<or> res < 0 \<and> res \<noteq> - EAGAIN \<and> mortal ok fd"
    using ok by (auto simp: writes_whole_def mortal_def simp del: of_nat_unat)
  have sub: "W + image_mset fst D \<subseteq># mset outs" and dist: "distinct outs" using wr by (simp_all add: clients_def)
  have W: "W = add_mset fd ?W" using fd(1) by simp
  have fdo: "fd \<in> set outs" using sub fd(1) by (metis in_multiset_in_set mset_subset_eqD union_iff)
  have "count (mset outs) fd = 1" using dist fdo by (simp add: distinct_count_atmost_1)
  then have "count W fd \<le> 1" using sub by (metis count_union le_add1 le_trans mset_subset_eq_count)
  then have once: "fd \<notin># ?W" by (simp add: not_in_iff)
  have w: "if res < 0 then w = nv_world v else w = stream_write fd p (unat n) (nv_world v)"
    using carry_out(4) fd(2) res by (auto simp: write_sqe_def)
  have got: "has_got ss T (nv_world v) fd" using wr fd(1) fdo by auto
  have sink: "nw_sink w x = nw_sink (nv_world v) x" if "x \<noteq> fd" for x using w that by (auto split: if_splits)
  have full: "has_got ss (T + unat n) w fd" if "0 \<le> res"
  proof -
    have "nw_sink w fd = nw_sink (nv_world v) fd @ take (unat n) (nw_mem (nv_world v) p)" using w that by simp
    also have "\<dots> = ss_sink ss fd @ take (T + unat n) (ss_bytes ss)"
      using got take_chunk [of "unat n" _ T "ss_bytes ss"] c by (simp add: has_got_def chunk_in_def)
    finally show ?thesis by (simp add: has_got_def)
  qed
  have rest: "nw_src w = nw_src (nv_world v)" "nw_mem w = nw_mem (nv_world v)" using w by (auto split: if_splits)
  have each: "has_got ss T w x \<and> (x \<in># ?W \<or> (\<exists>r < 0. (x, r) \<in># ?D)) \<or> has_got ss (T + unat n) w x \<and> x \<notin># ?W"
    if "x \<in> set outs" for x
  proof (cases "x = fd")
    case True
    show ?thesis
    proof (cases "res < 0")
      case True
      then have "has_got ss T w fd" using w got by simp
      with True \<open>x = fd\<close> show ?thesis by auto
    qed (use full once \<open>x = fd\<close> in simp)
  next
    case False
    then have "x \<in># W \<longleftrightarrow> x \<in># ?W" by (simp add: in_diff_count)
    moreover have "has_got ss k w x = has_got ss k (nv_world v) x" for k
      using sink [OF False] by (simp add: has_got_def)
    moreover have "has_got ss T (nv_world v) x \<and> (x \<in># W \<or> (\<exists>r < 0. (x, r) \<in># D)) \<or>
        has_got ss (T + unat n) (nv_world v) x \<and> x \<notin># W"
      using wr that by blast
    ultimately show ?thesis using False by simp
  qed
  have "clients ok ss outs w"
  proof -
    have "\<exists>k. has_got ss k w x" if "x \<in> set (ss_outs ss)" for x
    proof (cases "x = fd")
      case True
      with each [OF fdo] show ?thesis by blast
    next
      case False
      with sink cl that show ?thesis by (simp add: clients_def has_got_def)
    qed
    moreover have "nw_sink w x = ss_sink ss x" if "x \<notin> set (ss_outs ss)" for x
    proof -
      have "x \<noteq> fd" using that fdo cl by (auto simp: clients_def)
      with sink cl that show ?thesis by (simp add: clients_def)
    qed
    ultimately show ?thesis using cl by (simp add: clients_def)
  qed
  moreover have "?W + image_mset fst ?D \<subseteq># mset outs" using sub W by (metis add_mset_add_single fst_conv image_mset_add_mset union_mset_add_mset_left union_mset_add_mset_right)
  moreover have "chunk_in ss T (unat n) p w" using c rest by (simp add: chunk_in_def)
  moreover have "nv_waiting v' = image_mset (write_to p n) ?W"
    using carry_out(1) fd wr by (simp add: image_mset_Diff)
  moreover have "nv_done v' = image_mset (\<lambda>x. (write_to p n (fst x), snd x)) ?D"
    using carry_out(1) fd(2) wr by simp
  ultimately have "writing ok ss T n p ?W ?D outs v'"
    unfolding writing_def using carry_out(1) wr res each by simp
  moreover have "size ?W + size ?D = size W + size D" using W by (metis add_Suc add_Suc_right size_add_mset)
  ultimately show ?thesis by blast
qed

lemma reading_run:
  "(net_step ok)\<^sup>*\<^sup>* v v' \<Longrightarrow> reading ok ss T outs v \<Longrightarrow> reading ok ss T outs v'"
  by (rule net_run_inv) (auto intro: reading_step)

lemma writing_run:
  assumes "(net_step ok)\<^sup>*\<^sup>* v v'" "writing ok ss T n p W D outs v" "ok \<le> writes_whole"
  shows "\<exists>W' D'. writing ok ss T n p W' D' outs v' \<and> size W' + size D' = size W + size D"
proof (rule net_run_inv [OF assms(1)])
  show "\<exists>W' D'. writing ok ss T n p W' D' outs v \<and> size W' + size D' = size W + size D" using assms(2) by blast
  fix v1 v2 assume "net_step ok v1 v2" "\<exists>W' D'. writing ok ss T n p W' D' outs v1 \<and> size W' + size D' = size W + size D"
  then show "\<exists>W' D'. writing ok ss T n p W' D' outs v2 \<and> size W' + size D' = size W + size D"
    using writing_step [OF _ _ assms(3)] by metis
qed


section \<open>Submissions\<close>

lemma submit_read_net:
  assumes laws: "uring_laws ur view" "submits_all ur view" "net_laws ok ur view net" and r: "bc_ready view r"
  shows "\<exists>r'. submit_read ur q r = (Inr (), r') \<and> bc_ready view r' \<and>
    (net_step ok)\<^sup>*\<^sup>* (net_submit [read_sqe q] (net r)) (net r')"
proof -
  from submit_read_ok [OF laws(1,2) r, of q] obtain r' where
    r': "submit_read ur q r = (Inr (), r')" "bc_ready view r'" by blast
  obtain b r1 where p: "push_sqe ur (read_sqe q) r = (b, r1)" by fastforce
  from push_sqe_law [OF uring_lawsD(2) [OF laws(1)] p] r
  have b: b "rv_pending (view r1) = [read_sqe q]" by (simp_all add: bc_ready_def)
  obtain s where s: "ur_submit ur r1 = (s, r')" using r'(1) p b(1) by (auto simp: submit_read_def split: prod.splits)
  have "s = 1" using laws(2) s b(2) by (metis submits_all_def fst_conv length_Cons list.size(3) of_nat_1 One_nat_def)
  with net_lawsD(4) [OF laws(3) s] push_sqe_net [OF laws(3) p] b(2) r' show ?thesis by auto
qed

lemma submit_writes_same_net:
  assumes "net_laws ok ur view net"
  shows "submit_writes ur share n outs r = (x, r') \<Longrightarrow> net r' = net r"
proof (induction outs arbitrary: r)
  case (Cons out outs)
  let ?e = "write_sqe \<lparr>q_type = Write, q_buf = share, q_fd = out, q_bytes = n\<rparr>"
  obtain b r1 where p: "push_sqe ur ?e r = (b, r1)" by fastforce
  with Cons push_sqe_net [OF assms p] show ?case by (cases b) (auto simp: submit_write_def)
qed simp

lemma fan_out_net:
  assumes laws: "uring_laws ur view" "submits_all ur view" "net_laws ok ur view net"
    and r: "bc_ready view (bc_ring st)" and c: "q_type (cq_data c) = Read" "0 < cq_res c"
    and few: "length (bc_outputs st) \<le> 64"
  shows "\<exists>r'. on_completion ur buf inp c st =
      (Inr True, st\<lparr>bc_writes_pending := int (length (bc_outputs st)), bc_ring := r'\<rparr>) \<and> bc_ready view r' \<and>
    (net_step ok)\<^sup>*\<^sup>* (net_submit (map (write_to (q_buf (cq_data c)) (of_int (cq_res c))) (bc_outputs st))
        (net (bc_ring st))) (net r')"
proof -
  let ?p = "q_buf (cq_data c)" and ?n = "of_int (cq_res c) :: size_t"
  have "rv_entries (view (bc_ring st)) = 64" "length (rv_pending (view (bc_ring st))) + length (bc_outputs st) \<le> 64"
    using r few by (simp_all add: bc_ready_def)
  from submit_writes_ok [OF uring_lawsD(2) [OF laws(1)] this, of ?p ?n] obtain r1 where
    r1: "submit_writes ur ?p ?n (bc_outputs st) (bc_ring st) = (Inr (), r1)"
      "view r1 = view_push (write_batch ?p ?n (bc_outputs st)) (view (bc_ring st))" by blast
  then have pend: "rv_pending (view r1) = map (write_to ?p ?n) (bc_outputs st)"
    using r by (simp add: bc_ready_def write_batch_def)
  obtain s r2 where s: "ur_submit ur r1 = (s, r2)" by fastforce
  have "on_completion ur buf inp c st =
      (Inr True, st\<lparr>bc_writes_pending := int (length (bc_outputs st)), bc_ring := r2\<rparr>)"
    using c r1(1) s by (simp add: on_completion_def Let_def)
  moreover have "bc_ready view r2" using submits_allD(1) [OF laws(1,2) s] r1(2) r by (simp add: bc_ready_def)
  moreover have "s = int (length (rv_pending (view r1)))" using laws(2) s by (metis submits_all_def fst_conv)
  ultimately show ?thesis
    using net_lawsD(4) [OF laws(3) s] submit_writes_same_net [OF laws(3) r1(1)] pend by auto
qed

section \<open>Turns\<close>

definition at_read where
  "at_read ok view net ss T st \<longleftrightarrow> bc_ready view (bc_ring st) \<and> bc_writes_pending st = 0 \<and>
     reading ok ss T (bc_outputs st) (net (bc_ring st))"

definition at_write where
  "at_write ok view net ss T st \<longleftrightarrow> bc_ready view (bc_ring st) \<and>
     (\<exists>n p W D. writing ok ss T n p W D (bc_outputs st) (net (bc_ring st)) \<and>
        bc_writes_pending st = int (size W + size D) \<and> (W = {#} \<and> D = {#} \<longrightarrow> bc_outputs st = []))"

lemma start_read_at_read:
  assumes laws: "uring_laws ur view" "submits_all ur view" "net_laws ok ur view net"
    and r: "bc_ready view (bc_ring st)" "bc_writes_pending st = 0"
    and v: "nv_waiting (net (bc_ring st)) = {#}" "nv_done (net (bc_ring st)) = {#}"
      "clients ok ss (bc_outputs st) (nv_world (net (bc_ring st)))"
      "\<forall>fd \<in> set (bc_outputs st). has_got ss T (nv_world (net (bc_ring st))) fd"
      "nw_src (nv_world (net (bc_ring st))) (ss_inp ss) = drop T (ss_bytes ss)" "T \<le> length (ss_bytes ss)"
  shows "\<exists>r'. start_read ur buf (ss_inp ss) (bc_ring st) = (Inr (), r') \<and> at_read ok view net ss T (st\<lparr>bc_ring := r'\<rparr>)"
proof -
  let ?b = "buf (bc_ring st)"
  let ?v = "net_submit [read_of ss ?b] (net (bc_ring st))"
  from submit_read_net [OF laws r(1), of "\<lparr>q_type = Read, q_buf = ?b, q_fd = ss_inp ss, q_bytes = 0\<rparr>"]
  obtain r' where r': "start_read ur buf (ss_inp ss) (bc_ring st) = (Inr (), r')" "bc_ready view r'"
    "(net_step ok)\<^sup>*\<^sup>* ?v (net r')" by (auto simp: start_read_def)
  have "read_waits ss T ?b ?v" using v by (simp add: read_waits_def)
  then have "reading ok ss T (bc_outputs st) ?v" using v by (auto simp: reading_def)
  from reading_run [OF r'(3) this] r' r(2) show ?thesis by (auto simp: at_read_def)
qed

text \<open>How the loop ends: at the end of the input, or with no client left.\<close>

definition loop_over where
  "loop_over ok net ss res st \<longleftrightarrow> nv_waiting (net (bc_ring st)) = {#} \<and>
     clients ok ss (bc_outputs st) (nv_world (net (bc_ring st))) \<and>
     (res = Inr () \<and> (\<forall>fd \<in> set (bc_outputs st). has_got ss (length (ss_bytes ss)) (nv_world (net (bc_ring st))) fd) \<or>
      res = Inl Blocks \<and> bc_outputs st = [])"

text \<open>What the loop finds when a wait returns.\<close>

lemma wait_turn:
  assumes "uring_laws ur view" "net_laws ok ur view net"
    and "ur_wait_cqe ur (bc_ring st) = (Some (Inr c), r)" "bc_ready view (bc_ring st)"
  shows "\<exists>v e. (net_step ok)\<^sup>*\<^sup>* (net (bc_ring st)) v \<and> (e, cq_res c) \<in># nv_done v \<and> sq_data e = cq_data c \<and>
    net (ur_cqe_seen ur c r) = net_seen (e, cq_res c) v \<and> bc_ready view (ur_cqe_seen ur c r)"
proof -
  note w = uring_lawsD(5) [OF assms(1), unfolded wait_law_def, rule_format, OF assms(3)]
  then have "bc_ready view (ur_cqe_seen ur c r)" using assms(4) by (simp add: bc_ready_def)
  with net_lawsD(5,6) [OF assms(2,3)] show ?thesis by blast
qed

lemma read_turn:
  assumes laws: "uring_laws ur view" "submits_all ur view" "net_laws ok ur view net"
    and whole: "ok \<le> writes_whole"
    and st: "at_read ok view net ss T st" and few: "length (bc_outputs st) \<le> 64"
    and w: "ur_wait_cqe ur (bc_ring st) = (Some (Inr c), r)"
  defines "st1 \<equiv> st\<lparr>bc_ring := ur_cqe_seen ur c r\<rparr>"
  obtains "cq_res c = - EAGAIN" "\<exists>b. ok (Op_read (ss_inp ss) b CHUNK 0) (cq_res c)"
    "\<exists>r'. on_completion ur buf (ss_inp ss) c st1 = (Inr True, st\<lparr>bc_ring := r'\<rparr>) \<and>
      at_read ok view net ss T (st\<lparr>bc_ring := r'\<rparr>)"
  | "cq_res c < 0" "cq_res c \<noteq> - EAGAIN" "\<exists>b. ok (Op_read (ss_inp ss) b CHUNK 0) (cq_res c)" "on_completion ur buf (ss_inp ss) c st1 = (Inr False, st1)"
  | "cq_res c = 0" "on_completion ur buf (ss_inp ss) c st1 = (Inr False, st1)" "loop_over ok net ss (Inr ()) st1"
  | "0 < cq_res c" "\<exists>st'. on_completion ur buf (ss_inp ss) c st1 = (Inr True, st') \<and>
      bc_outputs st' = bc_outputs st \<and> at_write ok view net ss T st'"
proof -
  have ready: "bc_ready view (bc_ring st)" and pend: "bc_writes_pending st = 0"
    and rd: "reading ok ss T (bc_outputs st) (net (bc_ring st))" using st by (simp_all add: at_read_def)
  from wait_turn [OF laws(1,3) w ready] obtain v e where
    v: "(net_step ok)\<^sup>*\<^sup>* (net (bc_ring st)) v" "(e, cq_res c) \<in># nv_done v" "sq_data e = cq_data c"
      "net (bc_ring st1) = net_seen (e, cq_res c) v" "bc_ready view (bc_ring st1)"
    by (auto simp: st1_def)
  have rv: "reading ok ss T (bc_outputs st) v" by (rule reading_run [OF v(1) rd])
  then obtain b where b: "read_done ok ss T b (cq_res c) v" "e = read_of ss b"
    using v(2) by (auto simp: reading_def read_waits_def read_done_def)
  have q: "cq_data c = \<lparr>q_type = Read, q_buf = b, q_fd = ss_inp ss, q_bytes = 0\<rparr>"
    using v(3) b(2) by (simp add: read_sqe_def)
  have ok: "\<exists>b. ok (Op_read (ss_inp ss) b CHUNK 0) (cq_res c)" using b(1) by (auto simp: read_done_def)
  have T: "T \<le> length (ss_bytes ss)" "clients ok ss (bc_outputs st) (nv_world v)"
    "\<forall>fd \<in> set (bc_outputs st). has_got ss T (nv_world v) fd" using rv by (simp_all add: reading_def)
  have empty: "nv_waiting (net (bc_ring st1)) = {#}" "nv_done (net (bc_ring st1)) = {#}"
    "nv_world (net (bc_ring st1)) = nv_world v"
    using v(4) b by (simp_all add: read_done_def)
  consider "cq_res c = - EAGAIN" | "cq_res c < 0" "cq_res c \<noteq> - EAGAIN" | "cq_res c = 0" | "0 < cq_res c"
    by linarith
  then show thesis
  proof cases
    case 1
    from submit_read_net [OF laws v(5), of "cq_data c"] obtain r' where
      r': "submit_read ur (cq_data c) (bc_ring st1) = (Inr (), r')" "bc_ready view r'"
        "(net_step ok)\<^sup>*\<^sup>* (net_submit [read_of ss b] (net (bc_ring st1))) (net r')" using q by auto
    have "read_waits ss T b (net_submit [read_of ss b] (net (bc_ring st1)))"
      using b(1) 1 empty by (simp add: read_waits_def read_done_def errno_defs)
    then have "reading ok ss T (bc_outputs st) (net_submit [read_of ss b] (net (bc_ring st1)))"
      using T empty by (auto simp: reading_def)
    from reading_run [OF r'(3) this] r'(1,2) pend
    show thesis using 1 ok by (intro that(1) exI [of _ r']) (simp_all add: at_read_def on_completion_def errno_defs st1_def Let_def)
  next
    case 2
    then show thesis using q ok by (intro that(2)) (simp_all add: on_completion_def Let_def)
  next
    case 3
    moreover have "T = length (ss_bytes ss)" using b(1) 3 by (simp add: read_done_def)
    moreover have "loop_over ok net ss (Inr ()) st1"
      using empty T \<open>T = length (ss_bytes ss)\<close> by (simp add: loop_over_def st1_def)
    ultimately show thesis using q by (intro that(3)) (simp_all add: on_completion_def Let_def)
  next
    case 4
    let ?n = "of_int (cq_res c) :: size_t" and ?outs = "bc_outputs st"
    have ch: "chunk_in ss T (nat (cq_res c)) b (nv_world v)" using b(1) 4 by (simp add: read_done_def)
    then have "nat (cq_res c) \<le> 4096" by (simp add: chunk_in_def)
    then have le: "cq_res c \<le> 4096" by linarith
    then have n: "unat ?n = nat (cq_res c)" using 4
      by (simp add: unat_eq_nat_uint word_uint_eq_iff uint_word_of_int)
    have "q_type (cq_data c) = Read" "length (bc_outputs st1) \<le> 64" using q few by (simp_all add: st1_def)
    from fan_out_net [OF laws v(5) this(1) 4 this(2), of buf "ss_inp ss"] obtain r' where
      r': "on_completion ur buf (ss_inp ss) c st1 = (Inr True, st\<lparr>bc_writes_pending := int (length ?outs), bc_ring := r'\<rparr>)"
        "bc_ready view r'"
        "(net_step ok)\<^sup>*\<^sup>* (net_submit (map (write_to b ?n) ?outs) (net (bc_ring st1))) (net r')"
      using q by (auto simp: st1_def)
    have "0 < ?n" using n 4 by (simp add: word_less_nat_alt)
    then have "writing ok ss T ?n b (mset ?outs) {#} ?outs (net_submit (map (write_to b ?n) ?outs) (net (bc_ring st1)))"
      unfolding writing_def using ch n T empty by simp
    from writing_run [OF r'(3) this whole] obtain W' D' where
      W: "writing ok ss T ?n b W' D' ?outs (net r')" "size W' + size D' = length ?outs" by auto
    let ?st = "st\<lparr>bc_writes_pending := int (length ?outs), bc_ring := r'\<rparr>"
    have "at_write ok view net ss T ?st"
      unfolding at_write_def using W r'(2)
      by (intro conjI exI [of _ ?n] exI [of _ b] exI [of _ W'] exI [of _ D']) auto
    with r'(1) show thesis by (intro that(4) [OF 4] exI [of _ ?st]) simp
  qed
qed


lemma writing_seen:
  assumes wr: "writing ok ss T n p W D outs v" and x: "(fd, res) \<in># D"
    and outs: "outs' = (if res < 0 then filter (\<lambda>g. g \<noteq> fd) outs else outs)"
  shows "writing ok ss T n p W (D - {#(fd, res)#}) outs' (net_seen (write_to p n fd, res) v)"
proof -
  note d = wr [unfolded writing_def]
  let ?D = "D - {#(fd, res)#}"
  have D: "D = add_mset (fd, res) ?D" using x by simp
  have sub: "W + image_mset fst D \<subseteq># mset outs" and dist: "distinct outs" using d by (simp_all add: clients_def)
  have img: "image_mset fst D = add_mset fd (image_mset fst ?D)" by (subst D) simp
  have fdo: "fd \<in> set outs" using sub img
    by (metis mset_subset_eqD set_mset_mset union_iff union_single_eq_member)
  have "count (mset outs) fd = 1" using dist fdo by (simp add: distinct_count_atmost_1)
  then have "count (W + image_mset fst D) fd \<le> 1" using sub by (metis mset_subset_eq_count)
  then have none: "count W fd = 0" "count (image_mset fst ?D) fd = 0" using img by simp_all
  then have once: "fd \<notin># W" "fd \<notin># image_mset fst ?D" by (simp_all only: not_in_iff)
  have "mortal ok fd" if "res < 0" using d x that by auto
  then have cl: "clients ok ss outs' (nv_world v)" using d outs by (auto simp: clients_def)
  have sub': "W + image_mset fst ?D \<subseteq># mset outs'"
  proof -
    have "count (W + image_mset fst ?D) g \<le> count (mset outs') g" for g
    proof (cases "g = fd")
      case True
      with none show ?thesis by simp
    next
      case False
      have "count (W + image_mset fst ?D) g \<le> count (W + image_mset fst D) g" using img by simp
      also have "\<dots> \<le> count (mset outs) g" by (rule mset_subset_eq_count [OF sub])
      finally show ?thesis using False outs by simp
    qed
    then show ?thesis by (simp add: mset_subset_eqI)
  qed
  have each: "has_got ss T (nv_world v) g \<and> (g \<in># W \<or> (\<exists>r < 0. (g, r) \<in># ?D)) \<or> has_got ss (T + unat n) (nv_world v) g \<and> g \<notin># W"
    if "g \<in> set outs'" for g
  proof (cases "g = fd")
    case True
    then have "0 \<le> res" using that outs by (auto split: if_splits)
    moreover have "r = res" if "(fd, r) \<in># D" for r
    proof (rule ccontr)
      assume "r \<noteq> res"
      then have "(fd, r) \<in># ?D" using that by (simp add: in_diff_count)
      then have "fst (fd, r) \<in># image_mset fst ?D" by (simp only: set_image_mset imageI)
      with once(2) show False by simp
    qed
    moreover have "has_got ss T (nv_world v) fd \<and> (fd \<in># W \<or> (\<exists>r < 0. (fd, r) \<in># D)) \<or>
        has_got ss (T + unat n) (nv_world v) fd \<and> fd \<notin># W"
      using d fdo by blast
    ultimately show ?thesis using once(1) True by auto
  next
    case False
    have "g \<in> set outs" using that outs by (auto split: if_splits)
    then have "has_got ss T (nv_world v) g \<and> (g \<in># W \<or> (\<exists>r < 0. (g, r) \<in># D)) \<or>
        has_got ss (T + unat n) (nv_world v) g \<and> g \<notin># W"
      using d by blast
    moreover have "(g, r) \<in># D \<longleftrightarrow> (g, r) \<in># ?D" for r using False by (simp add: in_diff_count)
    ultimately show ?thesis by simp
  qed
  have "nv_done (net_seen (write_to p n fd, res) v) = image_mset (\<lambda>x. (write_to p n (fst x), snd x)) ?D"
    using d image_mset_Diff [of "{#(fd, res)#}" D "\<lambda>x. (write_to p n (fst x), snd x)"] x by simp
  moreover have "\<forall>x \<in># ?D. snd x = int (unat n) \<or> snd x < 0 \<and> snd x \<noteq> - EAGAIN \<and> mortal ok (fst x)"
    using d by (meson in_diffD)
  ultimately show ?thesis
    unfolding writing_def using d cl sub' each by simp
qed


lemma writing_over:
  assumes "writing ok ss T n p {#} {#} outs v"
  shows "nv_waiting v = {#} \<and> nv_done v = {#} \<and> clients ok ss outs (nv_world v) \<and>
    (\<forall>fd \<in> set outs. has_got ss (T + unat n) (nv_world v) fd) \<and>
    nw_src (nv_world v) (ss_inp ss) = drop (T + unat n) (ss_bytes ss) \<and> T + unat n \<le> length (ss_bytes ss) \<and> 0 < unat n"
  using assms by (simp add: writing_def chunk_in_def word_less_nat_alt)

lemma write_turn:
  assumes laws: "uring_laws ur view" "submits_all ur view" "net_laws ok ur view net"
    and whole: "ok \<le> writes_whole"
    and st: "at_write ok view net ss T st" and w: "ur_wait_cqe ur (bc_ring st) = (Some (Inr c), r)"
  shows "\<exists>st'. on_completion ur buf (ss_inp ss) c (st\<lparr>bc_ring := ur_cqe_seen ur c r\<rparr>) = (Inr True, st') \<and>
    length (bc_outputs st') \<le> length (bc_outputs st) \<and>
    ((\<exists>T' > T. at_read ok view net ss T' st') \<or>
     at_write ok view net ss T st' \<and> bc_writes_pending st' = bc_writes_pending st - 1 \<and> 0 < bc_writes_pending st)"
proof -
  let ?outs = "bc_outputs st" and ?st = "st\<lparr>bc_ring := ur_cqe_seen ur c r\<rparr>"
  from st obtain n p W0 D0 where ready: "bc_ready view (bc_ring st)"
    and wr0: "writing ok ss T n p W0 D0 ?outs (net (bc_ring st))" "bc_writes_pending st = int (size W0 + size D0)"
    by (auto simp: at_write_def)
  from wait_turn [OF laws(1,3) w ready] obtain v e where
    v: "(net_step ok)\<^sup>*\<^sup>* (net (bc_ring st)) v" "(e, cq_res c) \<in># nv_done v" "sq_data e = cq_data c"
      "net (bc_ring ?st) = net_seen (e, cq_res c) v" "bc_ready view (bc_ring ?st)" by auto
  from writing_run [OF v(1) wr0(1) whole] obtain W D where
    wr: "writing ok ss T n p W D ?outs v" and size: "size W + size D = size W0 + size D0" by blast
  obtain fd where fd: "(fd, cq_res c) \<in># D" "e = write_to p n fd"
    using v(2) wr by (auto simp: writing_def)
  have q: "cq_data c = \<lparr>q_type = Write, q_buf = p, q_fd = fd, q_bytes = n\<rparr>"
    using v(3) fd(2) by (simp add: write_sqe_def)
  have res: "0 \<le> cq_res c \<or> cq_res c < 0 \<and> cq_res c \<noteq> - EAGAIN"
  proof -
    have "\<forall>x \<in># D. snd x = int (unat n) \<or> snd x < 0 \<and> snd x \<noteq> - EAGAIN \<and> mortal ok (fst x)"
      using wr unfolding writing_def by blast
    from bspec [OF this fd(1)] show ?thesis by auto
  qed
  let ?outs' = "if cq_res c < 0 then filter (\<lambda>g. g \<noteq> fd) ?outs else ?outs"
  let ?D = "D - {#(fd, cq_res c)#}"
  have seen: "writing ok ss T n p W ?D ?outs' (net (bc_ring ?st))"
    using writing_seen [OF wr fd(1) refl] v(4) fd(2) by simp
  have pend: "bc_writes_pending st - 1 = int (size W + size ?D)" "0 < bc_writes_pending st"
    using wr0(2) size fd(1) by (auto simp: size_Diff_singleton nonempty_has_size dest: size_Suc_Diff1)
  let ?st1 = "?st\<lparr>bc_outputs := ?outs', bc_writes_pending := bc_writes_pending st - 1\<rparr>"
  show ?thesis
  proof (cases "bc_writes_pending st = 1 \<and> (0 \<le> cq_res c \<or> ?outs' \<noteq> [])")
    case True
    then have "int (size W) + int (size ?D) = 0" using pend(1) by simp
    then have "size W = 0 \<and> size ?D = 0" by presburger
    then have "W = {#}" "?D = {#}" by simp_all
    note over = writing_over [OF seen [unfolded this]]
    have "\<exists>r'. start_read ur buf (ss_inp ss) (bc_ring ?st1) = (Inr (), r') \<and>
        at_read ok view net ss (T + unat n) (?st1\<lparr>bc_ring := r'\<rparr>)"
      by (rule start_read_at_read [OF laws]) (use over v(5) True in simp_all)
    then obtain r' where r': "start_read ur buf (ss_inp ss) (bc_ring ?st) = (Inr (), r')"
      "at_read ok view net ss (T + unat n) (?st1\<lparr>bc_ring := r'\<rparr>)" by auto
    have "on_completion ur buf (ss_inp ss) c ?st = (Inr True, ?st1\<lparr>bc_ring := r'\<rparr>)"
      using res q r'(1) True by (cases "cq_res c < 0") (auto simp: on_completion_def Let_def)
    moreover have "T < T + unat n" using over by simp
    ultimately show ?thesis using r'(2) by (intro exI [of _ "?st1\<lparr>bc_ring := r'\<rparr>"]) auto
  next
    case False
    have "on_completion ur buf (ss_inp ss) c ?st = (Inr True, ?st1)"
      using res q False by (cases "cq_res c < 0") (auto simp: on_completion_def Let_def)
    moreover have "at_write ok view net ss T ?st1"
    proof -
      have "W = {#} \<and> ?D = {#} \<longrightarrow> ?outs' = []" using False pend by auto
      then show ?thesis unfolding at_write_def using seen v(5) pend(1)
        by (intro conjI exI [of _ n] exI [of _ p] exI [of _ W] exI [of _ ?D]) simp_all
    qed
    ultimately show ?thesis using pend(2) by (intro exI [of _ ?st1]) simp
  qed
qed


section \<open>The whole loop\<close>

text \<open>A session begins at a read with nothing delivered.\<close>

definition session_of :: "c_int \<Rightarrow> c_int list \<Rightarrow> net_world \<Rightarrow> session" where
  "session_of inp outs w = \<lparr>ss_inp = inp, ss_bytes = nw_src w inp, ss_sink = nw_sink w, ss_outs = outs\<rparr>"

lemma initial_at_read:
  assumes laws: "uring_laws ur view" "submits_all ur view" "net_laws ok ur view net"
    and init: "bc_initial ur buf inp outs r st" and dist: "distinct outs"
  shows "at_read ok view net (session_of inp outs (nv_world (net r))) 0 st \<and> bc_outputs st = outs"
proof -
  let ?ss = "session_of inp outs (nv_world (net r))"
  obtain ret r1 where i: "ur_init ur (2 ^ 6) r = (ret, r1)" by fastforce
  with init have ret: "0 \<le> ret" by (simp add: bc_initial_def NET_Q_DEPTH_def)
  have ready: "bc_ready view r1"
    using uring_lawsD(1) [OF laws(1), unfolded init_law_def, rule_format, OF i ret] by (simp add: bc_ready_def)
  have v: "net r1 = \<lparr>nv_waiting = {#}, nv_done = {#}, nv_world = nv_world (net r)\<rparr>"
    by (rule net_lawsD(1) [OF laws(3) i ret])
  let ?st = "\<lparr>bc_ring = r1, bc_outputs = outs, bc_writes_pending = 0\<rparr>"
  have "\<exists>r'. start_read ur buf (ss_inp ?ss) (bc_ring ?st) = (Inr (), r') \<and> at_read ok view net ?ss 0 (?st\<lparr>bc_ring := r'\<rparr>)"
    by (rule start_read_at_read [OF laws])
       (use ready v dist in \<open>simp_all add: session_of_def clients_def has_got_def exI [of _ 0]\<close>)
  with init i show ?thesis by (auto simp: bc_initial_def NET_Q_DEPTH_def session_of_def)
qed

definition under_way where
  "under_way ok view net ss st \<longleftrightarrow> length (bc_outputs st) \<le> 64 \<and>
     (\<exists>T. at_read ok view net ss T st \<or> at_write ok view net ss T st)"

lemma bc_turn_under_way:
  assumes laws: "uring_laws ur view" "submits_all ur view" "net_laws ok ur view net"
    and whole: "ok \<le> writes_whole"
    and st: "under_way ok view net ss st" and turn: "bc_turn ur buf (ss_inp ss) st st'"
  shows "under_way ok view net ss st'"
  using turn
proof (cases rule: bc_turn.cases)
  case (turn c r)
  from st obtain T where few: "length (bc_outputs st) \<le> 64"
    and "at_read ok view net ss T st \<or> at_write ok view net ss T st" by (auto simp: under_way_def)
  then consider "at_read ok view net ss T st" | "at_write ok view net ss T st" by blast
  then show ?thesis
  proof cases
    case 1
    show ?thesis
      by (cases rule: read_turn [OF laws whole 1 few turn(1), where buf = buf])
         (use turn(2) few in \<open>auto simp: under_way_def\<close>)
  next
    case 2
    from write_turn [OF laws whole this turn(1), of buf] turn(2) few show ?thesis
      by (auto simp: under_way_def)
  qed
qed

lemma under_way_system:
  assumes "uring_laws ur view" "submits_all ur view" "net_laws ok ur view net"
    and "ok \<le> writes_whole" "distinct outs" "length outs \<le> 64"
  shows "invariant_system (bc_initial ur buf inp outs r) (bc_turn ur buf inp)
    (under_way ok view net (session_of inp outs (nv_world (net r))))"
proof
  fix st assume "bc_initial ur buf inp outs r st"
  from initial_at_read [OF assms(1-3) this assms(5)] assms(6)
  show "under_way ok view net (session_of inp outs (nv_world (net r))) st" by (auto simp: under_way_def)
next
  fix st st' assume "under_way ok view net (session_of inp outs (nv_world (net r))) st" "bc_turn ur buf inp st st'"
  then show "under_way ok view net (session_of inp outs (nv_world (net r))) st'"
    using bc_turn_under_way [OF assms(1-4)] by (simp add: session_of_def)
qed

text \<open>Under way, the clients that are left are at most a chunk apart.\<close>

lemma under_way_lockstep:
  assumes "under_way ok view net ss st"
  shows "\<exists>T. \<forall>fd \<in> set (bc_outputs st). \<exists>k. T \<le> k \<and> k \<le> T + 4096 \<and> has_got ss k (nv_world (net (bc_ring st))) fd"
proof -
  let ?w = "nv_world (net (bc_ring st))"
  from assms obtain T where "at_read ok view net ss T st \<or> at_write ok view net ss T st" by (auto simp: under_way_def)
  then have "\<exists>k. T \<le> k \<and> k \<le> T + 4096 \<and> has_got ss k ?w fd" if "fd \<in> set (bc_outputs st)" for fd
  proof
    assume "at_read ok view net ss T st"
    with that have "has_got ss T ?w fd" by (simp add: at_read_def reading_def)
    then show ?thesis by (intro exI [of _ T]) simp
  next
    assume "at_write ok view net ss T st"
    then obtain n p W D where wr: "writing ok ss T n p W D (bc_outputs st) (net (bc_ring st))"
      by (auto simp: at_write_def)
    then have "unat n \<le> 4096" by (simp add: writing_def chunk_in_def)
    moreover have "has_got ss T ?w fd \<or> has_got ss (T + unat n) ?w fd"
      using wr that unfolding writing_def by blast
    ultimately show ?thesis by (auto intro: exI [of _ T] exI [of _ "T + unat n"])
  qed
  then show ?thesis by blast
qed

lemma nv_empty:
  "net_laws ok ur view net \<Longrightarrow>
   rv_outstanding (view s) = {#} \<longleftrightarrow> nv_waiting (net s) = {#} \<and> nv_done (net s) = {#}"
  by (simp add: net_lawsD(8))

lemma at_write_pending:
  assumes "at_write ok view net ss T st"
  shows "0 \<le> bc_writes_pending st \<and> bc_writes_pending st \<le> int (length (bc_outputs st))"
proof -
  from assms obtain n p W D where "writing ok ss T n p W D (bc_outputs st) (net (bc_ring st))"
    and p: "bc_writes_pending st = int (size W + size D)" by (auto simp: at_write_def)
  then have "W + image_mset fst D \<subseteq># mset (bc_outputs st)" by (simp add: writing_def)
  from size_mset_mono [OF this] p show ?thesis by simp
qed

text \<open>With no client left there is nothing in flight, and the wait does not return.\<close>

lemma no_client_blocks:
  assumes laws: "uring_laws ur view" "net_laws ok ur view net" "waits_succeed ur"
    and whole: "ok \<le> writes_whole"
    and st: "at_write ok view net ss T st" "bc_writes_pending st = 0"
  shows "\<exists>st'. event_loop ur buf inp st = Some (Inl Blocks, st') \<and> loop_over ok net ss (Inl Blocks) st'"
proof -
  from st(1) obtain n p W D where wd: "writing ok ss T n p W D (bc_outputs st) (net (bc_ring st))"
    "bc_writes_pending st = int (size W + size D)" "W = {#} \<and> D = {#} \<longrightarrow> bc_outputs st = []"
    unfolding at_write_def by blast
  have "size W + size D = 0" using wd(2) st(2) by linarith
  then have wr: "writing ok ss T n p {#} {#} (bc_outputs st) (net (bc_ring st))" and none: "bc_outputs st = []"
    using wd by simp_all
  have out: "rv_outstanding (view (bc_ring st)) = {#}"
    unfolding nv_empty [OF laws(2)] using wr by (simp add: writing_def)
  obtain x r where w: "ur_wait_cqe ur (bc_ring st) = (x, r)" by fastforce
  have "x = None"
  proof (cases x)
    case (Some y)
    show ?thesis
    proof (cases y)
      case (Inl e)
      with laws(3) w Some show ?thesis by (metis waits_succeed_def fst_conv)
    next
      case (Inr c)
      with uring_lawsD(5) [OF laws(1), unfolded wait_law_def, rule_format, OF w] Some out show ?thesis by simp
    qed
  qed simp
  with w have w: "ur_wait_cqe ur (bc_ring st) = (None, r)" by simp
  from writing_run [OF net_lawsD(5) [OF laws(2) w] wr whole] obtain W' D' where
    "writing ok ss T n p W' D' (bc_outputs st) (net r)" "size W' + size D' = 0" by auto
  then have "nv_waiting (net r) = {#}" "clients ok ss (bc_outputs st) (nv_world (net r))"
    by (simp_all add: writing_def)
  then show ?thesis using w none by (subst event_loop.simps) (simp add: loop_over_def)
qed

definition still :: "session \<Rightarrow> nat \<Rightarrow> nat" where
  "still ss T = (length (ss_bytes ss) - T) * 66"

lemma loop_ends:
  assumes laws: "uring_laws ur view" "submits_all ur view" "net_laws ok ur view net" "waits_succeed ur"
    and whole: "ok \<le> writes_whole"
    and reads: "ok \<le> reads_succeed"
  shows "length (bc_outputs st) \<le> 64 \<Longrightarrow>
    at_read ok view net ss T st \<and> m = still ss T + 65 \<or> at_write ok view net ss T st \<and> m = still ss T + nat (bc_writes_pending st) \<Longrightarrow>
    \<exists>res st'. event_loop ur buf (ss_inp ss) st = Some (res, st') \<and> loop_over ok net ss res st'"
proof (induction m arbitrary: st T rule: less_induct)
  case (less m)
  note few = less.prems(1)
  from less.prems(2) consider (rd) "at_read ok view net ss T st" "m = still ss T + 65"
    | (wr) "at_write ok view net ss T st" "m = still ss T + nat (bc_writes_pending st)" by blast
  then show ?case
  proof cases
    case rd
    have "rv_outstanding (view (bc_ring st)) \<noteq> {#}"
      unfolding nv_empty [OF laws(3)] using rd(1) by (auto simp: at_read_def reading_def read_waits_def read_done_def)
    from wait_succeeds [OF laws(1,4) this] obtain c r where w: "ur_wait_cqe ur (bc_ring st) = (Some (Inr c), r)" by metis
    have res: "0 \<le> cq_res c" if "\<exists>b. ok (Op_read (ss_inp ss) b CHUNK 0) (cq_res c)"
    proof -
      from that obtain b where "ok (Op_read (ss_inp ss) b CHUNK 0) (cq_res c)" ..
      from predicate2D [OF reads this] show ?thesis by (simp add: reads_succeed_def)
    qed
    show ?thesis
    proof (cases rule: read_turn [OF laws(1-3) whole rd(1) few w, where buf = buf])
      case 1
      with res show ?thesis by (simp add: errno_defs)
    next
      case 2
      with res show ?thesis by simp
    next
      case 3
      then show ?thesis using w by (subst event_loop.simps) simp
    next
      case 4
      then obtain st' where st': "on_completion ur buf (ss_inp ss) c (st\<lparr>bc_ring := ur_cqe_seen ur c r\<rparr>) = (Inr True, st')"
        "bc_outputs st' = bc_outputs st" "at_write ok view net ss T st'" by blast
      have "nat (bc_writes_pending st') \<le> 64"
        using at_write_pending [OF st'(3)] st'(2) few by (simp add: nat_le_iff)
      then have "still ss T + nat (bc_writes_pending st') < m" using rd(2) by linarith
      from less.IH [OF this, of st' T] st' few
      have "\<exists>res st''. event_loop ur buf (ss_inp ss) st' = Some (res, st'') \<and> loop_over ok net ss res st''" by simp
      then show ?thesis using w st'(1) by (subst event_loop.simps) simp
    qed
  next
    case wr
    show ?thesis
    proof (cases "bc_writes_pending st = 0")
      case True
      with no_client_blocks [OF laws(1,3,4) whole wr(1)] show ?thesis by blast
    next
      case False
      from wr(1) False have "rv_outstanding (view (bc_ring st)) \<noteq> {#}"
        unfolding nv_empty [OF laws(3)] by (auto simp: at_write_def writing_def)
      from wait_succeeds [OF laws(1,4) this] obtain c r where w: "ur_wait_cqe ur (bc_ring st) = (Some (Inr c), r)" by metis
      from write_turn [OF laws(1-3) whole wr(1) w, of buf] obtain st' where
        st': "on_completion ur buf (ss_inp ss) c (st\<lparr>bc_ring := ur_cqe_seen ur c r\<rparr>) = (Inr True, st')"
        "length (bc_outputs st') \<le> length (bc_outputs st)"
        and turn: "(\<exists>T' > T. at_read ok view net ss T' st') \<or>
         at_write ok view net ss T st' \<and> bc_writes_pending st' = bc_writes_pending st - 1 \<and> 0 < bc_writes_pending st"
        by blast
      have few': "length (bc_outputs st') \<le> 64" using st'(2) few by (rule order_trans)
      from turn have "\<exists>res st''. event_loop ur buf (ss_inp ss) st' = Some (res, st'') \<and> loop_over ok net ss res st''"
      proof (elim disjE exE conjE)
        fix T' assume T': "T < T'" and rd: "at_read ok view net ss T' st'"
        then have "T' \<le> length (ss_bytes ss)" by (simp add: at_read_def reading_def)
        with T' have "still ss T' + 66 \<le> still ss T" by (simp add: still_def)
        then have "still ss T' + 65 < m" using wr(2) by simp
        from less.IH [OF this few', of T'] rd show ?thesis by blast
      next
        assume "at_write ok view net ss T st'" and "bc_writes_pending st' = bc_writes_pending st - 1" "0 < bc_writes_pending st"
        moreover from this have "still ss T + nat (bc_writes_pending st') < m" using wr(2) by simp
        ultimately show ?thesis using less.IH [OF _ few'] by blast
      qed
      then show ?thesis using w st'(1) by (subst event_loop.simps) simp
    qed
  qed
qed


section \<open>Properties\<close>

text \<open>The demonstration: three bytes to two clients.\<close>

definition net_demo_ring :: "net_world \<Rightarrow> queued net_ring" where
  "net_demo_ring w = \<lparr>nr_entries = 0, nr_pending = [], nr_batches = [], nr_drained = [], nr_waiting = [],
     nr_done = [], nr_world = w\<rparr>"

definition stream_world :: "c_int \<Rightarrow> byte list \<Rightarrow> net_world" where
  "stream_world inp d = \<lparr>nw_src = (\<lambda>fd. if fd = inp then d else []), nw_sink = (\<lambda>_. []), nw_mem = (\<lambda>_. [])\<rparr>"

abbreviation whole_answers :: "uring_op \<Rightarrow> int \<Rightarrow> bool" where
  "whole_answers op res \<equiv> writes_whole op res \<and> 0 \<le> res"

abbreviation full_uring :: "(queued sqe list \<Rightarrow> nat) \<Rightarrow> (queued, queued net_ring) uring" where
  "full_uring pick \<equiv> net_uring pick (\<lambda>e w. full_answer (sq_op e) w)"

lemma full_uring_laws: "net_laws whole_answers (full_uring pick) net_sim_view net_sim_net"
proof (rule net_uring_net_laws)
  fix e :: "queued sqe" and w
  show "whole_answers (sq_op e) (full_answer (sq_op e) w) \<and>
    answers (sq_op e) (full_answer (sq_op e) w) w (net_effect (sq_op e) (full_answer (sq_op e) w) w)"
    using full_answers [of "sq_op e" w] by (cases "sq_op e") (simp_all add: writes_whole_def)
qed

lemma whole_answers_le: "whole_answers \<le> writes_whole" "whole_answers \<le> reads_succeed"
  by (auto simp: le_fun_def writes_whole_def reads_succeed_def split: uring_op.splits)

text \<open>
  C15: the event loop is a broadcast. On streams, with a kernel that answers no write
  short or with \<open>EAGAIN\<close> and no read with an error, a broadcast to at most 64 different clients
  turns its loop a finite number of times, whatever the order the requests are carried out
  and completed in, and then returns, or, but only when no client is left, blocks for ever in
  a wait that nothing can end. Every client that is left has received exactly the input; a
  client is missing only if one of its writes could fail, and has received a beginning of the
  input; nobody else received anything.
\<close>

theorem event_broadcast_delivers:
  assumes "uring_laws ur view" "submits_all ur view" "init_succeeds ur" "waits_succeed ur"
    and "net_laws ok ur view net" "ok \<le> writes_whole" "ok \<le> reads_succeed"
    and "distinct outs" "length outs \<le> 64"
  shows "let w = nv_world (net r) in \<exists>res st. broadcast ur buf inp outs r = Some (res, st) \<and>
    (res = Inr () \<or> res = Inl Blocks \<and> bc_outputs st = []) \<and> set (bc_outputs st) \<subseteq> set outs \<and>
    (let w' = nv_world (net (bc_ring st)) in
      (\<forall>fd \<in> set (bc_outputs st). nw_sink w' fd = nw_sink w fd @ nw_src w inp) \<and>
      (\<forall>fd \<in> set outs - set (bc_outputs st). mortal ok fd \<and> (\<exists>k. nw_sink w' fd = nw_sink w fd @ take k (nw_src w inp))) \<and>
      (\<forall>fd. fd \<notin> set outs \<longrightarrow> nw_sink w' fd = nw_sink w fd))"
proof -
  define w where "w = nv_world (net r)"
  let ?ss = "session_of inp outs w"
  obtain ret r1 where i: "ur_init ur NET_Q_DEPTH r = (ret, r1)" "0 \<le> ret"
    using assms(3) by (metis init_succeeds_def fst_conv surj_pair)
  have ready: "bc_ready view r1"
    using uring_lawsD(1) [OF assms(1), unfolded init_law_def, rule_format, of 6 r ret r1] i
    by (simp add: bc_ready_def NET_Q_DEPTH_def)
  obtain r2 where r2: "start_read ur buf inp r1 = (Inr (), r2)"
    using submit_read_ok [OF assms(1,2) ready] by (auto simp: start_read_def)
  let ?st = "\<lparr>bc_ring = r2, bc_outputs = outs, bc_writes_pending = 0\<rparr>"
  have init: "bc_initial ur buf inp outs r ?st" using i r2 by (simp add: bc_initial_def)
  from initial_at_read [OF assms(1,2,5) init assms(8)] have rd: "at_read ok view net ?ss 0 ?st" by (simp add: w_def)
  have "\<exists>res st'. event_loop ur buf (ss_inp ?ss) ?st = Some (res, st') \<and> loop_over ok net ?ss res st'"
    by (rule loop_ends [OF assms(1,2,5,4,6,7), where T = 0]) (use rd assms(9) in auto)
  then obtain res st' where st': "event_loop ur buf inp ?st = Some (res, st')" "loop_over ok net ?ss res st'"
    by (auto simp: session_of_def)
  have over: "nv_waiting (net (bc_ring st')) = {#}" "clients ok ?ss (bc_outputs st') (nv_world (net (bc_ring st')))"
    using st'(2) by (simp_all add: loop_over_def)
  define st where "st = (case res of Inl e \<Rightarrow> st' | Inr _ \<Rightarrow> st'\<lparr>bc_ring := ur_exit ur (bc_ring st')\<rparr>)"
  have b: "broadcast ur buf inp outs r = Some (res, st)"
    using i r2 st'(1) by (simp add: broadcast_def st_def split: sum.splits)
  have same: "bc_outputs st = bc_outputs st'" "nv_world (net (bc_ring st)) = nv_world (net (bc_ring st'))"
    using net_lawsD(7) [OF assms(5) over(1)] by (simp_all add: st_def split: sum.splits)
  show ?thesis
    unfolding w_def [symmetric] Let_def [of w]
  proof (intro exI conjI)
    show "broadcast ur buf inp outs r = Some (res, st)" by (rule b)
    show "res = Inr () \<or> res = Inl Blocks \<and> bc_outputs st = []" using st'(2) same by (auto simp: loop_over_def)
    show "set (bc_outputs st) \<subseteq> set outs" using over(2) same by (simp add: clients_def session_of_def)
    show "let w' = nv_world (net (bc_ring st)) in
      (\<forall>fd \<in> set (bc_outputs st). nw_sink w' fd = nw_sink w fd @ nw_src w inp) \<and>
      (\<forall>fd \<in> set outs - set (bc_outputs st). mortal ok fd \<and> (\<exists>k. nw_sink w' fd = nw_sink w fd @ take k (nw_src w inp))) \<and>
      (\<forall>fd. fd \<notin> set outs \<longrightarrow> nw_sink w' fd = nw_sink w fd)"
      using over(2) st'(2) unfolding same Let_def
      by (auto simp: clients_def session_of_def has_got_def loop_over_def)
  qed
qed

theorem event_broadcast_delivers_witness:
  "\<exists>st. broadcast (full_uring (\<lambda>es. length es - 1)) (\<lambda>_. 0) 3 [5, 6] (net_demo_ring (stream_world 3 [65, 66, 67])) =
      Some (Inr (), st) \<and>
    nw_sink (nr_world (bc_ring st)) 5 = [65, 66, 67] \<and> nw_sink (nr_world (bc_ring st)) 6 = [65, 66, 67]"
proof -
  let ?r = "net_demo_ring (stream_world 3 [65, 66, 67])" and ?ur = "full_uring (\<lambda>es :: queued sqe list. length es - 1)"
  have two: "distinct [5, 6 :: c_int]" "length [5, 6 :: c_int] \<le> 64" by simp_all
  have never: "\<not> mortal whole_answers fd" for fd by (simp add: mortal_def)
  from event_broadcast_delivers [OF net_uring_laws net_uring_ok(2,1,3) full_uring_laws whole_answers_le two,
      where buf = "\<lambda>_. 0" and inp = 3 and r = ?r, unfolded Let_def]
  obtain res st where b: "broadcast ?ur (\<lambda>_. 0) 3 [5, 6] ?r = Some (res, st)"
    and res: "res = Inr () \<or> res = Inl Blocks \<and> bc_outputs st = []"
    and got: "\<forall>fd \<in> set (bc_outputs st). nw_sink (nv_world (net_sim_net (bc_ring st))) fd =
        nw_sink (nv_world (net_sim_net ?r)) fd @ nw_src (nv_world (net_sim_net ?r)) 3"
    and dead: "\<forall>fd \<in> set [5, 6] - set (bc_outputs st). mortal whole_answers fd"
    by blast
  have both: "5 \<in> set (bc_outputs st)" "6 \<in> set (bc_outputs st)" using dead never by auto
  then have "res = Inr ()" using res by auto
  moreover have "nw_sink (nr_world (bc_ring st)) fd = [65, 66, 67]" if "fd \<in> set (bc_outputs st)" for fd
    using got that by (simp add: net_sim_net_def net_demo_ring_def stream_world_def)
  ultimately show ?thesis using b both by blast
qed

text \<open>
  C18: the clients advance together. On streams, with at most 64 different clients and a
  kernel that answers no write short or with \<open>EAGAIN\<close> (without that it is false,
  \<open>Broadcaster_Faults\<close>), in every state the loop reaches each client that is left has received
  a beginning of the input, and no two of them are more than one chunk apart.
\<close>

theorem clients_in_lockstep:
  assumes "uring_laws ur view" "submits_all ur view" "net_laws ok ur view net" "ok \<le> writes_whole"
    and "distinct outs" "length outs \<le> 64"
    and "bc_initial ur buf inp outs r st0" "(bc_turn ur buf inp)\<^sup>*\<^sup>* st0 st"
  defines "w \<equiv> nv_world (net r)"
  shows "\<exists>T. \<forall>fd \<in> set (bc_outputs st). \<exists>k. T \<le> k \<and> k \<le> T + 4096 \<and>
    nw_sink (nv_world (net (bc_ring st))) fd = nw_sink w fd @ take k (nw_src w inp)"
proof -
  have "under_way ok view net (session_of inp outs w) st"
    unfolding w_def by (rule invariant_system.reachable_inv [OF under_way_system [OF assms(1-6)] assms(7,8)])
  from under_way_lockstep [OF this] show ?thesis by (simp add: has_got_def session_of_def)
qed


lemma net_uring_sel:
  "ur_get_sqe (net_uring pick res) s = (length (nr_pending s) < nr_entries s, s)"
  "ur_prep (net_uring pick res) e s = s\<lparr>nr_pending := nr_pending s @ [e]\<rparr>"
  "ur_submit (net_uring pick res) s = net_sim_submit s"
  "ur_wait_cqe (net_uring pick res) s = (let s1 = (if nr_done s = [] then run_one pick res s else s)
         in (case nr_done s1 of [] \<Rightarrow> None | x # _ \<Rightarrow> Some (Inr (done_cqe x)), s1))"
  "ur_cqe_seen (net_uring pick res) c s = s\<lparr>nr_done := tl (nr_done s)\<rparr>"
  "ur_init (net_uring pick res) n s = (0, s\<lparr>nr_entries := n, nr_pending := [], nr_waiting := [], nr_done := []\<rparr>)"
  "ur_exit (net_uring pick res) s = s\<lparr>nr_pending := [], nr_waiting := [], nr_done := []\<rparr>"
  by (simp_all add: net_uring_def)

lemmas loop_run = net_uring_sel net_sim_submit_def done_cqe_def run_one_def on_completion_def start_read_def
  submit_read_def submit_write_def push_sqe_def read_sqe_def write_sqe_def Let_def

theorem clients_in_lockstep_witness:
  "\<exists>(st :: queued net_ring bc_state) T. nw_sink (nr_world (bc_ring st)) 6 = [65, 66, 67] \<and> nw_sink (nr_world (bc_ring st)) 5 = [] \<and>
     bc_outputs st = [5, 6] \<and>
     (\<forall>fd \<in> {5, 6}. \<exists>k. T \<le> k \<and> k \<le> T + 4096 \<and> nw_sink (nr_world (bc_ring st)) fd = take k [65, 66, 67])"
proof -
  let ?ur = "full_uring (\<lambda>es :: queued sqe list. length es - 1)" and ?buf = "\<lambda>_ :: queued net_ring. 0 :: ptr"
  let ?r = "net_demo_ring (stream_world 3 [65, 66, 67])"
  obtain st0 where init: "bc_initial ?ur ?buf 3 [5, 6] ?r st0"
    and st0: "st0 = \<lparr>bc_ring = ?r\<lparr>nr_entries := 64, nr_batches := [[read_of \<lparr>ss_inp = 3, ss_bytes = [], ss_sink = \<lambda>_. [], ss_outs = []\<rparr> 0]],
      nr_drained := [True], nr_waiting := [read_of \<lparr>ss_inp = 3, ss_bytes = [], ss_sink = \<lambda>_. [], ss_outs = []\<rparr> 0]\<rparr>,
      bc_outputs = [5, 6], bc_writes_pending = 0\<rparr>"
    by (simp add: bc_initial_def loop_run NET_Q_DEPTH_def net_demo_ring_def)
  obtain c1 r1 st1 c2 r2 st where
    1: "ur_wait_cqe ?ur (bc_ring st0) = (Some (Inr c1), r1)"
      "on_completion ?ur ?buf 3 c1 (st0\<lparr>bc_ring := ur_cqe_seen ?ur c1 r1\<rparr>) = (Inr True, st1)"
    and 2: "ur_wait_cqe ?ur (bc_ring st1) = (Some (Inr c2), r2)"
      "on_completion ?ur ?buf 3 c2 (st1\<lparr>bc_ring := ur_cqe_seen ?ur c2 r2\<rparr>) = (Inr True, st)"
    and got: "nw_sink (nr_world (bc_ring st)) 6 = [65, 66, 67]" "nw_sink (nr_world (bc_ring st)) 5 = []"
      "bc_outputs st = [5, 6]"
    by (simp add: st0 loop_run net_demo_ring_def stream_world_def CHUNK_def)
  have "(bc_turn ?ur ?buf 3)\<^sup>*\<^sup>* st0 st"
    using bc_turn.turn [OF 1] bc_turn.turn [OF 2] by (meson converse_rtranclp_into_rtranclp rtranclp.rtrancl_refl)
  from clients_in_lockstep [OF net_uring_laws net_uring_ok(2) full_uring_laws whole_answers_le(1) _ _ init this]
  obtain T where "\<forall>fd \<in> set (bc_outputs st). \<exists>k. T \<le> k \<and> k \<le> T + 4096 \<and>
      nw_sink (nr_world (bc_ring st)) fd = take k [65, 66, 67]"
    by (auto simp: net_sim_net_def net_demo_ring_def stream_world_def)
  with got show ?thesis by (intro exI [of _ st] exI [of _ T]) auto
qed

end
