(* ===== verification/Broadcaster_Faults.thy ===== *)
theory Broadcaster_Faults
  imports Broadcaster_Run
begin

text \<open>
  The event loop where the clients do not behave: a short write, and a write that would
  block. \<open>Broadcaster_Run\<close> excludes both; here are runs, on a kernel that keeps to its
  documentation, in which they happen.
\<close>

definition short_answer :: "nat \<Rightarrow> queued sqe \<Rightarrow> net_world \<Rightarrow> int" where
  "short_answer k e w = (case sq_op e of
     Op_write fd p n off \<Rightarrow> int (min k (unat n)) | op \<Rightarrow> full_answer op w)"

lemma short_answers:
  "answers (sq_op e) (short_answer k e w) w (net_effect (sq_op e) (short_answer k e w) w)"
  using full_answers [of "sq_op e" w] by (cases "sq_op e") (simp_all add: short_answer_def)

lemma unat_chunk:
  "length d \<le> 4096 \<Longrightarrow> unat (ucast (of_nat (length d) :: size_t) :: 32 word) = length d"
  by (simp add: unat_count unat_of_nat take_bit_nat_eq_self)

text \<open>
  C36: a short write is taken for a whole one. There is a kernel that behaves as documented
  and answers the write of a chunk with the \<open>k\<close> bytes it took, and with it the broadcast of
  that chunk returns with the client still in the list and only the first \<open>k\<close> bytes of the
  input received.
\<close>

theorem short_write_is_lost:
  assumes "d \<noteq> []" "length d \<le> 4096" "k < length d" "out \<noteq> inp"
  shows "\<exists>ur view net (r :: queued net_ring) st.
    uring_laws ur view \<and> submits_all ur view \<and> net_laws (\<lambda>_ _. True) ur view net \<and>
    nw_src (nv_world (net r)) inp = d \<and> nw_sink (nv_world (net r)) out = [] \<and>
    broadcast ur buf inp [out] r = Some (Inr (), st) \<and> bc_outputs st = [out] \<and>
    nw_sink (nv_world (net (bc_ring st))) out = take k d"
proof -
  let ?ur = "net_uring (\<lambda>_. 0) (short_answer k)" and ?r = "net_demo_ring (stream_world inp d)"
  have "net_laws (\<lambda>_ _. True) ?ur net_sim_view net_sim_net"
    by (rule net_uring_net_laws) (use short_answers in blast)
  moreover have "\<exists>st. broadcast ?ur buf inp [out] ?r = Some (Inr (), st) \<and> bc_outputs st = [out] \<and>
      nw_sink (nv_world (net_sim_net (bc_ring st))) out = take k d"
    using assms unat_chunk [OF assms(2)]
    by (simp add: broadcast_def loop_run NET_Q_DEPTH_def net_demo_ring_def)
       ((subst event_loop.simps, simp add: loop_run stream_world_def CHUNK_def short_answer_def net_sim_net_def)+)
  moreover have "nw_src (nv_world (net_sim_net ?r)) inp = d" "nw_sink (nv_world (net_sim_net ?r)) out = []"
    by (simp_all add: net_sim_net_def net_demo_ring_def stream_world_def)
  ultimately show ?thesis using net_uring_laws net_uring_ok(2) by blast
qed

theorem short_write_is_lost_witness:
  "\<exists>ur view net (r :: queued net_ring) st.
    uring_laws ur view \<and> submits_all ur view \<and> net_laws (\<lambda>_ _. True) ur view net \<and>
    nw_src (nv_world (net r)) 3 = [65, 66] \<and>
    broadcast ur (\<lambda>_. 0) 3 [5] r = Some (Inr (), st) \<and> nw_sink (nv_world (net (bc_ring st))) 5 = [65]"
  using short_write_is_lost [of "[65, 66]" 1 5 3 "\<lambda>_. 0"] by fastforce

definition again_answer :: "c_int \<Rightarrow> queued sqe \<Rightarrow> net_world \<Rightarrow> int" where
  "again_answer a e w = (case sq_op e of
     Op_write fd p n off \<Rightarrow> if fd = a then - EAGAIN else int (unat n) | op \<Rightarrow> full_answer op w)"

lemma again_answers:
  "answers (sq_op e) (again_answer a e w) w (net_effect (sq_op e) (again_answer a e w) w)"
  using full_answers [of "sq_op e" w] by (cases "sq_op e") (simp_all add: again_answer_def errno_defs)

text \<open>
  C35: a write that would block is repeated as a read from the client, into the buffer the
  others are still to be written from. There is a kernel that behaves as documented and
  answers the write to one client with \<open>EAGAIN\<close> while that client has sent something itself;
  with it the other client receives those bytes in the place of the input's, and the first
  one nothing, and the broadcast returns as if both were served.
\<close>

theorem again_corrupts_chunk:
  assumes "d \<noteq> []" "length d \<le> 4096" "sent \<noteq> []" "length sent \<le> length d" "distinct [inp, a, b]"
  shows "\<exists>ur view net (r :: queued net_ring) st.
    uring_laws ur view \<and> submits_all ur view \<and> net_laws (\<lambda>_ _. True) ur view net \<and>
    nw_src (nv_world (net r)) inp = d \<and> nw_src (nv_world (net r)) a = sent \<and>
    (\<forall>fd. nw_sink (nv_world (net r)) fd = []) \<and>
    broadcast ur buf inp [b, a] r = Some (Inr (), st) \<and> bc_outputs st = [b, a] \<and>
    nw_sink (nv_world (net (bc_ring st))) b = sent @ drop (length sent) d \<and>
    nw_sink (nv_world (net (bc_ring st))) a = []"
proof -
  let ?ur = "net_uring (\<lambda>es. length es - 1) (again_answer a)"
  let ?r = "net_demo_ring \<lparr>nw_src = (\<lambda>_. [])(inp := d, a := sent), nw_sink = (\<lambda>_. []), nw_mem = (\<lambda>_. [])\<rparr>"
  have "net_laws (\<lambda>_ _. True) ?ur net_sim_view net_sim_net"
    by (rule net_uring_net_laws) (use again_answers in blast)
  moreover have "\<exists>st. broadcast ?ur buf inp [b, a] ?r = Some (Inr (), st) \<and> bc_outputs st = [b, a] \<and>
      nw_sink (nv_world (net_sim_net (bc_ring st))) b = sent @ drop (length sent) d \<and>
      nw_sink (nv_world (net_sim_net (bc_ring st))) a = []"
    using assms unat_chunk [OF assms(2)]
    by (simp add: broadcast_def loop_run NET_Q_DEPTH_def net_demo_ring_def)
       ((subst event_loop.simps, simp add: loop_run CHUNK_def again_answer_def net_sim_net_def errno_defs)+)
  moreover have "nw_src (nv_world (net_sim_net ?r)) inp = d" "nw_src (nv_world (net_sim_net ?r)) a = sent"
    "\<forall>fd. nw_sink (nv_world (net_sim_net ?r)) fd = []"
    using assms(5) by (simp_all add: net_sim_net_def net_demo_ring_def)
  ultimately show ?thesis using net_uring_laws net_uring_ok(2) by blast
qed

theorem again_corrupts_chunk_witness:
  "\<exists>ur view net (r :: queued net_ring) st.
    uring_laws ur view \<and> submits_all ur view \<and> net_laws (\<lambda>_ _. True) ur view net \<and>
    nw_src (nv_world (net r)) 3 = [65, 66] \<and>
    broadcast ur (\<lambda>_. 0) 3 [6, 5] r = Some (Inr (), st) \<and> nw_sink (nv_world (net (bc_ring st))) 6 = [33, 66]"
  using again_corrupts_chunk [of "[65, 66]" "[33]" 3 5 6 "\<lambda>_. 0"] by fastforce

end
