(* ===== verification/Link_Kernel.thy ===== *)
theory Link_Kernel
  imports Uring_Exec
begin

text \<open>
  A kernel that does not always move all it is asked to. \<open>moved\<close> is the documented meaning of
  a result on the files, pipes and buffers of \<open>Uring_Exec\<close>: so many bytes, as far as the file
  or pipe has them and the pipe written to has room. A request that is linked and does not
  move everything breaks its chain, and the rest of the chain is answered \<open>ECANCELED\<close>
  without being carried out. \<open>link_step\<close> is one request of any chain, \<open>link_laws\<close> couples it
  with the calls of a ring, and \<open>link_path\<close> is what may happen between two states of one:
  submissions, requests carried out, completions consumed. When nothing is short or fails
  a path is a run of \<open>Uring_Exec\<close>.
\<close>

section \<open>Answers\<close>

fun asked :: "uring_op \<Rightarrow> nat" where
  "asked (Op_readv fd vs off) = iov_total vs"
| "asked (Op_writev fd vs off) = iov_total vs"
| "asked (Op_read fd p n off) = unat n"
| "asked (Op_write fd p n off) = unat n"
| "asked (Op_splice i off_in out off_out n flags) = unat n"
| "asked (Op_tee i out n flags) = unat n"

fun moved :: "pipe_ends \<Rightarrow> nat \<Rightarrow> uring_op \<Rightarrow> nat \<Rightarrow> world \<Rightarrow> world \<Rightarrow> bool" where
  "moved pipe_of cap (Op_readv fd vs off) k w w' \<longleftrightarrow>
     k \<le> length (drop (unat off) (wd_files w fd)) \<and> w' = mem_scatter (piece (unat off) k (wd_files w fd)) vs w"
| "moved pipe_of cap (Op_writev fd vs off) k w w' \<longleftrightarrow>
     w' = file_write fd (unat off) (take k (gather (wd_mem w) vs)) w"
| "moved pipe_of cap (Op_read fd p n off) k w w' \<longleftrightarrow>
     k \<le> length (drop (unat off) (wd_files w fd)) \<and>
     w' = mem_scatter (piece (unat off) k (wd_files w fd)) [\<lparr>iov_base = p, iov_len = ucast n\<rparr>] w"
| "moved pipe_of cap (Op_write fd p n off) k w w' \<longleftrightarrow>
     w' = file_write fd (unat off) (take k (gather (wd_mem w) [\<lparr>iov_base = p, iov_len = ucast n\<rparr>])) w"
| "moved pipe_of cap (Op_splice i off_in out off_out n flags) k w w' \<longleftrightarrow>
     (case (pipe_of i, pipe_of out) of
        (None, Some q) \<Rightarrow> k \<le> length (drop (unat off_in) (wd_files w i)) \<and> length (wd_pipes w q) + k \<le> cap \<and>
          w' = pipe_put q (piece (unat off_in) k (wd_files w i)) w
      | (Some p, None) \<Rightarrow> k \<le> length (wd_pipes w p) \<and>
          w' = pipe_drop p k (file_write out (unat off_out) (take k (wd_pipes w p)) w)
      | (Some p, Some q) \<Rightarrow> k \<le> length (wd_pipes w p) \<and> length (wd_pipes w q) + k \<le> cap \<and>
          w' = pipe_drop p k (pipe_put q (take k (wd_pipes w p)) w)
      | (None, None) \<Rightarrow> False)"
| "moved pipe_of cap (Op_tee i out n flags) k w w' \<longleftrightarrow>
     (case (pipe_of i, pipe_of out) of
        (Some p, Some q) \<Rightarrow> k \<le> length (wd_pipes w p) \<and> length (wd_pipes w q) + k \<le> cap \<and>
          w' = pipe_put q (take k (wd_pipes w p)) w
      | _ \<Rightarrow> False)"

definition result_of :: "pipe_ends \<Rightarrow> nat \<Rightarrow> uring_op \<Rightarrow> int \<Rightarrow> world \<Rightarrow> world \<Rightarrow> bool" where
  "result_of pipe_of cap op res w w' \<longleftrightarrow>
     (if res < 0 then w' = w else nat res \<le> asked op \<and> moved pipe_of cap op (nat res) w w')"

text \<open>A request that moves all it is asked for has the effect of \<open>Uring_Exec\<close>.\<close>

lemma gather_asked: "take (iov_total vs) (gather m vs) = gather m vs"
proof -
  have "length (gather m vs) \<le> iov_total vs" for vs by (induction vs) auto
  then show ?thesis by simp
qed

lemma moved_all: "moved pipe_of cap op (asked op) w w' \<Longrightarrow> w' = effect pipe_of op w"
proof (cases op)
  case (Op_write fd p n off)
  assume "moved pipe_of cap op (asked op) w w'"
  moreover have "unat n < 2 ^ 64" using unsigned_less [of n, where 'a = nat] by simp
  then have "unat (ucast n :: size_t) = unat n" by (simp add: unsigned_ucast_eq take_bit_nat_eq_self)
  ultimately show ?thesis using Op_write gather_asked [of "[\<lparr>iov_base = p, iov_len = ucast n\<rparr>]"] by simp
next
  case (Op_read fd p n off)
  assume "moved pipe_of cap op (asked op) w w'"
  with Op_read show ?thesis by simp
qed (auto simp: gather_asked split: option.splits)

section \<open>Steps\<close>

record 'd link_view =
  lv_chains :: "'d sqe list list"  \<comment> \<open>what is left of each chain in flight\<close>
  lv_done :: "('d sqe \<times> int) multiset"  \<comment> \<open>answered, the completion not consumed\<close>
  lv_log :: "('d sqe \<times> int) list"  \<comment> \<open>every answer given on this ring\<close>
  lv_world :: world

definition link_submit :: "'d sqe list \<Rightarrow> 'd link_view \<Rightarrow> 'd link_view" where
  "link_submit es v = v\<lparr>lv_chains := lv_chains v @ link_chains es\<rparr>"

definition link_seen :: "('d sqe \<times> int) multiset \<Rightarrow> 'd link_view \<Rightarrow> 'd link_view" where
  "link_seen X v = v\<lparr>lv_done := lv_done v - X\<rparr>"

text \<open>The answers a request's result makes for, its own and those of what it cancels.\<close>

definition severs :: "'d sqe \<Rightarrow> int \<Rightarrow> bool" where
  "severs e res \<longleftrightarrow> sq_link e \<and> res \<noteq> int (asked (sq_op e))"

definition answered :: "'d sqe \<Rightarrow> int \<Rightarrow> 'd sqe list \<Rightarrow> ('d sqe \<times> int) list" where
  "answered e res es = (e, res) # (if severs e res then map (\<lambda>f. (f, - ECANCELED)) es else [])"

inductive link_step :: "pipe_ends \<Rightarrow> nat \<Rightarrow> 'd link_view \<Rightarrow> 'd link_view \<Rightarrow> bool" for pipe_of cap where
  answer: "i < length (lv_chains v) \<Longrightarrow> lv_chains v ! i = e # es \<Longrightarrow>
    result_of pipe_of cap (sq_op e) res (lv_world v) w \<Longrightarrow>
    link_step pipe_of cap v (v\<lparr>lv_chains := (lv_chains v)[i := if severs e res then [] else es],
      lv_done := lv_done v + mset (answered e res es), lv_log := lv_log v @ answered e res es, lv_world := w\<rparr>)"

inductive_cases link_stepE: "link_step pipe_of cap v v'"

text \<open>
  What may happen to a ring between two states, with the batches submitted on the way, each
  marked if nothing was in flight before it.
\<close>

inductive link_path :: "pipe_ends \<Rightarrow> nat \<Rightarrow> 'd history \<Rightarrow> 'd link_view \<Rightarrow> 'd link_view \<Rightarrow> bool"
  for pipe_of cap where
  path_refl: "link_path pipe_of cap [] v v"
| path_step: "link_path pipe_of cap h v v1 \<Longrightarrow> link_step pipe_of cap v1 v2 \<Longrightarrow> link_path pipe_of cap h v v2"
| path_seen: "link_path pipe_of cap h v v1 \<Longrightarrow> X \<subseteq># lv_done v1 \<Longrightarrow> link_path pipe_of cap h v (link_seen X v1)"
| path_submit: "link_path pipe_of cap h v v1 \<Longrightarrow>
    link_path pipe_of cap (h @ [(b, all_run (lv_chains v1))]) v (link_submit b v1)"

lemma link_path_trans:
  "link_path pipe_of cap h' v1 v2 \<Longrightarrow> link_path pipe_of cap h v v1 \<Longrightarrow> link_path pipe_of cap (h @ h') v v2"
proof (induction rule: link_path.induct)
  case (path_submit h' v1 v2 b)
  from link_path.path_submit [OF path_submit.IH [OF path_submit.prems], of b] show ?case by simp
qed (auto intro: link_path.intros)

lemma link_path_steps: "(link_step pipe_of cap)\<^sup>*\<^sup>* v v' \<Longrightarrow> link_path pipe_of cap [] v v'"
  by (induction rule: rtranclp_induct) (auto intro: link_path.intros)

section \<open>Nothing short\<close>

text \<open>The log only grows, and a path on which every request moved all it asked for is a run.\<close>

abbreviation full_answers :: "('d sqe \<times> int) list \<Rightarrow> bool" where
  "full_answers xs \<equiv> \<forall>x \<in> set xs. snd x = int (asked (sq_op (fst x)))"

lemma link_step_full:
  assumes "link_step pipe_of cap v v'"
  obtains new where "new \<noteq> []" "lv_log v' = lv_log v @ new" "lv_done v' = lv_done v + mset new"
    "full_answers new \<Longrightarrow>
      kernel_step (effect pipe_of) (lv_chains v, lv_world v) (lv_chains v', lv_world v')"
  using assms
proof cases
  case (answer i e es res w)
  have "kernel_step (effect pipe_of) (lv_chains v, lv_world v) (lv_chains v', lv_world v')"
    if "full_answers (answered e res es)"
  proof -
    have res: "res = int (asked (sq_op e))" using that by (simp add: answered_def)
    then have "w = effect pipe_of (sq_op e) (lv_world v)"
      using answer(4) by (intro moved_all) (simp add: result_of_def)
    with run_head [OF answer(2,3), of "effect pipe_of" "lv_world v"] res answer(1) show ?thesis
      by (simp add: severs_def)
  qed
  with answer(1) show thesis by (intro that [of "answered e res es"]) (simp_all add: answered_def)
qed

lemma link_path_full:
  "link_path pipe_of cap h v v' \<Longrightarrow>
   \<exists>new. lv_log v' = lv_log v @ new \<and>
     (full_answers new \<longrightarrow> (\<forall>h'. (ring_step (effect pipe_of))\<^sup>*\<^sup>*
        (h @ h', lv_chains v, lv_world v) (h', lv_chains v', lv_world v')))"
proof (induction rule: link_path.induct)
  case (path_refl v)
  show ?case by (rule exI [of _ "[]"]) simp
next
  case (path_step h v v1 v2)
  then obtain new where new: "lv_log v1 = lv_log v @ new"
    "full_answers new \<Longrightarrow> (ring_step (effect pipe_of))\<^sup>*\<^sup>* (h @ h', lv_chains v, lv_world v) (h', lv_chains v1, lv_world v1)" for h'
    by blast
  obtain more where more: "lv_log v2 = lv_log v1 @ more"
    "full_answers more \<Longrightarrow> kernel_step (effect pipe_of) (lv_chains v1, lv_world v1) (lv_chains v2, lv_world v2)"
    by (rule link_step_full [OF path_step.hyps(2)]) (rule that)
  have "(ring_step (effect pipe_of))\<^sup>*\<^sup>* (h @ h', lv_chains v, lv_world v) (h', lv_chains v2, lv_world v2)"
    if full: "full_answers (new @ more)" for h'
  proof (rule rtranclp.rtrancl_into_rtrancl)
    show "(ring_step (effect pipe_of))\<^sup>*\<^sup>* (h @ h', lv_chains v, lv_world v) (h', lv_chains v1, lv_world v1)"
      using full by (intro new(2)) simp
    show "ring_step (effect pipe_of) (h', lv_chains v1, lv_world v1) (h', lv_chains v2, lv_world v2)"
      using full by (intro ring_run more(2)) simp
  qed
  then show ?case by (intro exI [of _ "new @ more"]) (simp add: new(1) more(1))
next
  case (path_seen h v v1 X)
  then show ?case by (simp add: link_seen_def)
next
  case (path_submit h v v1 b)
  then obtain new where new: "lv_log v1 = lv_log v @ new"
    "full_answers new \<Longrightarrow> (ring_step (effect pipe_of))\<^sup>*\<^sup>* (h @ h', lv_chains v, lv_world v) (h', lv_chains v1, lv_world v1)" for h'
    by blast
  have "(ring_step (effect pipe_of))\<^sup>*\<^sup>* ((h @ [(b, all_run (lv_chains v1))]) @ h', lv_chains v, lv_world v)
      (h', lv_chains v1 @ link_chains b, lv_world v1)" if full: "full_answers new" for h'
  proof (rule rtranclp.rtrancl_into_rtrancl)
    show "(ring_step (effect pipe_of))\<^sup>*\<^sup>* ((h @ [(b, all_run (lv_chains v1))]) @ h', lv_chains v, lv_world v)
        ((b, all_run (lv_chains v1)) # h', lv_chains v1, lv_world v1)"
      using new(2) [OF full, of "(b, all_run (lv_chains v1)) # h'"] by simp
  qed (simp add: ring_take)
  then show ?case by (intro exI [of _ new]) (simp add: new(1) link_submit_def)
qed

text \<open>An invariant of the requests in flight and the answers given, kept along a path.\<close>

lemma link_path_inv:
  assumes "link_path pipe_of cap h v v'" "P v"
    and "\<And>v v'. link_step pipe_of cap v v' \<Longrightarrow> P v \<Longrightarrow> P v'"
    and "\<And>v X. P v \<Longrightarrow> P (link_seen X v)"
    and "\<And>v b. b \<in> fst ` set h \<Longrightarrow> P v \<Longrightarrow> P (link_submit b v)"
  shows "P v'"
  using assms(1,2,5)
proof (induction rule: link_path.induct)
  case (path_submit h v v1 b)
  then show ?case by auto
qed (auto intro: assms(3,4))

section \<open>The ring\<close>

definition link_laws :: "pipe_ends \<Rightarrow> nat \<Rightarrow> ('d, 's) uring \<Rightarrow> ('s \<Rightarrow> 'd ring_view) \<Rightarrow>
    ('s \<Rightarrow> 'd link_view) \<Rightarrow> bool" where
  "link_laws pipe_of cap ur view lk \<longleftrightarrow>
     (\<forall>n s r s'. ur_init ur n s = (r, s') \<longrightarrow> 0 \<le> r \<longrightarrow>
        lk s' = \<lparr>lv_chains = [], lv_done = {#}, lv_log = [], lv_world = lv_world (lk s)\<rparr>) \<and>
     (\<forall>s b s'. ur_get_sqe ur s = (b, s') \<longrightarrow> lk s' = lk s) \<and>
     (\<forall>e s. lk (ur_prep ur e s) = lk s) \<and>
     (\<forall>s r s'. ur_submit ur s = (r, s') \<longrightarrow>
        (link_step pipe_of cap)\<^sup>*\<^sup>* (link_submit (take (nat r) (rv_pending (view s))) (lk s)) (lk s')) \<and>
     (\<forall>n s r s'. ur_submit_and_wait ur n s = (r, s') \<longrightarrow>
        (link_step pipe_of cap)\<^sup>*\<^sup>* (link_submit (take (nat r) (rv_pending (view s))) (lk s)) (lk s')) \<and>
     (\<forall>s x s'. ur_wait_cqe ur s = (x, s') \<longrightarrow> (link_step pipe_of cap)\<^sup>*\<^sup>* (lk s) (lk s') \<and>
        (\<forall>c. x = Some (Inr c) \<longrightarrow> (\<exists>y. y \<in># lv_done (lk s') \<and> c = done_cqe y \<and>
           lk (ur_cqe_seen ur c s') = link_seen {#y#} (lk s')))) \<and>
     (\<forall>s. \<exists>ys. ur_ready ur s = map done_cqe ys \<and> mset ys \<subseteq># lv_done (lk s) \<and>
        (\<forall>n. lk (ur_cq_advance ur n s) = link_seen (mset (take n ys)) (lk s))) \<and>
     (\<forall>s. all_run (lv_chains (lk s)) \<longrightarrow> lv_log (lk (ur_exit ur s)) = lv_log (lk s) \<and>
        lv_world (lk (ur_exit ur s)) = lv_world (lk s)) \<and>
     (\<forall>s. rv_outstanding (view s) =
        mset (map sq_data (concat (lv_chains (lk s)))) + image_mset (\<lambda>x. sq_data (fst x)) (lv_done (lk s)))"

lemma link_lawsD:
  assumes "link_laws pipe_of cap ur view lk"
  shows "ur_init ur n s = (r, s') \<Longrightarrow> 0 \<le> r \<Longrightarrow>
      lk s' = \<lparr>lv_chains = [], lv_done = {#}, lv_log = [], lv_world = lv_world (lk s)\<rparr>"
    and "ur_get_sqe ur s = (b, s') \<Longrightarrow> lk s' = lk s"
    and "lk (ur_prep ur e s) = lk s"
    and "ur_submit ur s = (r, s') \<Longrightarrow>
      (link_step pipe_of cap)\<^sup>*\<^sup>* (link_submit (take (nat r) (rv_pending (view s))) (lk s)) (lk s')"
    and "ur_submit_and_wait ur n s = (r, s') \<Longrightarrow>
      (link_step pipe_of cap)\<^sup>*\<^sup>* (link_submit (take (nat r) (rv_pending (view s))) (lk s)) (lk s')"
    and "ur_wait_cqe ur s = (x, s') \<Longrightarrow> (link_step pipe_of cap)\<^sup>*\<^sup>* (lk s) (lk s')"
    and "ur_wait_cqe ur s = (Some (Inr c), s') \<Longrightarrow>
      \<exists>y. y \<in># lv_done (lk s') \<and> c = done_cqe y \<and> lk (ur_cqe_seen ur c s') = link_seen {#y#} (lk s')"
    and "\<exists>ys. ur_ready ur s = map done_cqe ys \<and> mset ys \<subseteq># lv_done (lk s) \<and>
      (\<forall>n. lk (ur_cq_advance ur n s) = link_seen (mset (take n ys)) (lk s))"
    and "all_run (lv_chains (lk s)) \<Longrightarrow> lv_log (lk (ur_exit ur s)) = lv_log (lk s) \<and>
      lv_world (lk (ur_exit ur s)) = lv_world (lk s)"
    and "rv_outstanding (view s) =
      mset (map sq_data (concat (lv_chains (lk s)))) + image_mset (\<lambda>x. sq_data (fst x)) (lv_done (lk s))"
proof -
  note L = assms [unfolded link_laws_def]
  note L2 = L [THEN conjunct2] note L3 = L2 [THEN conjunct2] note L4 = L3 [THEN conjunct2]
  note L5 = L4 [THEN conjunct2] note L6 = L5 [THEN conjunct2] note L7 = L6 [THEN conjunct2]
  note L8 = L7 [THEN conjunct2] note L9 = L8 [THEN conjunct2]
  show "ur_init ur n s = (r, s') \<Longrightarrow> 0 \<le> r \<Longrightarrow>
      lk s' = \<lparr>lv_chains = [], lv_done = {#}, lv_log = [], lv_world = lv_world (lk s)\<rparr>"
    using L [THEN conjunct1] by blast
  show "ur_get_sqe ur s = (b, s') \<Longrightarrow> lk s' = lk s" using L2 [THEN conjunct1] by blast
  show "lk (ur_prep ur e s) = lk s" using L3 [THEN conjunct1] by blast
  show "ur_submit ur s = (r, s') \<Longrightarrow>
      (link_step pipe_of cap)\<^sup>*\<^sup>* (link_submit (take (nat r) (rv_pending (view s))) (lk s)) (lk s')"
    using L4 [THEN conjunct1] by blast
  show "ur_submit_and_wait ur n s = (r, s') \<Longrightarrow>
      (link_step pipe_of cap)\<^sup>*\<^sup>* (link_submit (take (nat r) (rv_pending (view s))) (lk s)) (lk s')"
    using L5 [THEN conjunct1] by blast
  show "ur_wait_cqe ur s = (x, s') \<Longrightarrow> (link_step pipe_of cap)\<^sup>*\<^sup>* (lk s) (lk s')"
    using L6 [THEN conjunct1] by blast
  show "ur_wait_cqe ur s = (Some (Inr c), s') \<Longrightarrow>
      \<exists>y. y \<in># lv_done (lk s') \<and> c = done_cqe y \<and> lk (ur_cqe_seen ur c s') = link_seen {#y#} (lk s')"
    using L6 [THEN conjunct1] by blast
  show "\<exists>ys. ur_ready ur s = map done_cqe ys \<and> mset ys \<subseteq># lv_done (lk s) \<and>
      (\<forall>n. lk (ur_cq_advance ur n s) = link_seen (mset (take n ys)) (lk s))"
    using L7 [THEN conjunct1] by blast
  show "all_run (lv_chains (lk s)) \<Longrightarrow> lv_log (lk (ur_exit ur s)) = lv_log (lk s) \<and>
      lv_world (lk (ur_exit ur s)) = lv_world (lk s)"
    using L8 [THEN conjunct1] by blast
  show "rv_outstanding (view s) =
      mset (map sq_data (concat (lv_chains (lk s)))) + image_mset (\<lambda>x. sq_data (fst x)) (lv_done (lk s))"
    using L9 by blast
qed

text \<open>With nothing outstanding, nothing is in flight and nothing is left to consume.\<close>

lemma link_idle:
  assumes "link_laws pipe_of cap ur view lk" "rv_outstanding (view s) = {#}"
  shows "all_run (lv_chains (lk s))" "lv_done (lk s) = {#}"
  using link_lawsD(10) [OF assms(1), of s] assms(2) by (auto simp: all_run_def)

section \<open>A concrete ring\<close>

text \<open>
  The requests of a submission are answered at once, chain by chain; \<open>res\<close> says what each
  answers. \<open>most\<close> is the answer that moves all it can.
\<close>

fun part_effect :: "pipe_ends \<Rightarrow> uring_op \<Rightarrow> nat \<Rightarrow> world \<Rightarrow> world" where
  "part_effect pipe_of (Op_readv fd vs off) k w = mem_scatter (piece (unat off) k (wd_files w fd)) vs w"
| "part_effect pipe_of (Op_writev fd vs off) k w = file_write fd (unat off) (take k (gather (wd_mem w) vs)) w"
| "part_effect pipe_of (Op_read fd p n off) k w =
     mem_scatter (piece (unat off) k (wd_files w fd)) [\<lparr>iov_base = p, iov_len = ucast n\<rparr>] w"
| "part_effect pipe_of (Op_write fd p n off) k w =
     file_write fd (unat off) (take k (gather (wd_mem w) [\<lparr>iov_base = p, iov_len = ucast n\<rparr>])) w"
| "part_effect pipe_of (Op_splice i off_in out off_out n flags) k w =
     (case (pipe_of i, pipe_of out) of
        (None, Some q) \<Rightarrow> pipe_put q (piece (unat off_in) k (wd_files w i)) w
      | (Some p, None) \<Rightarrow> pipe_drop p k (file_write out (unat off_out) (take k (wd_pipes w p)) w)
      | (Some p, Some q) \<Rightarrow> pipe_drop p k (pipe_put q (take k (wd_pipes w p)) w)
      | (None, None) \<Rightarrow> w)"
| "part_effect pipe_of (Op_tee i out n flags) k w =
     (case (pipe_of i, pipe_of out) of
        (Some p, Some q) \<Rightarrow> pipe_put q (take k (wd_pipes w p)) w
      | _ \<Rightarrow> w)"

fun most :: "pipe_ends \<Rightarrow> nat \<Rightarrow> uring_op \<Rightarrow> world \<Rightarrow> int" where
  "most pipe_of cap (Op_readv fd vs off) w = int (min (iov_total vs) (length (drop (unat off) (wd_files w fd))))"
| "most pipe_of cap (Op_writev fd vs off) w = int (iov_total vs)"
| "most pipe_of cap (Op_read fd p n off) w = int (min (unat n) (length (drop (unat off) (wd_files w fd))))"
| "most pipe_of cap (Op_write fd p n off) w = int (unat n)"
| "most pipe_of cap (Op_splice i off_in out off_out n flags) w =
     (case (pipe_of i, pipe_of out) of
        (None, Some q) \<Rightarrow> if length (wd_pipes w q) \<le> cap
          then int (min (unat n) (min (length (drop (unat off_in) (wd_files w i))) (cap - length (wd_pipes w q))))
          else - EAGAIN
      | (Some p, None) \<Rightarrow> int (min (unat n) (length (wd_pipes w p)))
      | (Some p, Some q) \<Rightarrow> if length (wd_pipes w q) \<le> cap
          then int (min (unat n) (min (length (wd_pipes w p)) (cap - length (wd_pipes w q)))) else - EAGAIN
      | (None, None) \<Rightarrow> - EINVAL)"
| "most pipe_of cap (Op_tee i out n flags) w =
     (case (pipe_of i, pipe_of out) of
        (Some p, Some q) \<Rightarrow> if length (wd_pipes w q) \<le> cap
          then int (min (unat n) (min (length (wd_pipes w p)) (cap - length (wd_pipes w q)))) else - EAGAIN
      | _ \<Rightarrow> - EINVAL)"

definition res_effect :: "pipe_ends \<Rightarrow> uring_op \<Rightarrow> int \<Rightarrow> world \<Rightarrow> world" where
  "res_effect pipe_of op res w = (if res < 0 then w else part_effect pipe_of op (nat res) w)"

lemma most_result: "result_of pipe_of cap op (most pipe_of cap op w) w (res_effect pipe_of op (most pipe_of cap op w) w)"
  by (cases op) (auto simp: result_of_def res_effect_def errno_defs split: option.splits simp del: of_nat_min of_nat_unat)

fun run_chain :: "pipe_ends \<Rightarrow> (uring_op \<Rightarrow> world \<Rightarrow> int) \<Rightarrow> 'd sqe list \<Rightarrow> world \<Rightarrow> ('d sqe \<times> int) list \<times> world" where
  "run_chain pipe_of res [] w = ([], w)"
| "run_chain pipe_of res (e # es) w =
     (let k = res (sq_op e) w; w1 = res_effect pipe_of (sq_op e) k w in
      if severs e k then (answered e k es, w1)
      else (case run_chain pipe_of res es w1 of (xs, w2) \<Rightarrow> ((e, k) # xs, w2)))"

fun run_chains :: "pipe_ends \<Rightarrow> (uring_op \<Rightarrow> world \<Rightarrow> int) \<Rightarrow> 'd sqe list list \<Rightarrow> world \<Rightarrow>
    ('d sqe \<times> int) list \<times> world" where
  "run_chains pipe_of res [] w = ([], w)"
| "run_chains pipe_of res (c # cs) w =
     (case run_chain pipe_of res c w of (xs, w1) \<Rightarrow>
        (case run_chains pipe_of res cs w1 of (ys, w2) \<Rightarrow> (xs @ ys, w2)))"

record 'd link_ring =
  lr_entries :: nat
  lr_pending :: "'d sqe list"
  lr_batches :: "'d sqe list list"
  lr_drained :: "bool list"
  lr_chains :: nat  \<comment> \<open>the number of chains run since the ring was set up\<close>
  lr_done :: "('d sqe \<times> int) list"
  lr_log :: "('d sqe \<times> int) list"
  lr_world :: world

definition link_sim_submit :: "pipe_ends \<Rightarrow> (uring_op \<Rightarrow> world \<Rightarrow> int) \<Rightarrow> 'd link_ring \<Rightarrow> int \<times> 'd link_ring" where
  "link_sim_submit pipe_of res s =
     (case run_chains pipe_of res (link_chains (lr_pending s)) (lr_world s) of (xs, w) \<Rightarrow>
        (int (length (lr_pending s)),
         s\<lparr>lr_pending := [], lr_batches := lr_batches s @ [lr_pending s], lr_drained := lr_drained s @ [lr_done s = []],
           lr_chains := lr_chains s + length (link_chains (lr_pending s)),
           lr_done := lr_done s @ xs, lr_log := lr_log s @ xs, lr_world := w\<rparr>))"

definition link_uring :: "pipe_ends \<Rightarrow> (uring_op \<Rightarrow> world \<Rightarrow> int) \<Rightarrow> ('d, 'd link_ring) uring" where
  "link_uring pipe_of res =
     \<lparr>ur_init = (\<lambda>n s. (0, s\<lparr>lr_entries := n, lr_pending := [], lr_chains := 0, lr_done := [], lr_log := []\<rparr>)),
      ur_get_sqe = (\<lambda>s. (length (lr_pending s) < lr_entries s, s)),
      ur_prep = (\<lambda>e s. s\<lparr>lr_pending := lr_pending s @ [e]\<rparr>),
      ur_submit = link_sim_submit pipe_of res,
      ur_submit_and_wait = (\<lambda>n. link_sim_submit pipe_of res),
      ur_wait_cqe = (\<lambda>s. (case lr_done s of [] \<Rightarrow> None | x # _ \<Rightarrow> Some (Inr (done_cqe x)), s)),
      ur_cqe_seen = (\<lambda>c s. s\<lparr>lr_done := tl (lr_done s)\<rparr>),
      ur_ready = (\<lambda>s. map done_cqe (lr_done s)),
      ur_cq_advance = (\<lambda>n s. s\<lparr>lr_done := drop n (lr_done s)\<rparr>),
      ur_exit = (\<lambda>s. s\<lparr>lr_pending := [], lr_done := []\<rparr>)\<rparr>"

definition link_sim_view :: "'d link_ring \<Rightarrow> 'd ring_view" where
  "link_sim_view s = \<lparr>rv_pending = lr_pending s, rv_entries = lr_entries s,
     rv_batches = lr_batches s, rv_drained = lr_drained s,
     rv_outstanding = mset (map (\<lambda>x. sq_data (fst x)) (lr_done s))\<rparr>"

definition link_sim_lk :: "'d link_ring \<Rightarrow> 'd link_view" where
  "link_sim_lk s = \<lparr>lv_chains = replicate (lr_chains s) [], lv_done = mset (lr_done s), lv_log = lr_log s,
     lv_world = lr_world s\<rparr>"

lemma run_chain_requests: "map fst (fst (run_chain pipe_of res c w)) = c"
  by (induction c arbitrary: w) (auto simp: Let_def answered_def comp_def split: prod.splits, metis fst_conv)

lemma run_chains_requests: "map fst (fst (run_chains pipe_of res cs w)) = concat cs"
proof (induction cs arbitrary: w)
  case (Cons c cs)
  obtain xs w1 where x: "run_chain pipe_of res c w = (xs, w1)" by fastforce
  obtain ys w2 where y: "run_chains pipe_of res cs w1 = (ys, w2)" by fastforce
  show ?case using run_chain_requests [of pipe_of res c w] Cons.IH [of w1] x y by simp
qed simp

lemma link_uring_laws: "uring_laws (link_uring pipe_of res :: ('d, 'd link_ring) uring) link_sim_view"
proof -
  let ?ur = "link_uring pipe_of res :: ('d, 'd link_ring) uring"
  have sub: "nat r \<le> length (rv_pending (link_sim_view s)) \<and> link_sim_view s' = view_submit (nat r) (link_sim_view s) \<and>
      size (rv_outstanding (link_sim_view s')) = length (ur_ready ?ur s')"
    if s': "link_sim_submit pipe_of res s = (r, s')" for s r and s' :: "'d link_ring"
  proof -
    obtain xs w where xs: "run_chains pipe_of res (link_chains (lr_pending s)) (lr_world s) = (xs, w)" by fastforce
    have fst: "map fst xs = lr_pending s"
      using run_chains_requests [of pipe_of res "link_chains (lr_pending s)" "lr_world s"] xs
      by (simp add: concat_link_chains)
    have "map (\<lambda>x. sq_data (fst x)) xs = map sq_data (lr_pending s)" unfolding fst [symmetric] by simp
    then have "image_mset (\<lambda>x. sq_data (fst x)) (mset xs) = image_mset sq_data (mset (lr_pending s))"
      by (metis mset_map)
    then show ?thesis
      using s' xs by (auto simp: link_sim_submit_def link_sim_view_def view_submit_def link_uring_def)
  qed
  have "init_law ?ur link_sim_view" by (simp add: init_law_def link_uring_def link_sim_view_def)
  moreover have "get_sqe_law ?ur link_sim_view"
    by (simp add: get_sqe_law_def link_uring_def link_sim_view_def view_push_def)
  moreover have "submit_law ?ur link_sim_view"
    using sub unfolding submit_law_def by (simp only: link_uring_def uring.simps) blast
  moreover have "submit_and_wait_law ?ur link_sim_view"
    unfolding submit_and_wait_law_def
  proof (intro allI impI)
    fix n s r s' assume "ur_submit_and_wait ?ur n s = (r, s')"
    then have "link_sim_submit pipe_of res s = (r, s')" by (simp add: link_uring_def)
    from sub [OF this] show "nat r \<le> length (rv_pending (link_sim_view s)) \<and>
        link_sim_view s' = view_submit (nat r) (link_sim_view s) \<and>
        (0 \<le> r \<longrightarrow> min n (size (rv_outstanding (link_sim_view s'))) \<le> length (ur_ready ?ur s'))"
      by (metis min.cobounded2)
  qed
  moreover have "wait_law ?ur link_sim_view"
    by (auto simp: wait_law_def link_uring_def link_sim_view_def view_consume_def done_cqe_def split: list.splits)
  moreover have "ready_law ?ur link_sim_view"
    unfolding ready_law_def
  proof (intro allI conjI)
    fix s n
    have c: "map cq_data (map done_cqe xs) = map (\<lambda>x. sq_data (fst x)) xs" for xs :: "('d sqe \<times> int) list"
      by (simp add: done_cqe_def)
    show "mset (map cq_data (ur_ready ?ur s)) \<subseteq># rv_outstanding (link_sim_view s)"
      unfolding link_uring_def by (simp only: uring.simps c) (simp add: link_sim_view_def)
    have "mset (map (\<lambda>x. sq_data (fst x)) (lr_done s)) =
        mset (map (\<lambda>x. sq_data (fst x)) (take n (lr_done s))) + mset (map (\<lambda>x. sq_data (fst x)) (drop n (lr_done s)))"
      by (metis append_take_drop_id map_append mset_append)
    then show "link_sim_view (ur_cq_advance ?ur n s) =
        view_consume (mset (map cq_data (take n (ur_ready ?ur s)))) (link_sim_view s)"
      unfolding link_uring_def by (simp only: uring.simps take_map c) (simp add: link_sim_view_def view_consume_def)
  qed
  moreover have "exit_law ?ur link_sim_view" by (simp add: exit_law_def link_uring_def link_sim_view_def)
  ultimately show ?thesis by (simp add: uring_laws_def)
qed

lemma link_uring_ok:
  "init_succeeds (link_uring pipe_of res)" "submits_all (link_uring pipe_of res) link_sim_view"
  "waits_succeed (link_uring pipe_of res)"
  by (auto simp: init_succeeds_def submits_all_def waits_succeed_def link_uring_def link_sim_submit_def
      link_sim_view_def split: list.splits prod.splits)

lemma run_chain_steps:
  assumes res: "\<And>op w. result_of pipe_of cap op (res op w) w (res_effect pipe_of op (res op w) w)"
  shows "run_chain pipe_of res c (lv_world v) = (xs, w) \<Longrightarrow> lv_chains v = fin @ c # cs \<Longrightarrow>
    (link_step pipe_of cap)\<^sup>*\<^sup>* v (v\<lparr>lv_chains := fin @ [] # cs, lv_done := lv_done v + mset xs,
      lv_log := lv_log v @ xs, lv_world := w\<rparr>)"
proof (induction c arbitrary: v xs)
  case Nil
  then have "v\<lparr>lv_chains := fin @ [] # cs, lv_done := lv_done v + mset xs, lv_log := lv_log v @ xs, lv_world := w\<rparr> = v"
    by (cases v) simp
  then show ?case by simp
next
  case (Cons e es)
  let ?k = "res (sq_op e) (lv_world v)"
  let ?w = "res_effect pipe_of (sq_op e) ?k (lv_world v)"
  let ?v = "v\<lparr>lv_chains := fin @ (if severs e ?k then [] else es) # cs, lv_done := lv_done v + mset (answered e ?k es),
    lv_log := lv_log v @ answered e ?k es, lv_world := ?w\<rparr>"
  have step: "link_step pipe_of cap v ?v"
    using answer [of "length fin" v e es pipe_of cap ?k ?w] res Cons.prems(2) by simp
  show ?case
  proof (cases "severs e ?k")
    case True
    with step Cons.prems(1) show ?thesis by (auto simp: Let_def)
  next
    case False
    obtain ys w2 where ys: "run_chain pipe_of res es ?w = (ys, w2)" by fastforce
    with False Cons.prems(1) have xs: "xs = (e, ?k) # ys" "w2 = w" by (simp_all add: Let_def)
    have "(link_step pipe_of cap)\<^sup>*\<^sup>* ?v (?v\<lparr>lv_chains := fin @ [] # cs, lv_done := lv_done ?v + mset ys,
        lv_log := lv_log ?v @ ys, lv_world := w\<rparr>)"
      by (rule Cons.IH) (use ys xs False in simp_all)
    with step show ?thesis
      using False by (simp add: xs answered_def converse_rtranclp_into_rtranclp)
  qed
qed

lemma run_chains_steps:
  assumes res: "\<And>op w. result_of pipe_of cap op (res op w) w (res_effect pipe_of op (res op w) w)"
  shows "run_chains pipe_of res cs (lv_world v) = (xs, w) \<Longrightarrow> lv_chains v = fin @ cs \<Longrightarrow>
    (link_step pipe_of cap)\<^sup>*\<^sup>* v (v\<lparr>lv_chains := fin @ replicate (length cs) [], lv_done := lv_done v + mset xs,
      lv_log := lv_log v @ xs, lv_world := w\<rparr>)"
proof (induction cs arbitrary: v xs fin)
  case Nil
  then have "v\<lparr>lv_chains := fin @ [], lv_done := lv_done v + mset xs, lv_log := lv_log v @ xs, lv_world := w\<rparr> = v"
    by (cases v) simp
  then show ?case by simp
next
  case (Cons c cs)
  obtain ys w1 where ys: "run_chain pipe_of res c (lv_world v) = (ys, w1)" by fastforce
  obtain zs w2 where zs: "run_chains pipe_of res cs w1 = (zs, w2)" by fastforce
  have xs: "xs = ys @ zs" "w2 = w" using Cons.prems(1) ys zs by simp_all
  let ?v = "v\<lparr>lv_chains := fin @ [] # cs, lv_done := lv_done v + mset ys, lv_log := lv_log v @ ys, lv_world := w1\<rparr>"
  have "(link_step pipe_of cap)\<^sup>*\<^sup>* v ?v" by (rule run_chain_steps [OF res ys Cons.prems(2)])
  moreover have "(link_step pipe_of cap)\<^sup>*\<^sup>* ?v (?v\<lparr>lv_chains := (fin @ [[]]) @ replicate (length cs) [],
      lv_done := lv_done ?v + mset zs, lv_log := lv_log ?v @ zs, lv_world := w\<rparr>)"
    by (rule Cons.IH) (use zs xs in simp_all)
  ultimately show ?case by (simp add: xs add.assoc)
qed

lemma link_uring_link_laws:
  assumes res: "\<And>op w. result_of pipe_of cap op (res op w) w (res_effect pipe_of op (res op w) w)"
  shows "link_laws pipe_of cap (link_uring pipe_of res :: ('d, 'd link_ring) uring) link_sim_view link_sim_lk"
proof -
  let ?ur = "link_uring pipe_of res :: ('d, 'd link_ring) uring"
  have submit: "(link_step pipe_of cap)\<^sup>*\<^sup>*
      (link_submit (take (nat r) (rv_pending (link_sim_view s))) (link_sim_lk s)) (link_sim_lk s')"
    if s': "link_sim_submit pipe_of res s = (r, s')" for s r and s' :: "'d link_ring"
  proof -
    obtain xs w where xs: "run_chains pipe_of res (link_chains (lr_pending s)) (lr_world s) = (xs, w)" by fastforce
    let ?v = "link_submit (lr_pending s) (link_sim_lk s)"
    have "run_chains pipe_of res (link_chains (lr_pending s)) (lv_world ?v) = (xs, w)"
      "lv_chains ?v = replicate (lr_chains s) [] @ link_chains (lr_pending s)"
      using xs by (simp_all add: link_submit_def link_sim_lk_def)
    from run_chains_steps [OF res this] show ?thesis
      using s' xs by (auto simp: link_sim_submit_def link_sim_view_def link_submit_def link_sim_lk_def replicate_add)
  qed
  show ?thesis
    unfolding link_laws_def
  proof (intro conjI allI impI)
    fix s r s' assume "ur_submit ?ur s = (r, s')"
    then show "(link_step pipe_of cap)\<^sup>*\<^sup>*
        (link_submit (take (nat r) (rv_pending (link_sim_view s))) (link_sim_lk s)) (link_sim_lk s')"
      by (intro submit) (simp add: link_uring_def)
  next
    fix n s r s' assume "ur_submit_and_wait ?ur n s = (r, s')"
    then show "(link_step pipe_of cap)\<^sup>*\<^sup>*
        (link_submit (take (nat r) (rv_pending (link_sim_view s))) (link_sim_lk s)) (link_sim_lk s')"
      by (intro submit) (simp add: link_uring_def)
  next
    fix s x s' c assume "ur_wait_cqe ?ur s = (x, s')" "x = Some (Inr c)"
    then obtain y ys where "lr_done s' = y # ys" "c = done_cqe y"
      by (auto simp: link_uring_def split: list.splits)
    then show "\<exists>y. y \<in># lv_done (link_sim_lk s') \<and> c = done_cqe y \<and>
        link_sim_lk (ur_cqe_seen ?ur c s') = link_seen {#y#} (link_sim_lk s')"
      by (intro exI [of _ y]) (simp add: link_uring_def link_sim_lk_def link_seen_def)
  next
    fix s
    have "mset xs - mset (take n xs) = mset (drop n xs)" for n and xs :: "('d sqe \<times> int) list"
      by (metis add_diff_cancel_left' append_take_drop_id mset_append)
    then show "\<exists>ys. ur_ready ?ur s = map done_cqe ys \<and> mset ys \<subseteq># lv_done (link_sim_lk s) \<and>
        (\<forall>n. link_sim_lk (ur_cq_advance ?ur n s) = link_seen (mset (take n ys)) (link_sim_lk s))"
      by (intro exI [of _ "lr_done s"]) (simp add: link_uring_def link_sim_lk_def link_seen_def)
  qed (auto simp: link_uring_def link_sim_lk_def link_sim_view_def)
qed

lemma most_link_laws: "link_laws pipe_of cap (link_uring pipe_of (most pipe_of cap)) link_sim_view link_sim_lk"
  by (rule link_uring_link_laws) (rule most_result)

text \<open>A ring with nothing done yet.\<close>

definition link_start :: "world \<Rightarrow> 'd link_ring" where
  "link_start w = \<lparr>lr_entries = 0, lr_pending = [], lr_batches = [], lr_drained = [], lr_chains = 0,
     lr_done = [], lr_log = [], lr_world = w\<rparr>"

end
