(* ===== verification/Splice_Answers.thy ===== *)
theory Splice_Answers
  imports Main_Rings Link_Kernel
begin

text \<open>
  The splice mode when requests are short or fail. What \<open>perform_splice_broadcast\<close> returns
  is what the requests that carry a byte count answered, on every path a kernel may take.
  If it is the number of outputs times the size, nothing was short and the outputs hold the
  input. If the pipes are smaller than a piece it is 0 and nothing is written: the first
  splice of every pair is short, which cancels the second.
\<close>

section \<open>What the total adds up\<close>

definition payment :: "uintptr sqe \<times> int \<Rightarrow> nat" where
  "payment x = (if sq_data (fst x) \<noteq> 0 then nat (snd x) else 0)"

abbreviation paid :: "(uintptr sqe \<times> int) list \<Rightarrow> nat" where
  "paid xs \<equiv> sum_list (map payment xs)"

text \<open>What has been answered and consumed.\<close>

definition account :: "uintptr link_view \<Rightarrow> int" where
  "account v = int (paid (lv_log v)) - int (sum_mset (image_mset payment (lv_done v)))"

lemma account_step: "link_step pipe_of cap v v' \<Longrightarrow> account v' = account v"
  by (erule link_step_full) (simp add: account_def sum_mset_sum_list flip: mset_map)

lemma account_steps: "(link_step pipe_of cap)\<^sup>*\<^sup>* v v' \<Longrightarrow> account v' = account v"
  by (induction rule: rtranclp_induct) (simp_all add: account_step)

lemma account_seen:
  assumes "y \<in># lv_done v"
  shows "account (link_seen {#y#} v) = account v + int (payment y)"
proof -
  have "lv_done v = add_mset y (lv_done v - {#y#})" using assms by simp
  then have "sum_mset (image_mset payment (lv_done v)) =
      payment y + sum_mset (image_mset payment (lv_done v - {#y#}))"
    by (metis image_mset_add_mset sum_mset.add_mset)
  then show ?thesis by (simp add: account_def link_seen_def)
qed

lemma account_submit [simp]: "account (link_submit b v) = account v"
  by (simp add: account_def link_submit_def)

lemma splice_reap_link:
  assumes laws: "uring_laws ur view" "waits_succeed ur" and link: "link_laws pipe_of cap ur view lk"
  shows "size (rv_outstanding (view s)) = n \<Longrightarrow>
    \<exists>s'. splice_reap ur n v s = (Inr (0, v + of_int (account (lk s') - account (lk s))), s') \<and>
      view s' = view_consume (rv_outstanding (view s)) (view s) \<and> link_path pipe_of cap [] (lk s) (lk s')"
proof (induction n arbitrary: v s)
  case 0
  then show ?case by (simp add: view_consume_def link_path.path_refl)
next
  case (Suc n)
  then have "rv_outstanding (view s) \<noteq> {#}" by auto
  from wait_succeeds [OF laws this] obtain c s1 where
    c: "ur_wait_cqe ur s = (Some (Inr c), s1)" "cq_data c \<in># rv_outstanding (view s)"
      "view (ur_cqe_seen ur c s1) = view_consume {#cq_data c#} (view s)" by blast
  let ?s2 = "ur_cqe_seen ur c s1"
  note steps = link_lawsD(6) [OF link c(1)]
  obtain y where y: "y \<in># lv_done (lk s1)" "c = done_cqe y" "lk ?s2 = link_seen {#y#} (lk s1)"
    using link_lawsD(7) [OF link c(1)] by blast
  have acc: "account (lk ?s2) = account (lk s) + int (payment y)"
    using account_seen [OF y(1)] account_steps [OF steps] y(3) by simp
  have "link_path pipe_of cap [] (lk s) (lk ?s2)"
    unfolding y(3) by (rule link_path.path_seen [OF link_path_steps [OF steps]]) (use y(1) in simp)
  moreover have "(if cq_data c \<noteq> 0 \<and> 0 < cq_res c then v + of_int (cq_res c) else v) = v + of_nat (payment y)"
    by (auto simp: y(2) done_cqe_def payment_def)
  then have "splice_reap ur (Suc n) v s = splice_reap ur n (v + of_nat (payment y)) ?s2"
    using c(1) by simp
  moreover obtain s' where s':
    "splice_reap ur n (v + of_nat (payment y)) ?s2 =
       (Inr (0, v + of_nat (payment y) + of_int (account (lk s') - account (lk ?s2))), s')"
    "view s' = view_consume (rv_outstanding (view ?s2)) (view ?s2)" "link_path pipe_of cap [] (lk ?s2) (lk s')"
    using Suc.IH [of ?s2 "v + of_nat (payment y)"] Suc.prems c(2,3) by (auto simp: size_Diff_singleton)
  moreover have "view s' = view_consume (rv_outstanding (view s)) (view s)"
    using s'(2) c(2,3) by simp
  moreover have "v + of_nat (payment y) + of_int (account (lk s') - account (lk ?s2)) =
      v + (of_int (account (lk s') - account (lk s)) :: size_t)"
    by (simp add: acc)
  ultimately show ?case
    using link_path_trans [of pipe_of cap "[]" "lk ?s2" "lk s'" "[]" "lk s"] by auto
qed

definition link_account :: "pipe_ends \<Rightarrow> nat \<Rightarrow> ('s \<Rightarrow> uintptr link_view) \<Rightarrow> uintptr sqe list list \<Rightarrow> size_t \<Rightarrow>
    's \<Rightarrow> 's \<Rightarrow> bool" where
  "link_account pipe_of cap lk bs g s s' \<longleftrightarrow>
     link_path pipe_of cap (map (\<lambda>b. (b, True)) bs) (lk s) (lk s') \<and>
     g = of_int (account (lk s') - account (lk s))"

lemma link_reaping:
  assumes laws: "uring_laws ur view" "submits_all ur view" "waits_succeed ur"
    and link: "link_laws pipe_of cap ur view lk"
  shows "splice_reaping ur view (link_account pipe_of cap lk)"
proof
  show "uring_laws ur view" "submits_all ur view" by (rule laws)+
  show "link_account pipe_of cap lk [] 0 s s" for s
    by (simp add: link_account_def link_path.path_refl)
  show "link_account pipe_of cap lk (bs @ cs) (g + h) s s2"
    if "link_account pipe_of cap lk bs g s s1" "link_account pipe_of cap lk cs h s1 s2" for bs cs g h s s1 s2
    using that link_path_trans [of pipe_of cap "map (\<lambda>b. (b, True)) cs" "lk s1" "lk s2" "map (\<lambda>b. (b, True)) bs" "lk s"]
    by (simp add: link_account_def)
  show "link_account pipe_of cap lk [] 0 s s1" if "ur_get_sqe ur s = (b, s1)" for s b s1
    using link_lawsD(2) [OF link that] by (simp add: link_account_def link_path.path_refl)
  show "link_account pipe_of cap lk [] 0 s (ur_prep ur e s)" for s e
    by (simp add: link_account_def link_lawsD(3) [OF link] link_path.path_refl)
  show "\<exists>g s3. splice_reap ur (length (rv_pending (view s))) v s2 = (Inr (0, v + g), s3) \<and>
      view s3 = view_consume (rv_outstanding (view s2)) (view s2) \<and>
      link_account pipe_of cap lk [rv_pending (view s)] g s s3"
    if out: "rv_outstanding (view s) = {#}" and sub: "ur_submit ur s = (r, s2)" for s v r s2
  proof -
    have all: "nat r = length (rv_pending (view s))"
      using laws(2) sub by (metis submits_all_def fst_conv nat_int)
    let ?b = "rv_pending (view s)"
    have "(link_step pipe_of cap)\<^sup>*\<^sup>* (link_submit ?b (lk s)) (lk s2)"
      using link_lawsD(4) [OF link sub] by (simp add: all)
    then have steps: "link_path pipe_of cap [(?b, True)] (lk s) (lk s2)" "account (lk s2) = account (lk s)"
      using link_path_trans [OF link_path_steps link_path.path_submit [OF link_path.path_refl]]
        link_idle(1) [OF link out] account_steps by fastforce+
    have "size (rv_outstanding (view s2)) = length ?b"
      using submits_allD(1) [OF laws(1,2) sub] out by simp
    from splice_reap_link [OF laws(1,3) link this, of v] obtain s3 where
      s3: "splice_reap ur (length ?b) v s2 = (Inr (0, v + of_int (account (lk s3) - account (lk s2))), s3)"
        "view s3 = view_consume (rv_outstanding (view s2)) (view s2)" "link_path pipe_of cap [] (lk s2) (lk s3)"
      by blast
    have "link_account pipe_of cap lk [?b] (of_int (account (lk s3) - account (lk s2))) s s3"
      using link_path_trans [OF s3(3) steps(1)] steps(2) by (simp add: link_account_def)
    with s3 show ?thesis by blast
  qed
qed

interpretation link_ring: splice_reaping "link_uring pipe_of (most pipe_of cap)" link_sim_view
  "link_account pipe_of cap link_sim_lk" for pipe_of cap
  by (rule link_reaping [OF link_uring_laws link_uring_ok(2,3) most_link_laws])

text \<open>The whole call: one path from a fresh ring, and the sum of its payments.\<close>

definition link_fresh :: "world \<Rightarrow> uintptr link_view" where
  "link_fresh w = \<lparr>lv_chains = [], lv_done = {#}, lv_log = [], lv_world = w\<rparr>"

lemma splice_broadcast_link:
  assumes laws: "uring_laws ur view" "init_succeeds ur" "submits_all ur view" "waits_succeed ur"
    and link: "link_laws pipe_of cap ur view lk"
    and ports: "splice_ports outs dws drs" and sz: "0 \<le>s sz" "get_file_size fstat blk src = sz"
  obtains s' v where
    "perform_splice_broadcast ur fstat blk src outs dws drs s = (Inr (of_nat (paid (lv_log v))), s')"
    "link_path pipe_of cap
       (map (\<lambda>b. (b, True)) (map concat (splice_flushes [] (splice_pieces src outs dws drs (unat sz) 0))))
       (link_fresh (lv_world (lk s))) v"
    "all_run (lv_chains v)" "lv_world (lk s') = lv_world v"
proof -
  from splice_broadcast_reaps [OF link_reaping [OF laws(1,3,4) link] laws(2) ports sz, of s] obtain r s1 s2 g bs where
    i: "ur_init ur 512 s = (r, s1)" "0 \<le> r"
    and run: "perform_splice_broadcast ur fstat blk src outs dws drs s = (Inr g, ur_exit ur s2)"
      "link_account pipe_of cap lk bs g s1 s2" "rv_outstanding (view s2) = {#}"
      "bs = map concat (splice_flushes [] (splice_pieces src outs dws drs (unat sz) 0))" by blast
  note start = link_lawsD(1) [OF link i]
  note idle = link_idle [OF link run(3)]
  have "g = of_nat (paid (lv_log (lk s2)))"
    using run(2) start idle(2) by (simp add: link_account_def account_def)
  moreover have "link_path pipe_of cap (map (\<lambda>b. (b, True)) bs) (link_fresh (lv_world (lk s))) (lk s2)"
    using run(2) start by (simp add: link_account_def link_fresh_def)
  ultimately show thesis
    using that [of "lk s2" "ur_exit ur s2"] run(1,4) idle(1) link_lawsD(9) [OF link idle(1)] by blast
qed

section \<open>A full total\<close>

text \<open>
  Each chain in flight is a pair or the second half of one. The budget is what was paid and
  what the requests in flight may still pay: it never grows, and shrinks with every answer
  that is not full.
\<close>

definition pays :: "uintptr sqe \<Rightarrow> bool" where
  "pays e \<longleftrightarrow> \<not> sq_link e \<and> sq_data e \<noteq> 0 \<and> 0 < asked (sq_op e)"

definition feeds :: "uintptr sqe \<Rightarrow> bool" where
  "feeds e \<longleftrightarrow> sq_link e \<and> sq_data e = 0"

definition pair_rest :: "uintptr sqe list \<Rightarrow> bool" where
  "pair_rest c \<longleftrightarrow> c = [] \<or> (\<exists>w. pays w \<and> (c = [w] \<or> (\<exists>r. feeds r \<and> c = [r, w])))"

definition due :: "uintptr sqe list list \<Rightarrow> nat" where
  "due cs = sum_list (map (\<lambda>c. sum_list (map (\<lambda>e. if sq_data e = 0 then 0 else asked (sq_op e)) c)) cs)"

lemma due_simps [simp]:
  "due [] = 0" "due (c # cs) = sum_list (map (\<lambda>e. if sq_data e = 0 then 0 else asked (sq_op e)) c) + due cs"
  "due (cs @ ds) = due cs + due ds"
  by (simp_all add: due_def)

lemma due_update:
  "i < length cs \<Longrightarrow> due (cs[i := c]) + due [cs ! i] = due cs + due [c]"
  by (subst (3) id_take_nth_drop [of i cs], assumption, subst upd_conv_take_nth_drop, assumption) simp

definition budget :: "uintptr link_view \<Rightarrow> nat" where
  "budget v = paid (lv_log v) + due (lv_chains v)"

definition paired :: "uintptr link_view \<Rightarrow> bool" where
  "paired v \<longleftrightarrow> (\<forall>c \<in> set (lv_chains v). pair_rest c)"

text \<open>What is asked for and not received of one answer.\<close>

lemma payment_res: "0 \<le> res \<longrightarrow> nat res \<le> n \<Longrightarrow> payment (e, res) \<le> n \<and> (payment (e, res) = n \<longrightarrow> 0 < n \<longrightarrow> res = int n)"
  by (auto simp: payment_def)

lemma budget_step:
  assumes step: "link_step pipe_of cap v v'" and pairs: "paired v"
  shows "paired v'" "budget v' \<le> budget v"
    "budget v' = budget v \<Longrightarrow> full_answers (lv_log v) \<Longrightarrow> full_answers (lv_log v')"
proof -
  have "paired v' \<and> budget v' \<le> budget v \<and>
    (budget v' = budget v \<longrightarrow> full_answers (lv_log v) \<longrightarrow> full_answers (lv_log v'))"
    using step
  proof cases
    case (answer i e es res w)
    note due = due_update [OF answer(2), unfolded answer(3)]
    have res: "0 \<le> res \<longrightarrow> nat res \<le> asked (sq_op e)" using answer(4) by (auto simp: result_of_def)
    have "pair_rest (e # es)" using pairs answer(2,3) unfolding paired_def by (metis nth_mem)
    then consider "pays e" "es = []" | f where "feeds e" "pays f" "es = [f]" by (auto simp: pair_rest_def)
    then show ?thesis
    proof cases
      case 1
      have a: "answered e res [] = [(e, res)]" by (simp add: answered_def)
      have "paired v'" using pairs 1 unfolding answer(1) by (auto simp: paired_def pair_rest_def dest!: set_update_subset_insert [THEN subsetD])
      then show ?thesis
        using due [of "[]"] payment_res [OF res, of e] 1 unfolding answer(1)
        by (auto simp: budget_def a pays_def)
    next
      case 2
      have "paired v'" if "es' = [] \<or> es' = es" "v' = v\<lparr>lv_chains := (lv_chains v)[i := es'], lv_done := d, lv_log := l, lv_world := w\<rparr>"
        for es' d l
        using pairs 2 that by (auto simp: paired_def pair_rest_def dest!: set_update_subset_insert [THEN subsetD])
      then have "paired v'" using answer(1) by (auto split: if_splits)
      then show ?thesis
        using due [of "[]"] due [of es] 2 unfolding answer(1)
        by (auto simp: budget_def answered_def payment_def severs_def pays_def feeds_def errno_defs)
    qed
  qed
  then show "paired v'" "budget v' \<le> budget v"
    "budget v' = budget v \<Longrightarrow> full_answers (lv_log v) \<Longrightarrow> full_answers (lv_log v')" by blast+
qed

lemma budget_path:
  "link_path pipe_of cap h v v' \<Longrightarrow> paired v \<Longrightarrow> \<forall>b \<in> fst ` set h. \<forall>c \<in> set (link_chains b). pair_rest c \<Longrightarrow>
   paired v' \<and> budget v' \<le> budget v + sum_list (map (\<lambda>b. due (link_chains (fst b))) h) \<and>
   (budget v' = budget v + sum_list (map (\<lambda>b. due (link_chains (fst b))) h) \<longrightarrow> full_answers (lv_log v) \<longrightarrow>
      full_answers (lv_log v'))"
proof (induction rule: link_path.induct)
  case (path_step h v v1 v2)
  let ?due = "sum_list (map (\<lambda>b. due (link_chains (fst b))) h)"
  from path_step.IH [OF path_step.prems] have v1: "paired v1" "budget v1 \<le> budget v + ?due"
    "budget v1 = budget v + ?due \<Longrightarrow> full_answers (lv_log v) \<Longrightarrow> full_answers (lv_log v1)" by blast+
  note step = budget_step [OF path_step.hyps(2) v1(1)]
  have "full_answers (lv_log v2)" if "budget v2 = budget v + ?due" "full_answers (lv_log v)"
    using that step(2) v1(2) by (intro step(3) v1(3)) simp_all
  with step(1,2) v1(2) show ?case by auto
next
  case (path_seen h v v1 X)
  then show ?case by (simp add: paired_def budget_def link_seen_def)
next
  case (path_submit h v v1 b)
  then show ?case by (auto simp: paired_def budget_def link_submit_def)
qed simp

lemma splice_pairs_budget:
  assumes l: "0 < l" "l \<le> 262144"
  shows "c \<in> set (splice_pairs src outs dws drs t (of_nat l)) \<Longrightarrow> pair_rest c"
    and "due (splice_pairs src outs dws drs t (of_nat l)) = length outs * l"
proof -
  let ?l = "of_nat l :: size_t"
  have u: "unat ?l = l" using l by (simp add: unat_of_nat take_bit_eq_mod)
  have n: "unat (ucast ?l :: 32 word) = l" using l u by (simp add: unsigned_ucast_eq take_bit_eq_mod)
  have "?l AND 0xFFFFFFFF = ?l" using l u by (intro low_bits) simp
  moreover have "?l \<noteq> 0" using l u by auto
  ultimately have d: "?l AND 0xFFFFFFFF \<noteq> 0" by simp
  show "pair_rest c" if "c \<in> set (splice_pairs src outs dws drs t ?l)"
    using that d l n by (auto simp: splice_pairs_def pair_rest_def pays_def feeds_def splice_read_def splice_write_def)
  have "due (map (\<lambda>i. [splice_read src (dws ! i) t ?l, splice_write (drs ! i) (outs ! i) t ?l]) is) = length is * l" for "is"
    using d n by (induction "is") (simp_all add: splice_read_def splice_write_def)
  then show "due (splice_pairs src outs dws drs t ?l) = length outs * l" by (simp add: splice_pairs_def)
qed

lemma splice_pieces_budget:
  shows "\<forall>b \<in> set (map concat (splice_pieces src outs dws drs sz 0)). \<forall>c \<in> set (link_chains b). pair_rest c"
    and "sum_list (map (\<lambda>b. due (link_chains b)) (map concat (splice_pieces src outs dws drs sz 0))) = length outs * sz"
proof -
  have chains: "link_chains (concat (splice_pairs src outs dws drs t p)) = splice_pairs src outs dws drs t p" for t p
    by (rule chains_concat) (auto intro: linked_splice_pairs)
  have one: "0 < l \<and> l \<le> 262144" if "(q, l) \<in> set (plan 262144 sz 0)" for q l
    using plan_pieces [OF that] by simp
  show "\<forall>b \<in> set (map concat (splice_pieces src outs dws drs sz 0)). \<forall>c \<in> set (link_chains b). pair_rest c"
  proof (intro ballI)
    fix b c assume "b \<in> set (map concat (splice_pieces src outs dws drs sz 0))" and c: "c \<in> set (link_chains b)"
    then obtain q l where ql: "(q, l) \<in> set (plan 262144 sz 0)"
      "b = concat (splice_pairs src outs dws drs (of_nat q) (of_nat l))"
      by (auto simp: splice_pieces_def)
    from c have "c \<in> set (splice_pairs src outs dws drs (of_nat q) (of_nat l))" by (simp only: ql(2) chains)
    with one [OF ql(1)] show "pair_rest c" by (blast intro: splice_pairs_budget(1))
  qed
  have "sum_list (map (\<lambda>b. due (link_chains b)) (map concat (map (\<lambda>(q, l).
      splice_pairs src outs dws drs (of_nat q) (of_nat l)) ps))) = length outs * sum_list (map snd ps)"
    if "\<forall>(q, l) \<in> set ps. 0 < l \<and> l \<le> 262144" for ps
    using that by (induction ps) (auto simp: chains splice_pairs_budget(2) algebra_simps)
  from this [of "plan 262144 sz 0"] show "sum_list (map (\<lambda>b. due (link_chains b)) (map concat (splice_pieces src outs dws drs sz 0))) = length outs * sz"
    using one by (auto simp: splice_pieces_def plan_sum)
qed

text \<open>
  C12: the total certifies the copy, for a file of one piece and at most 256 outputs, or for
  exactly 256 outputs, with empty pipes of their own and outputs times size below $2^{64}$.
  Whatever the kernel then does with the requests -- moves less, fails, cancels the rest of a
  chain -- the call returns at most outputs times size; and if it returns just that, every
  output begins with the input's bytes, every other file is unchanged and the pipes are empty.
\<close>

theorem splice_total_certifies:
  assumes laws: "uring_laws ur view" "init_succeeds ur" "submits_all ur view" "waits_succeed ur"
    and link: "link_laws pipe_of cap ur view lk"
    and ports: "splice_ports outs dws drs"
    and size: "get_file_size fstat blk src = of_nat (length bytes)" "length bytes < 9223372036854775808"
      "length outs * length bytes < 18446744073709551616"
    and fits: "length outs = 256 \<or> (length outs \<le> 256 \<and> length bytes \<le> 262144)"
    and wired: "splice_wired pipe_of src outs dws drs"
    and w: "wd_files (lv_world (lk s)) src = bytes" "splice_empty pipe_of outs dws (lv_world (lk s))"
  shows "\<exists>g s'. perform_splice_broadcast ur fstat blk src outs dws drs s = (Inr g, s') \<and>
    unat g \<le> length outs * length bytes \<and>
    (unat g = length outs * length bytes \<longrightarrow>
       (\<forall>out \<in> set outs. wd_files (lv_world (lk s')) out =
          bytes @ drop (length bytes) (wd_files (lv_world (lk s)) out)) \<and>
       (\<forall>g. g \<notin> set outs \<longrightarrow> wd_files (lv_world (lk s')) g = wd_files (lv_world (lk s)) g) \<and>
       splice_empty pipe_of outs dws (lv_world (lk s')))"
proof -
  let ?sz = "of_nat (length bytes) :: off_t"
  have sz: "unat ?sz = length bytes" "0 \<le>s ?sz"
    using size(2) by (simp_all add: unat_of_nat take_bit_eq_mod nonneg_iff_unat64)
  let ?pss = "splice_pieces src outs dws drs (length bytes) 0" and ?w = "lv_world (lk s)"
  let ?h = "map (\<lambda>b. (b, True)) (map concat ?pss)"
  have count: "length ?pss \<le> 1" if "length bytes \<le> 262144"
    using that by (simp add: length_splice_pieces)
  have flushes: "splice_flushes [] ?pss = ?pss"
    by (rule splice_flushes_pieces [OF splice_pieces_len]) (use fits count in auto)
  obtain s' v where r: "perform_splice_broadcast ur fstat blk src outs dws drs s = (Inr (of_nat (paid (lv_log v))), s')"
    and path: "link_path pipe_of cap ?h (link_fresh ?w) v"
    and fin: "all_run (lv_chains v)" "lv_world (lk s') = lv_world v"
    by (rule splice_broadcast_link [OF laws link ports sz(2) size(1), of s, unfolded sz(1) flushes]) (rule that)
  have "paired (link_fresh ?w)" by (simp add: paired_def link_fresh_def)
  moreover have "\<forall>b \<in> fst ` set ?h. \<forall>c \<in> set (link_chains b). pair_rest c"
    using splice_pieces_budget(1) [of src outs dws drs "length bytes"] by auto
  moreover have "sum_list (map (\<lambda>b. due (link_chains (fst b))) ?h) = length outs * length bytes"
    using splice_pieces_budget(2) [of src outs dws drs "length bytes"] by (simp add: comp_def)
  moreover have "budget (link_fresh ?w) = 0" "full_answers (lv_log (link_fresh ?w))"
    by (simp_all add: budget_def link_fresh_def)
  moreover have "budget v = paid (lv_log v)"
  proof -
    have "due cs = 0" if "all_run cs" for cs using that by (induction cs) (auto simp: all_run_def)
    with fin(1) show ?thesis by (simp add: budget_def)
  qed
  ultimately have le: "paid (lv_log v) \<le> length outs * length bytes"
    and full: "paid (lv_log v) = length outs * length bytes \<Longrightarrow> full_answers (lv_log v)"
    using budget_path [OF path] by auto
  have "unat (of_nat (paid (lv_log v)) :: size_t) = paid (lv_log v)"
    using le size(3) by (simp add: unat_of_nat take_bit_eq_mod)
  moreover have "copied src outs bytes (wd_files ?w) (length bytes) (lv_world v) \<and> splice_empty pipe_of outs dws (lv_world v)"
    if "full_answers (lv_log v)"
  proof -
    have "(ring_step (effect pipe_of))\<^sup>*\<^sup>* (?h, [], ?w) ([], lv_chains v, lv_world v)"
      using link_path_full [OF path] that by (auto simp: link_fresh_def dest: spec [of _ "[]"])
    then have "runs_to (effect pipe_of) ?h ?w (lv_world v)" using fin(1) by (auto simp: runs_to_def)
    from splice_pieces_run [OF effect_exec_law order_refl wired _ _ copied_start [OF w(1)] w(2) drained_runs [OF this]]
    show ?thesis using size(2) by simp
  qed
  ultimately show ?thesis
    using r le full copied_end fin(2) by (intro exI [of _ "of_nat (paid (lv_log v))"] exI [of _ s']) auto
qed

text \<open>A pair that nothing hinders, on the concrete ring.\<close>

lemma run_chain_pair:
  assumes ends: "pipe_of src = None" "pipe_of dw = Some p" "pipe_of dr = Some p" "pipe_of out = None"
    and l: "l \<le> 262144" "l \<le> cap" "l \<le> length (wd_files w src)" and empty: "wd_pipes w p = []"
  shows "run_chain pipe_of (most pipe_of cap) [splice_read src dw 0 (of_nat l), splice_write dr out 0 (of_nat l)] w =
    ([(splice_read src dw 0 (of_nat l), int l), (splice_write dr out 0 (of_nat l), int l)],
     pipe_drop p l (file_write out 0 (take l (wd_files w src)) (pipe_put p (take l (wd_files w src)) w)))"
proof -
  have n: "unat (ucast (of_nat l :: size_t) :: 32 word) = l"
    using l(1) by (simp add: unsigned_ucast_eq unat_of_nat take_bit_eq_mod)
  show ?thesis
    using l by (simp add: splice_read_def splice_write_def ends empty Let_def n severs_def res_effect_def piece_def
        del: of_nat_unat)
qed

definition link_pipes :: pipe_ends where
  "link_pipes fd = (if fd = 20 \<or> fd = 21 then Some 0 else if fd = 22 \<or> fd = 23 then Some 1 else None)"

definition link_world :: world where
  "link_world = \<lparr>wd_files = (\<lambda>fd. if fd = 3 then [7, 8, 9] else []), wd_pipes = (\<lambda>p. []), wd_mem = (\<lambda>p. [])\<rparr>"

lemma link_run_full: "fst (perform_splice_broadcast (link_uring link_pipes (most link_pipes 262144)) (fixed_fstat 3)
    Map.empty 3 [5, 6] [20, 22] [21, 23] (link_start link_world)) = Inr 6"
proof -
  let ?ur = "link_uring link_pipes (most link_pipes 262144)"
  have w: "(0 :: off_t) <s 3" "\<not> (3 :: off_t) <s 3" "splice_step 3 0 = 3" by code_simp+
  have n: "unat (ucast (3 :: size_t) :: 32 word) = 3" "(3 :: size_t) AND 0xFFFFFFFF = 3" by code_simp+
  let ?r = "\<lambda>dw. splice_read 3 dw 0 3" and ?w = "\<lambda>dr out. splice_write dr out 0 3"
  let ?es = "[?r 20, ?w 21 5, ?r 22, ?w 23 6]"
  let ?s1 = "(link_start link_world)\<lparr>lr_entries := 512\<rparr>"
  have i: "ur_init ?ur 512 (link_start link_world) = (0, ?s1)"
    by (simp add: link_uring_def link_start_def)
  have o: "splice_outputs ?ur 3 [5, 6] [20, 22] [21, 23] 0 3 (length [5, 6 :: c_int]) 0 ?s1 = (Inr 4, ?s1\<lparr>lr_pending := ?es\<rparr>)"
    by (simp add: link_uring_def link_start_def Let_def)
  have c: "link_chains ?es = [[?r 20, ?w 21 5], [?r 22, ?w 23 6]]" by (simp add: splice_read_def splice_write_def)
  have one: "fst (run_chain link_pipes (most link_pipes 262144) [?r 20, ?w 21 5] link_world) = [(?r 20, 3), (?w 21 5, 3)]"
    using run_chain_pair [of link_pipes 3 20 0 21 5 3 262144 link_world] by (simp add: link_pipes_def link_world_def)
  have two: "fst (run_chain link_pipes (most link_pipes 262144) [?r 22, ?w 23 6]
      (snd (run_chain link_pipes (most link_pipes 262144) [?r 20, ?w 21 5] link_world))) = [(?r 22, 3), (?w 23 6, 3)]"
    using run_chain_pair [of link_pipes 3 20 0 21 5 3 262144 link_world]
      run_chain_pair [of link_pipes 3 22 1 23 6 3 262144 "snd (run_chain link_pipes (most link_pipes 262144) [?r 20, ?w 21 5] link_world)"]
    by (simp add: link_pipes_def link_world_def)
  let ?s2 = "snd (ur_submit ?ur (?s1\<lparr>lr_pending := ?es\<rparr>))"
  have s: "fst (ur_submit ?ur (?s1\<lparr>lr_pending := ?es\<rparr>)) = 4"
    "lr_done ?s2 = [(?r 20, 3), (?w 21 5, 3), (?r 22, 3), (?w 23 6, 3)]"
    using one two by (simp_all add: link_uring_def link_sim_submit_def link_start_def c case_prod_beta
        del: run_chain.simps link_chains.simps)
  then obtain s2 where sub: "ur_submit ?ur (?s1\<lparr>lr_pending := ?es\<rparr>) = (4, s2)"
    and d: "lr_done s2 = [(?r 20, 3), (?w 21 5, 3), (?r 22, 3), (?w 23 6, 3)]" by (metis prod.collapse)
  have four: "(4 :: nat) = Suc (Suc (Suc (Suc 0)))" by simp
  have r: "splice_reap ?ur 4 0 s2 = (Inr (0, 6), s2\<lparr>lr_done := []\<rparr>)"
    unfolding four using d by (simp add: link_uring_def done_cqe_def splice_read_def splice_write_def n)
  have last: "splice_loop ?ur 3 [5, 6] [20, 22] [21, 23] 3 3 6 0 s = (Inr 6, s)" for s
    by (subst splice_loop.simps) (simp add: w)
  have "splice_loop ?ur 3 [5, 6] [20, 22] [21, 23] 3 0 0 0 ?s1 = (Inr 6, s2\<lparr>lr_done := []\<rparr>)"
    by (subst splice_loop.simps)
       (simp only: w o sub r last Let_def prod.case sum.case add_0_left simp_thms if_True)
  then show ?thesis by (simp add: perform_splice_broadcast_def i)
qed

theorem splice_total_certifies_witness:
  "\<exists>s'. perform_splice_broadcast (link_uring link_pipes (most link_pipes 262144)) (fixed_fstat 3) Map.empty
      3 [5, 6] [20, 22] [21, 23] (link_start link_world) = (Inr 6, s') \<and>
    wd_files (lr_world s') 5 = [7, 8, 9] \<and> wd_files (lr_world s') 6 = [7, 8, 9] \<and> wd_files (lr_world s') 4 = []"
proof -
  let ?ur = "link_uring link_pipes (most link_pipes 262144)" and ?s = "link_start link_world"
  have ports: "splice_ports [5, 6] [20, 22] [21, 23]" by (simp add: splice_ports_def)
  have size: "get_file_size (fixed_fstat 3) Map.empty 3 = of_nat (length [7, 8, 9 :: byte])"
    "length [7, 8, 9 :: byte] < 9223372036854775808"
    "length [5, 6 :: c_int] * length [7, 8, 9 :: byte] < 18446744073709551616"
    using fixed_fstat_size [of 3 Map.empty 3] by simp_all
  have fits: "length [5, 6 :: c_int] = 256 \<or> (length [5, 6 :: c_int] \<le> 256 \<and> length [7, 8, 9 :: byte] \<le> 262144)" by simp
  have wired: "splice_wired link_pipes 3 [5, 6] [20, 22] [21, 23]"
    by (auto simp: splice_wired_def link_pipes_def less_Suc_eq)
  have w: "wd_files (lv_world (link_sim_lk ?s)) 3 = [7, 8, 9]"
    "splice_empty link_pipes [5, 6] [20, 22] (lv_world (link_sim_lk ?s))"
    by (simp_all add: splice_empty_def link_sim_lk_def link_start_def link_world_def)
  obtain s' where run: "perform_splice_broadcast ?ur (fixed_fstat 3) Map.empty 3 [5, 6] [20, 22] [21, 23] ?s = (Inr 6, s')"
    using link_run_full by (metis prod.collapse)
  have "unat (6 :: size_t) = length [5, 6 :: c_int] * length [7, 8, 9 :: byte]" by simp
  with splice_total_certifies [OF link_uring_laws link_uring_ok most_link_laws [of link_pipes 262144] ports size fits wired w] run
  show ?thesis by (auto simp: link_sim_lk_def link_start_def link_world_def)
qed

section \<open>Pipes too small\<close>

text \<open>A splice from a file that is larger than the pipe it fills is short, whatever the pipe holds.\<close>

definition starves :: "pipe_ends \<Rightarrow> nat \<Rightarrow> uintptr sqe \<Rightarrow> bool" where
  "starves pipe_of cap e \<longleftrightarrow> feeds e \<and>
     (case sq_op e of
        Op_splice i off_in out off_out n flags \<Rightarrow> pipe_of i = None \<and> pipe_of out \<noteq> None \<and> cap < unat n
      | _ \<Rightarrow> False)"

definition starved :: "pipe_ends \<Rightarrow> nat \<Rightarrow> (c_int \<Rightarrow> byte list) \<Rightarrow> uintptr link_view \<Rightarrow> bool" where
  "starved pipe_of cap files v \<longleftrightarrow>
     (\<forall>c \<in> set (lv_chains v). c = [] \<or> (\<exists>r w. starves pipe_of cap r \<and> c = [r, w])) \<and>
     paid (lv_log v) = 0 \<and> wd_files (lv_world v) = files"

lemma starved_result:
  assumes "starves pipe_of cap e" "result_of pipe_of cap (sq_op e) res w w'"
  shows "severs e res" "wd_files w' = wd_files w"
proof -
  obtain i off_in out off_out n flags q where op: "sq_op e = Op_splice i off_in out off_out n flags"
    and e: "sq_link e" "pipe_of i = None" "pipe_of out = Some q" "cap < unat n"
    using assms(1) by (auto simp: starves_def feeds_def split: uring_op.splits)
  have "\<not> res < 0 \<Longrightarrow> nat res \<le> cap \<and> wd_files w' = wd_files w"
    using assms(2) by (auto simp: result_of_def op e)
  then show "severs e res" "wd_files w' = wd_files w"
    using assms(2) e by (auto simp: severs_def op result_of_def simp del: of_nat_unat split: if_splits)
qed

lemma starved_step:
  assumes "link_step pipe_of cap v v'" "starved pipe_of cap files v"
  shows "starved pipe_of cap files v'"
  using assms(1)
proof cases
  case (answer i e es res w)
  have "e # es \<in> set (lv_chains v)" using answer(2,3) by (metis nth_mem)
  then obtain f where e: "starves pipe_of cap e" "es = [f]" using assms(2) by (auto simp: starved_def)
  note res = starved_result [OF e(1) answer(4)]
  have "payment (e, res) = 0" using e(1) by (simp add: payment_def starves_def feeds_def)
  moreover have "payment (f, - ECANCELED) = 0" by (simp add: payment_def errno_defs)
  ultimately show ?thesis
    using assms(2) res e(2) unfolding answer(1)
    by (auto simp: starved_def answered_def dest!: set_update_subset_insert [THEN subsetD])
qed

lemma set_splice_flushes:
  "xs \<in> set (splice_flushes pend pss) \<Longrightarrow> set xs \<subseteq> set pend \<union> set (concat pss)"
  by (induction pend pss rule: splice_flushes.induct) (fastforce simp: Let_def dest: in_set_takeD split: if_splits)+

text \<open>One piece, larger than the pipes.\<close>

lemma splice_broadcast_starves:
  assumes laws: "uring_laws ur view" "init_succeeds ur" "submits_all ur view" "waits_succeed ur"
    and link: "link_laws pipe_of cap ur view lk" and ports: "splice_ports outs dws drs"
    and size: "get_file_size fstat blk src = of_nat n" "cap < n" "n \<le> 262144"
    and wired: "splice_wired pipe_of src outs dws drs"
  obtains s' where "perform_splice_broadcast ur fstat blk src outs dws drs s = (Inr 0, s')"
    "wd_files (lv_world (lk s')) = wd_files (lv_world (lk s))"
proof -
  let ?sz = "of_nat n :: off_t" and ?w = "lv_world (lk s)"
  have sz: "unat ?sz = n" "0 \<le>s ?sz"
    using size(3) by (simp_all add: unat_of_nat take_bit_eq_mod nonneg_iff_unat64)
  have u: "unat (ucast ?sz :: 32 word) = n" using sz size(3) by (simp add: unsigned_ucast_eq take_bit_eq_mod)
  have "plan 262144 n 0 = [(0, n)]" using size by (simp add: plan_step)
  then have pss: "splice_pieces src outs dws drs n 0 = [splice_pairs src outs dws drs 0 ?sz]"
    by (simp add: splice_pieces_def)
  let ?h = "map (\<lambda>b. (b, True)) (map concat (splice_flushes [] (splice_pieces src outs dws drs n 0)))"
  obtain s' v where r: "perform_splice_broadcast ur fstat blk src outs dws drs s = (Inr (of_nat (paid (lv_log v))), s')"
    and path: "link_path pipe_of cap ?h (link_fresh ?w) v" and fin: "lv_world (lk s') = lv_world v"
    by (rule splice_broadcast_link [OF laws link ports sz(2) size(1), of s, unfolded sz(1)]) (rule that)
  have "starved pipe_of cap (wd_files ?w) v"
  proof (rule link_path_inv [OF path])
    show "starved pipe_of cap (wd_files ?w) (link_fresh ?w)" by (simp add: starved_def link_fresh_def)
    fix b v assume b: "b \<in> fst ` set ?h" and v: "starved pipe_of cap (wd_files ?w) v"
    from b obtain xs where xs: "b = concat xs" "set xs \<subseteq> set (splice_pairs src outs dws drs 0 ?sz)"
      unfolding pss using set_splice_flushes [of _ "[]" "[splice_pairs src outs dws drs 0 ?sz]"] by auto
    have "link_chains b = xs"
      unfolding xs(1) using xs(2) by (intro chains_concat) (auto intro: linked_splice_pairs)
    moreover have "\<exists>r w. starves pipe_of cap r \<and> c = [r, w]" if "c \<in> set xs" for c
    proof -
      from that xs(2) obtain i where "i < length outs"
        and c: "c = [splice_read src (dws ! i) 0 ?sz, splice_write (drs ! i) (outs ! i) 0 ?sz]"
        by (auto simp: splice_pairs_def)
      then have "pipe_of src = None" "pipe_of (dws ! i) \<noteq> None" using wired by (simp_all add: splice_wired_def)
      then have "starves pipe_of cap (splice_read src (dws ! i) 0 ?sz)"
        using size(2) u by (simp add: starves_def feeds_def splice_read_def)
      with c show ?thesis by blast
    qed
    ultimately show "starved pipe_of cap (wd_files ?w) (link_submit b v)"
      using v by (auto simp: starved_def link_submit_def)
  qed (simp_all add: starved_step, simp add: starved_def link_seen_def)
  then have z: "paid (lv_log v) = 0" and f: "wd_files (lv_world v) = wd_files ?w" unfolding starved_def by blast+
  have "(of_nat (paid (lv_log v)) :: size_t) = 0" unfolding z by simp
  with r fin f show thesis by (intro that [of s']) simp_all
qed

text \<open>
  The engine on such a ring, in \<open>main\<close>: the world of files and pipes is the kernel's, which
  the ring's state holds.
\<close>

definition link_machine :: "(uintptr, 's) uring \<Rightarrow> ('s \<Rightarrow> uintptr link_view) \<Rightarrow> (world \<Rightarrow> c_int \<Rightarrow> stat option) \<Rightarrow>
    c_int \<Rightarrow> c_int list \<Rightarrow> c_int list \<Rightarrow> c_int list \<Rightarrow> 's \<Rightarrow> (cpp_error + size_t) \<times> 's" where
  "link_machine ur lk fstat src outs ws rs s =
     perform_splice_broadcast ur (fstat (lv_world (lk s))) Map.empty src outs ws rs s"

abbreviation link_files :: "('s \<Rightarrow> uintptr link_view) \<Rightarrow> 's \<Rightarrow> c_int \<Rightarrow> byte list" where
  "link_files lk s \<equiv> wd_files (lv_world (lk s))"

text \<open>
  C20: pipes that could not be enlarged. \<open>main\<close> does not look at the result of
  \<open>F_SETPIPE_SZ\<close>. If the pipes hold less than the file, a file of one piece, then in mode 3
  the splice into each pipe is short and the one out of it is cancelled: \<open>main\<close> returns 0
  and every output is empty.
\<close>

theorem main_starves:
  assumes "main_file_laws mc ino (link_files lk) (\<lambda>s. wd_pipes (lv_world (lk s)))" "calls_succeed mc"
    and "4 \<le> length argv" "atoi (argv ! 1) = 3" "0 < atoi (argv ! 3)"
    and "en_splice en = splice_on_files (link_machine ur lk fstat)"
    and "uring_laws ur view" "init_succeeds ur" "submits_all ur view" "waits_succeed ur"
    and "link_laws pipe_of cap ur view lk" "stat_law fstat (\<lambda>w. w) pipe_of" "run_names ino pipe_of argv"
    and "cap < length (link_files lk s (ino (argv ! 2)))" "length (link_files lk s (ino (argv ! 2))) \<le> 262144"
  shows "\<exists>t' s'. main mc en argv (t, s) = (Inr 0, t', s') \<and>
    (\<forall>out \<in> set (out_files ino argv). link_files lk s' out = []) \<and>
    (\<forall>g. g \<notin> set (out_files ino argv) \<longrightarrow> link_files lk s' g = link_files lk s g)"
proof -
  let ?in = "ino (argv ! 2)" and ?outs = "out_files ino argv" and ?ps = "pipe_files ino argv"
  obtain s1 where s1: "\<And>g. link_files lk s1 g = (if g \<in> set ?outs then [] else link_files lk s g)"
    and main: "\<And>n s2. link_machine ur lk fstat ?in ?outs ?ps ?ps s1 = (Inr n, s2) \<Longrightarrow>
      \<exists>t' s'. main mc en argv (t, s) = (Inr 0, t', s') \<and> link_files lk s' = link_files lk s2"
    by (rule main_splice_run [OF assms(1-6), of s t]) blast
  have names: "?in \<notin> set ?outs" "pipe_of ?in = None" using assms(13) by (simp_all add: run_names_def)
  have ports: "splice_ports ?outs ?ps ?ps"
    using assms(5) by (simp add: splice_ports_def run_lengths length_0_conv [symmetric] del: length_0_conv)
  have size: "get_file_size (fstat (lv_world (lk s1))) Map.empty ?in = of_nat (length (link_files lk s ?in))"
    using stat_law_size [OF assms(12) names(2)] s1 [of ?in] names(1) by simp
  obtain s2 where s2: "perform_splice_broadcast ur (fstat (lv_world (lk s1))) Map.empty ?in ?outs ?ps ?ps s1 = (Inr 0, s2)"
    "link_files lk s2 = link_files lk s1"
    by (rule splice_broadcast_starves [OF assms(7-11) ports size assms(14,15) run_names_splice [OF assms(13)]])
  from main [of 0 s2] s2 s1 show ?thesis by (auto simp: link_machine_def)
qed

text \<open>With pipes of two bytes and three to copy.\<close>

definition link_empty :: "c_int \<Rightarrow> uintptr link_ring \<Rightarrow> uintptr link_ring" where
  "link_empty f s = s\<lparr>lr_world := (lr_world s)\<lparr>wd_files := (wd_files (lr_world s))(f := [])\<rparr>\<rparr>"

lemma link_main_laws:
  "main_file_laws (run_main link_empty ring_names) ring_names (link_files link_sim_lk)
     (\<lambda>s. wd_pipes (lv_world (link_sim_lk s)))"
  by (rule run_main_laws) (simp_all add: link_empty_def link_sim_lk_def)

lemma link_pipes_ok:
  "run_pipes_empty ring_names ring_pipes (ring_args n) (wd_pipes (lv_world (link_sim_lk (link_start ring_world))))"
  by (simp add: run_pipes_empty_def link_sim_lk_def link_start_def ring_world_def)

theorem main_starves_witness:
  "\<exists>t' s'. main (run_main link_empty ring_names)
      (ring_engines\<lparr>en_splice := splice_on_files
        (link_machine (link_uring ring_pipes (most ring_pipes 2)) link_sim_lk ring_stat)\<rparr>)
      (ring_args ''3'') ([], link_start ring_world) = (Inr 0, t', s') \<and>
    wd_files (lr_world s') 4 = [] \<and> wd_files (lr_world s') 5 = [] \<and> wd_files (lr_world s') 3 = [7, 8, 9]"
proof -
  let ?ur = "link_uring ring_pipes (most ring_pipes 2)"
  let ?en = "ring_engines\<lparr>en_splice := splice_on_files (link_machine ?ur link_sim_lk ring_stat)\<rparr>"
  have argv: "atoi (ring_args ''3'' ! 1) = 3" "0 < atoi (ring_args ''3'' ! 3)"
    unfolding ring_args_nth ring_run_names by simp_all
  have en: "en_splice ?en = splice_on_files (link_machine ?ur link_sim_lk ring_stat)" by simp
  have size: "2 < length (link_files link_sim_lk (link_start ring_world) (ring_names (ring_args ''3'' ! 2)))"
    "length (link_files link_sim_lk (link_start ring_world) (ring_names (ring_args ''3'' ! 2))) \<le> 262144"
    unfolding ring_args_nth by (simp_all add: link_sim_lk_def link_start_def ring_world_def)
  from main_starves [OF link_main_laws run_main_succeeds ring_args_nth(4) argv en link_uring_laws link_uring_ok
      most_link_laws ring_stat_law ring_names_ok(1) size, of "[]"]
  show ?thesis unfolding ring_run_names ring_args_nth
    by (auto simp: link_sim_lk_def link_start_def ring_world_def)
qed

end
