(* ===== verification/Tee_Answers.thy ===== *)
theory Tee_Answers
  imports Tee Link_Kernel
begin

text \<open>
  The tee mode when a request is short. \<open>perform_tee_broadcast\<close> adds up the byte counts its
  requests carry, for every answer that is not negative, and not what the answers say: on a
  kernel that moves less into an output than was asked, which it may, the total is that of
  a complete copy all the same.
\<close>

text \<open>A kernel that moves at most \<open>k\<close> bytes out of a pipe into a file at once, and otherwise all it can.\<close>

definition slow_output :: "pipe_ends \<Rightarrow> nat \<Rightarrow> nat \<Rightarrow> uring_op \<Rightarrow> world \<Rightarrow> int" where
  "slow_output pipe_of cap k op w =
     (case op of
        Op_splice i off_in out off_out n flags \<Rightarrow>
          (if pipe_of i \<noteq> None \<and> pipe_of out = None then min (int k) (most pipe_of cap op w)
           else most pipe_of cap op w)
      | _ \<Rightarrow> most pipe_of cap op w)"

lemma slow_output_result:
  "result_of pipe_of cap op (slow_output pipe_of cap k op w) w (res_effect pipe_of op (slow_output pipe_of cap k op w) w)"
proof (cases "\<exists>i a out b n f p. op = Op_splice i a out b n f \<and> pipe_of i = Some p \<and> pipe_of out = None")
  case True
  then show ?thesis
    by (auto simp: slow_output_def result_of_def res_effect_def min_def simp del: of_nat_unat of_nat_min)
next
  case False
  then have "slow_output pipe_of cap k op w = most pipe_of cap op w"
    by (auto simp: slow_output_def simp del: most.simps split: uring_op.splits)
  then show ?thesis by (simp add: most_result)
qed

text \<open>The chain of one piece for one output.\<close>

lemma run_chain_slow:
  assumes ends: "pipe_of src = None" "pipe_of sw = Some p" "pipe_of sr = Some p" "pipe_of out = None" "src \<noteq> out"
    and l: "l = length (wd_files w src)" "l \<le> 262144" "l \<le> cap" "k \<le> l" and empty: "wd_pipes w p = []"
  shows "\<exists>w'. run_chain pipe_of (slow_output pipe_of cap k) (tee_chain src sw sr [out] dws drs 0 (of_nat l)) w =
      (zip (tee_chain src sw sr [out] dws drs 0 (of_nat l)) [int l, int k], w') \<and>
    wd_files w' out = write_at (wd_files w out) 0 (take k (wd_files w src))"
proof -
  have n: "unat (ucast (of_nat l :: size_t) :: 32 word) = l"
    using l(2) by (simp add: unsigned_ucast_eq unat_of_nat take_bit_eq_mod)
  show ?thesis
    using l(3,4) l(1) [symmetric] ends(5)
    by (simp add: tee_chain_def slow_output_def ends empty Let_def n severs_def res_effect_def piece_def min_def
        del: of_nat_unat)
qed

lemma slow_link_laws:
  "link_laws pipe_of cap (link_uring pipe_of (slow_output pipe_of cap k)) link_sim_view link_sim_lk"
  by (rule link_uring_link_laws) (rule slow_output_result)

text \<open>
  C21: the tee broadcast reports bytes that were not written. There is a kernel that behaves
  as documented and moves only the first \<open>k\<close> bytes of a piece into the one output: the call
  returns the size of the file, the output ends with those \<open>k\<close> bytes.
\<close>

theorem tee_total_overstates:
  assumes size: "get_file_size fstat blk src = of_nat (length bytes)" "bytes \<noteq> []" "length bytes \<le> 262144"
      "length bytes \<le> cap" "k \<le> length bytes"
    and ends: "pipe_of src = None" "pipe_of sw = Some p" "pipe_of sr = Some p" "pipe_of out = None" "src \<noteq> out"
    and w: "wd_files w src = bytes" "wd_files w out = []" "wd_pipes w p = []"
  shows "\<exists>(ur :: (uintptr, uintptr link_ring) uring) s'.
    uring_laws ur link_sim_view \<and> link_laws pipe_of cap ur link_sim_view link_sim_lk \<and>
    perform_tee_broadcast ur fstat blk src sw sr [out] dws drs (link_start w) =
      (Inr (of_nat (length bytes)), s') \<and>
    wd_files (lr_world s') out = take k bytes"
proof -
  let ?l = "of_nat (length bytes) :: size_t"
  let ?chain = "tee_chain src sw sr [out] dws drs 0 ?l"
  define ur :: "(uintptr, uintptr link_ring) uring" where "ur = link_uring pipe_of (slow_output pipe_of cap k)"
  have l: "unat ?l = length bytes" using size(3) by (simp add: unat_of_nat take_bit_eq_mod)
  then have pos: "0 < ?l" "\<not> ?l < ?l" using size(2) by (simp_all add: word_less_unat)
  have all: "tee_to_process ?l 0 = ?l"
    using l size(3) by (simp add: tee_to_process_def NET_CHUNK_SIZE_def min_def word_le_unat)
  have ports: "tee_ports [out] dws drs" by (simp add: tee_ports_def)
  obtain w' where run: "run_chain pipe_of (slow_output pipe_of cap k) ?chain w = (zip ?chain [int (length bytes), int k], w')"
    "wd_files w' out = take k bytes"
    using run_chain_slow [OF ends, of "length bytes" w cap k dws drs] size w by (auto simp: write_at_def)
  let ?s1 = "(link_start w)\<lparr>lr_entries := 1024\<rparr>"
  have i: "ur_init ur 1024 (link_start w) = (0, ?s1)" by (simp add: ur_def link_uring_def link_start_def)
  have push: "push_list ur ?chain ?s1 = (Inr (), ?s1\<lparr>lr_pending := ?chain\<rparr>)"
    by (simp add: tee_chain_def push_unchecked_def push_sqe_def ur_def link_uring_def link_start_def)
  have chunk: "tee_chunk ur src sw sr [out] dws drs 0 ?l ?s1 = (Inr 2, ?s1\<lparr>lr_pending := ?chain\<rparr>)"
    by (simp add: tee_chunk_push [OF ports] push)
  have chains: "link_chains ?chain = [?chain]" by (simp add: tee_chain_def)
  obtain s2 where sub: "ur_submit_and_wait ur 2 (?s1\<lparr>lr_pending := ?chain\<rparr>) = (2, s2)"
    and s2: "lr_done s2 = zip ?chain [int (length bytes), int k]" "lr_world s2 = w'"
    by (simp add: ur_def link_uring_def link_sim_submit_def chains run link_start_def del: link_chains.simps)
       (simp add: tee_chain_def)
  have reap: "tee_reap (ur_ready ur s2) 0 0 = (?l, 2)"
    using pos by (simp add: ur_def link_uring_def s2 tee_chain_def done_cqe_def)
  have "tee_loop ur src sw sr [out] dws drs ?l ?l ?l s = (Inr ?l, s)" for s
    by (subst tee_loop.simps) (simp add: pos)
  then have "tee_loop ur src sw sr [out] dws drs ?l 0 0 ?s1 = (Inr ?l, ur_cq_advance ur 2 s2)"
    by (subst tee_loop.simps) (simp only: pos all chunk sub reap Let_def prod.case sum.case add_0_left if_True)
  then have "perform_tee_broadcast ur fstat blk src sw sr [out] dws drs (link_start w) =
      (Inr ?l, ur_exit ur (ur_cq_advance ur 2 s2))"
    by (simp add: perform_tee_broadcast_def i size(1))
  moreover have "wd_files (lr_world (ur_exit ur (ur_cq_advance ur 2 s2))) out = take k bytes"
    using s2(2) run(2) by (simp add: ur_def link_uring_def)
  ultimately show ?thesis
    using slow_link_laws link_uring_laws unfolding ur_def by blast
qed

text \<open>One byte of three.\<close>

theorem tee_total_overstates_witness:
  "\<exists>(ur :: (uintptr, uintptr link_ring) uring) s'.
    perform_tee_broadcast ur (fixed_fstat 3) Map.empty 3 20 21 [5] [] []
      (link_start \<lparr>wd_files = (\<lambda>fd. if fd = 3 then [7, 8, 9] else []), wd_pipes = (\<lambda>p. []), wd_mem = (\<lambda>p. [])\<rparr>) =
      (Inr 3, s') \<and>
    wd_files (lr_world s') 5 = [7]"
proof -
  let ?w = "\<lparr>wd_files = (\<lambda>fd. if fd = 3 then [7, 8, 9] else []), wd_pipes = (\<lambda>p. []), wd_mem = (\<lambda>p. [])\<rparr> :: world"
  let ?pipe = "[20 \<mapsto> 0, 21 \<mapsto> 0] :: pipe_ends"
  have size: "get_file_size (fixed_fstat 3) Map.empty 3 = of_nat (length [7, 8, 9 :: byte])" "[7, 8, 9 :: byte] \<noteq> []"
    "length [7, 8, 9 :: byte] \<le> 262144" "length [7, 8, 9 :: byte] \<le> 262144" "1 \<le> length [7, 8, 9 :: byte]"
    using fixed_fstat_size [of 3 Map.empty 3] by simp_all
  have ends: "?pipe 3 = None" "?pipe 20 = Some 0" "?pipe 21 = Some 0" "?pipe 5 = None" "(3 :: c_int) \<noteq> 5" by simp_all
  have w: "wd_files ?w 3 = [7, 8, 9]" "wd_files ?w 5 = []" "wd_pipes ?w 0 = []" by simp_all
  from tee_total_overstates [OF size ends w, of "[]" "[]"] obtain ur :: "(uintptr, uintptr link_ring) uring" and s' where
    "perform_tee_broadcast ur (fixed_fstat 3) Map.empty 3 20 21 [5] [] [] (link_start ?w) = (Inr 3, s')"
    "wd_files (lr_world s') 5 = [7]" by auto
  then show ?thesis by blast
qed

end
