(* ===== verification/Uring_Vec_Answers.thy ===== *)
theory Uring_Vec_Answers
  imports Uring_Vec_Run Link_Kernel
begin

text \<open>
  Mode 2 when requests are short or fail. A read that is not full cancels the write linked
  to it, and a write that is short writes the beginning of its window; so nothing wrong is
  ever written: whatever the kernel answers and in whatever order, each output ends with a
  byte of the input or what it held before at every position.
\<close>

section \<open>What the calls of the engine keep\<close>

text \<open>
  A relation between two states of the ring that every call of the ring the engine makes
  stays in holds between the states before and after each part of the engine.
\<close>

locale ring_relation =
  fixes ur :: "(ptr option, 's) uring" and Q :: "'s \<Rightarrow> 's \<Rightarrow> bool"
  assumes refl: "Q s s" and trans: "Q s s1 \<Longrightarrow> Q s1 s2 \<Longrightarrow> Q s s2"
    and push: "push_sqe ur e s = (b, s1) \<Longrightarrow> Q s s1"
    and submit: "ur_submit ur s = (r, s1) \<Longrightarrow> Q s s1"
    and wait: "ur_wait_cqe ur s = (x, s1) \<Longrightarrow> Q s s1"
    and seen: "ur_wait_cqe ur s = (Some (Inr c), s1) \<Longrightarrow> Q s1 (ur_cqe_seen ur c s1)"
begin

lemma push_or_submit_rel:
  assumes "push_or_submit ur e s = (x, s')"
  shows "Q s s'"
proof -
  obtain b s1 where p: "push_sqe ur e s = (b, s1)" by fastforce
  show ?thesis
  proof (cases b)
    case True
    with assms p push [OF p] show ?thesis by (simp add: push_or_submit_def)
  next
    case False
    obtain r s2 where s2: "ur_submit ur s1 = (r, s2)" by fastforce
    obtain c s3 where s3: "push_sqe ur e s2 = (c, s3)" by fastforce
    have "s' = s3" using assms p False s2 s3 by (cases c) (simp_all add: push_or_submit_def push_unchecked_def)
    then show ?thesis using trans [OF push [OF p] trans [OF submit [OF s2] push [OF s3]]] by simp
  qed
qed

lemma submit_window_rel:
  assumes "vec_submit_window ur px inp out offset n st = (Inr (), st')"
  shows "Q (vs_ring st) (vs_ring st')"
proof -
  obtain x st1 where x: "new_RequestContext px (unat (vec_blocks n)) n st = (x, st1)" by fastforce
  then obtain ctx where ctx: "x = Inr ctx" using assms by (cases x) (simp_all add: vec_submit_window_def)
  have ring: "vs_ring st1 = vs_ring st"
    using x by (auto simp: new_RequestContext_def split: prod.splits sum.splits)
  let ?vs = "case vs_ctxs st1 ctx of None \<Rightarrow> [] | Some c \<Rightarrow> rc_iovecs c"
  obtain y r1 where y: "push_or_submit ur \<lparr>sq_op = Op_readv inp ?vs offset, sq_link = True, sq_data = None\<rparr>
      (vs_ring st1) = (y, r1)" by fastforce
  then obtain u where u: "y = Inr u" using assms x ctx by (cases y) (simp_all add: vec_submit_window_def)
  obtain z r2 where z: "push_or_submit ur \<lparr>sq_op = Op_writev out ?vs offset, sq_link = False, sq_data = Some ctx\<rparr> r1 =
      (z, r2)" by fastforce
  then obtain v where "z = Inr v" using assms x ctx y u by (cases z) (simp_all add: vec_submit_window_def)
  then have "vs_ring st' = r2" using assms x ctx y u z by (auto simp: vec_submit_window_def)
  then show ?thesis using trans [OF push_or_submit_rel [OF y] push_or_submit_rel [OF z]] ring by simp
qed

lemma submit_loop_rel:
  "vec_submit_loop ur px inp out st0 sz t st = (Inr n, st') \<Longrightarrow> Q (vs_ring st) (vs_ring st')"
proof (induction "unat (sz - t)" arbitrary: t st rule: less_induct)
  case less
  show ?case
  proof (cases "t < sz")
    case True
    let ?n = "vec_window sz t"
    obtain x st1 where x: "vec_submit_window ur px inp out (st0 + t) ?n st = (x, st1)" by fastforce
    have run: "(case x of Inl e \<Rightarrow> (Inl e, st1) | Inr _ \<Rightarrow> vec_submit_loop ur px inp out st0 sz (t + ?n) st1) = (Inr n, st')"
      using less.prems True x by (subst (asm) vec_submit_loop.simps) (simp add: Let_def)
    then obtain u where "x = Inr u" by (cases x) simp_all
    with run x trans [OF submit_window_rel less.hyps [OF vec_progress [OF True]]] show ?thesis by simp
  next
    case False
    with less.prems show ?thesis by (subst (asm) vec_submit_loop.simps) (simp add: refl)
  qed
qed

lemma submit_all_rel:
  "vec_submit_all ur px fstat blk inp outs st = (Inr (), st') \<Longrightarrow> Q (vs_ring st) (vs_ring st')"
proof (induction outs arbitrary: st)
  case (Cons dest outs)
  obtain x st1 where x: "submit_readV_writeV ur px fstat blk inp dest 0 st = (x, st1)" by fastforce
  with Cons.prems obtain n where n: "x = Inr n" by (cases x) simp_all
  have "Q (vs_ring st) (vs_ring st1)"
  proof (cases "get_file_size fstat blk inp \<le> 0")
    case True
    with x show ?thesis by (simp add: submit_readV_writeV_def refl)
  next
    case False
    obtain y st2 where y: "vec_submit_loop ur px inp dest 0 (get_file_size fstat blk inp) 0 st = (y, st2)" by fastforce
    with x n False obtain m where m: "y = Inr m" by (cases y) (simp_all add: submit_readV_writeV_def)
    obtain r s1 where s1: "ur_submit ur (vs_ring st2) = (r, s1)" by fastforce
    have "vs_ring st1 = s1" using x y m s1 False by (auto simp: submit_readV_writeV_def)
    with trans [OF submit_loop_rel [OF y [unfolded m]] submit [OF s1]] show ?thesis by simp
  qed
  moreover have "Q (vs_ring st1) (vs_ring st')" by (rule Cons.IH) (use Cons.prems x n in simp)
  ultimately show ?case by (rule trans)
qed (simp add: refl)

lemma reap_rel: "vec_reap ur px N k w st = Some (Inr n, st') \<Longrightarrow> Q (vs_ring st) (vs_ring st')"
proof -
  have "\<forall>n st'. u = ur \<longrightarrow> y = (Inr n, st') \<longrightarrow> Q (vs_ring st) (vs_ring st')"
    if "vec_reap u px N k w st = Some y" for u px N k w y and st :: "('s, 'b) vec_state"
    using that
  proof (induction u px N k w st y rule: vec_reap.raw_induct [rotated, consumes 1, case_names turn])
    case (turn go u px N k w st y)
    show ?case
    proof (intro allI impI)
      fix n st' assume a: "u = ur" "y = (Inr n, st')"
      obtain x r where x: "ur_wait_cqe ur (vs_ring st) = (x, r)" by fastforce
      note q = wait [OF x]
      show "Q (vs_ring st) (vs_ring st')"
      proof (cases "k < N")
        case False
        with turn(2) a show ?thesis by (simp add: refl)
      next
        case True
        note run = turn(2) [unfolded a if_P [OF True] x prod.case]
        show ?thesis
        proof (cases "\<exists>c. x = Some (Inr c)")
          case False
          with run have "vs_ring st' = r" by (auto split: option.splits sum.splits)
          with q show ?thesis by simp
        next
          case c: True
          then obtain c where c: "x = Some (Inr c)" by blast
          let ?r = "ur_cqe_seen ur c r"
          have r: "Q (vs_ring st) ?r" by (rule trans [OF q seen [OF x [unfolded c]]])
          have more: "Q ?r (vs_ring st')"
            if "go ur px N k' w' st1 = Some (Inr n, st')" "vs_ring st1 = ?r" for k' w' and st1 :: "('s, 'b) vec_state"
            using turn(1) [OF that(1)] that(2) by simp
          have "Q ?r (vs_ring st')"
          proof (cases "cq_data c")
            case None
            with run c show ?thesis by (intro more [of _ _ "st\<lparr>vs_ring := ?r\<rparr>"]) simp_all
          next
            case (Some p)
            with run c obtain ctx where ctx: "vs_ctxs st p = Some ctx" by (auto split: option.splits)
            let ?st = "st\<lparr>vs_ring := r, vs_mem := free_all px (rc_raw_pointers ctx) (vs_mem st),
              vs_ctxs := (vs_ctxs st)(p := None)\<rparr>"
            have "delete_RequestContext px p (st\<lparr>vs_ring := r\<rparr>) = Inr ?st"
              by (simp add: delete_RequestContext_def ctx)
            with run c Some ctx show ?thesis
              by (intro more [of _ _ "?st\<lparr>vs_ring := ?r\<rparr>"]) simp_all
          qed
          with r show ?thesis by (rule trans)
        qed
      qed
    qed
  qed
  then show "vec_reap ur px N k w st = Some (Inr n, st') \<Longrightarrow> Q (vs_ring st) (vs_ring st')" by blast
qed

end

text \<open>Such a relation: what the kernel did is a path, and the batches on it are the new ones.\<close>

definition link_related :: "pipe_ends \<Rightarrow> nat \<Rightarrow> ('s \<Rightarrow> 'd ring_view) \<Rightarrow> ('s \<Rightarrow> 'd link_view) \<Rightarrow> 's \<Rightarrow> 's \<Rightarrow> bool" where
  "link_related pipe_of cap view lk s s' \<longleftrightarrow>
     (\<exists>h. link_path pipe_of cap h (lk s) (lk s') \<and> rv_batches (view s') = rv_batches (view s) @ map fst h)"

lemma link_relation:
  assumes laws: "uring_laws ur view" and link: "link_laws pipe_of cap ur view lk"
  shows "ring_relation ur (link_related pipe_of cap view lk)"
proof
  have same: "link_related pipe_of cap view lk s s'"
    if "link_path pipe_of cap [] (lk s) (lk s')" "rv_batches (view s') = rv_batches (view s)" for s s'
    using that by (auto simp: link_related_def intro!: exI [of _ "[]"])
  show "link_related pipe_of cap view lk s s" for s by (rule same) (simp_all add: link_path.path_refl)
  show "link_related pipe_of cap view lk s s2"
    if q: "link_related pipe_of cap view lk s s1" "link_related pipe_of cap view lk s1 s2" for s s1 s2
  proof -
    from q obtain h h' where "link_path pipe_of cap h (lk s) (lk s1)" "link_path pipe_of cap h' (lk s1) (lk s2)"
      "rv_batches (view s2) = rv_batches (view s) @ map fst (h @ h')" by (auto simp: link_related_def)
    then show ?thesis unfolding link_related_def by (blast intro: link_path_trans)
  qed
  show "link_related pipe_of cap view lk s s1" if p: "push_sqe ur e s = (b, s1)" for e s b s1
  proof (rule same)
    show "rv_batches (view s1) = rv_batches (view s)"
      using push_sqe_law(2) [OF uring_lawsD(2) [OF laws] p] by simp
    have "lk s1 = lk s"
      using p link_lawsD(2,3) [OF link] by (auto simp: push_sqe_def split: prod.splits bool.splits)
    then show "link_path pipe_of cap [] (lk s) (lk s1)" by (simp add: link_path.path_refl)
  qed
  show "link_related pipe_of cap view lk s s1" if sub: "ur_submit ur s = (r, s1)" for s r s1
  proof -
    let ?b = "take (nat r) (rv_pending (view s))"
    have "view s1 = view_submit (nat r) (view s)"
      using uring_lawsD(3) [OF laws] sub by (simp add: submit_law_def)
    moreover have "link_path pipe_of cap [(?b, all_run (lv_chains (lk s)))] (lk s) (lk s1)"
      using link_path_trans [OF link_path_steps [OF link_lawsD(4) [OF link sub]]
          link_path.path_submit [OF link_path.path_refl]] by simp
    ultimately show ?thesis unfolding link_related_def
      by (intro exI [of _ "[(?b, all_run (lv_chains (lk s)))]"]) simp
  qed
  note wait = uring_lawsD(5) [OF laws, unfolded wait_law_def, rule_format]
  show "link_related pipe_of cap view lk s s1" if w: "ur_wait_cqe ur s = (x, s1)" for s x s1
    by (rule same) (simp_all add: link_path_steps [OF link_lawsD(6) [OF link w]] wait [OF w])
  show "link_related pipe_of cap view lk s1 (ur_cqe_seen ur c s1)"
    if w: "ur_wait_cqe ur s = (Some (Inr c), s1)" for s c s1
  proof (rule same)
    obtain y where "y \<in># lv_done (lk s1)" "lk (ur_cqe_seen ur c s1) = link_seen {#y#} (lk s1)"
      using link_lawsD(7) [OF link w] by blast
    then show "link_path pipe_of cap [] (lk s1) (lk (ur_cqe_seen ur c s1))"
      using link_path.path_seen [OF link_path.path_refl, of "{#y#}" "lk s1" pipe_of cap] by simp
    show "rv_batches (view (ur_cqe_seen ur c s1)) = rv_batches (view s1)" using wait [OF w] by simp
  qed
qed

interpretation link_ring_calls: ring_relation "link_uring pipe_of (most pipe_of cap)"
  "link_related pipe_of cap link_sim_view link_sim_lk" for pipe_of cap
  by (rule link_relation [OF link_uring_laws most_link_laws])

section \<open>All chains together\<close>

text \<open>The steps of a path on the chains and the world, every batch taken in at the start.\<close>

inductive answer_step :: "pipe_ends \<Rightarrow> nat \<Rightarrow> 'd sqe list list \<times> world \<Rightarrow> 'd sqe list list \<times> world \<Rightarrow> bool"
  for pipe_of cap where
  answer_head: "i < length cs \<Longrightarrow> cs ! i = e # es \<Longrightarrow> result_of pipe_of cap (sq_op e) res w w' \<Longrightarrow>
    answer_step pipe_of cap (cs, w) (cs[i := if severs e res then [] else es], w')"

lemma answer_step_append:
  assumes "answer_step pipe_of cap s s'"
  shows "answer_step pipe_of cap (fst s @ ds, snd s) (fst s' @ ds, snd s')"
  using assms
proof cases
  case (answer_head i cs e es res w w')
  have "answer_step pipe_of cap (cs @ ds, w) ((cs @ ds)[i := if severs e res then [] else es], w')"
    by (rule answer_step.answer_head) (use answer_head in \<open>simp_all add: nth_append\<close>)
  with answer_head show ?thesis by (simp add: list_update_append)
qed

lemma answer_steps_append:
  "(answer_step pipe_of cap)\<^sup>*\<^sup>* s s' \<Longrightarrow>
   (answer_step pipe_of cap)\<^sup>*\<^sup>* (fst s @ ds, snd s) (fst s' @ ds, snd s')"
  by (induction rule: rtranclp_induct) (auto dest: answer_step_append intro: rtranclp.rtrancl_into_rtrancl)

lemma link_path_answers:
  "link_path pipe_of cap h v v' \<Longrightarrow>
   (answer_step pipe_of cap)\<^sup>*\<^sup>* (lv_chains v @ concat (map (link_chains \<circ> fst) h), lv_world v)
     (lv_chains v', lv_world v')"
proof (induction rule: link_path.induct)
  case (path_step h v v1 v2)
  from path_step.hyps(2) have "answer_step pipe_of cap (lv_chains v1, lv_world v1) (lv_chains v2, lv_world v2)"
    by cases (simp add: answer_head)
  with path_step.IH show ?case by (rule rtranclp.rtrancl_into_rtrancl)
next
  case (path_submit h v v1 b)
  from answer_steps_append [OF path_submit.IH, of "link_chains b"] show ?case by (simp add: link_submit_def)
qed (simp_all add: link_seen_def)

section \<open>Nothing wrong is written\<close>

text \<open>
  A file on its way from what it held to a copy: at each position a byte of the source or
  what was there before, which past the end is the zero of a hole.
\<close>

definition partial_copy :: "byte list \<Rightarrow> byte list \<Rightarrow> byte list \<Rightarrow> bool" where
  "partial_copy src old new \<longleftrightarrow> length old \<le> length new \<and>
     (\<forall>i < length new. (i < length src \<and> new ! i = src ! i) \<or> new ! i = (if i < length old then old ! i else 0))"

lemma partial_copy_refl: "partial_copy src old old"
  by (simp add: partial_copy_def)

lemma partial_copy_write:
  assumes p: "partial_copy src old f" and q: "q + l \<le> length src"
  shows "partial_copy src old (write_at f q (take k (piece q l src)))"
proof (cases "take k (piece q l src) = []")
  case False
  let ?d = "take k (piece q l src)"
  have d: "length ?d \<le> l" "\<And>j. j < length ?d \<Longrightarrow> ?d ! j = src ! (q + j)"
    using q by (simp_all add: piece_def)
  have n: "length (write_at f q ?d) = max (length f) (q + length ?d)" using False by (rule length_write_at)
  have "(i < length src \<and> write_at f q ?d ! i = src ! i) \<or>
      write_at f q ?d ! i = (if i < length old then old ! i else 0)" if i: "i < length (write_at f q ?d)" for i
  proof (cases "q \<le> i \<and> i < q + length ?d")
    case True
    then have "write_at f q ?d ! i = ?d ! (i - q)"
      using False by (auto simp: write_at_def nth_append min_def)
    moreover have "?d ! (i - q) = src ! (q + (i - q))" 
    proof (rule d(2))
      show "i - q < length ?d" using True by linarith
    qed
    moreover have "q + (i - q) = i" "i < length src" using True d(1) q by simp_all
    ultimately show ?thesis by simp
  next
    case out: False
    show ?thesis
    proof (cases "i < length f")
      case True
      then have "write_at f q ?d ! i = f ! i"
        using out False by (auto simp: write_at_def nth_append min_def)
      then show ?thesis using p True by (simp add: partial_copy_def)
    next
      case gap: False
      then have "write_at f q ?d ! i = 0"
        using out i n False by (auto simp: write_at_def nth_append min_def)
      then show ?thesis using p gap by (simp add: partial_copy_def)
    qed
  qed
  moreover have "length old \<le> length (write_at f q ?d)" using p n by (simp add: partial_copy_def max_def)
  ultimately show ?thesis unfolding partial_copy_def by blast
qed (use p in auto)

text \<open>A pair: not started, its window in its buffers, or over, finished or not.\<close>

definition vec_part :: "byte list \<Rightarrow> world \<Rightarrow> c_int \<times> nat \<times> nat \<Rightarrow> 'd sqe list \<Rightarrow> 'd sqe list \<Rightarrow> bool" where
  "vec_part src w win es c \<longleftrightarrow>
     c = es \<or> c = [] \<or>
     (c = tl es \<and> gather (wd_mem w) (pair_iov es) = (case win of (out, q, l) \<Rightarrow> piece q l src))"

definition vec_part_inv :: "c_int \<Rightarrow> c_int list \<Rightarrow> byte list \<Rightarrow> (c_int \<times> nat \<times> nat) list \<Rightarrow>
    (ptr option) sqe list list \<Rightarrow> (c_int \<Rightarrow> byte list) \<Rightarrow> (ptr option) sqe list list \<times> world \<Rightarrow> bool" where
  "vec_part_inv inp outs src ws prs files0 s \<longleftrightarrow>
     (case s of (cs, w) \<Rightarrow>
        length cs = length prs \<and> wd_files w inp = src \<and>
        (\<forall>g. g \<notin> set outs \<longrightarrow> wd_files w g = files0 g) \<and>
        (\<forall>out \<in> set outs. partial_copy src (files0 out) (wd_files w out)) \<and>
        (\<forall>i < length prs. vec_part src w (ws ! i) (prs ! i) (cs ! i)))"

lemma vec_part_step:
  assumes ready: "vec_setup inp outs src ws prs" and inv: "vec_part_inv inp outs src ws prs files0 s"
    and step: "answer_step pipe_of cap s s'"
  shows "vec_part_inv inp outs src ws prs files0 s'"
  using step
proof cases
  case (answer_head i cs e es res w w')
  have inv': "length cs = length prs" "wd_files w inp = src"
    "\<forall>g. g \<notin> set outs \<longrightarrow> wd_files w g = files0 g"
    "\<forall>out \<in> set outs. partial_copy src (files0 out) (wd_files w out)"
    "\<forall>i < length prs. vec_part src w (ws ! i) (prs ! i) (cs ! i)"
    using inv answer_head(1) by (simp_all add: vec_part_inv_def)
  have i: "i < length prs" using answer_head(3) inv'(1) by simp
  obtain out q l vs p where pair: "ws ! i = (out, q, l)" "iov_total vs = l" "out \<in> set outs" "q + l \<le> length src"
      "unat (of_nat q :: off_t) = q" "distinct (map iov_base vs)" "out \<noteq> inp"
      "prs ! i = [\<lparr>sq_op = Op_readv inp vs (of_nat q), sq_link = True, sq_data = None\<rparr>,
                \<lparr>sq_op = Op_writev out vs (of_nat q), sq_link = False, sq_data = Some p\<rparr>]"
      "pair_iov (prs ! i) = vs"
    by (rule vec_setup_pair [OF ready i])
  let ?c = "if severs e res then [] else es"
  have result: "vec_part_inv inp outs src ws prs files0 (cs[i := ?c], w1)"
    if w1: "wd_files w1 inp = src" "\<forall>g. g \<notin> set outs \<longrightarrow> wd_files w1 g = files0 g"
      "\<forall>out \<in> set outs. partial_copy src (files0 out) (wd_files w1 out)"
      "vec_part src w1 (ws ! i) (prs ! i) ?c"
      "\<forall>b. b \<notin> iov_base ` set vs \<longrightarrow> wd_mem w1 b = wd_mem w b" for w1
  proof -
    have "vec_part src w1 (ws ! j) (prs ! j) (cs ! j)" if j: "j < length prs" "j \<noteq> i" for j
    proof -
      have "gather (wd_mem w1) (pair_iov (prs ! j)) = gather (wd_mem w) (pair_iov (prs ! j))"
      proof (rule gather_cong)
        fix b assume "b \<in> iov_base ` set (pair_iov (prs ! j))"
        then have "b \<notin> iov_base ` set vs"
          using vec_setup_disjoint(1) [OF ready i j(1)] j(2) by (auto simp: pair(9))
        with w1(5) show "wd_mem w1 b = wd_mem w b" by blast
      qed
      moreover have "vec_part src w (ws ! j) (prs ! j) (cs ! j)" using inv'(5) j(1) by blast
      ultimately show ?thesis by (simp add: vec_part_def)
    qed
    then show ?thesis using w1 inv'(1) i by (auto simp: vec_part_inv_def nth_list_update)
  qed
  have "vec_part src w (ws ! i) (prs ! i) (e # es)" using inv'(5) i answer_head(4) by metis
  then consider "e = hd (prs ! i)" "es = tl (prs ! i)"
    | "e = hd (tl (prs ! i))" "es = []" "gather (wd_mem w) vs = piece q l src"
    using pair(9) by (auto simp: vec_part_def pair(1,8))
  then have "vec_part_inv inp outs src ws prs files0 (cs[i := ?c], w')"
  proof cases
    case 1
    then have op: "sq_op e = Op_readv inp vs (of_nat q)" "sq_link e" by (simp_all add: pair(8))
    show ?thesis
    proof (cases "res < 0")
      case True
      with answer_head(5) have "w' = w" by (simp add: result_of_def)
      moreover have "severs e res" using True op by (simp add: severs_def)
      ultimately show ?thesis using inv' by (intro result) (simp_all add: vec_part_def)
    next
      case False
      then have w': "w' = mem_scatter (piece q (nat res) src) vs w" "nat res \<le> l"
        using answer_head(5) inv'(2) by (simp_all add: result_of_def op pair)
      have "vec_part src w' (ws ! i) (prs ! i) ?c"
      proof (cases "severs e res")
        case False
        then have "nat res = l" using op pair(2) by (simp add: severs_def)
        then have "gather (wd_mem w') vs = piece q l src"
          using gather_scatter_distinct [OF pair(6), of "piece q l src"] pair(2,4) by (simp add: w' length_piece)
        then show ?thesis using 1 False by (simp add: vec_part_def pair(1,9))
      qed (simp add: vec_part_def)
      then show ?thesis using inv' by (intro result) (simp_all add: w' scatter_other)
    qed
  next
    case 2
    then have op: "sq_op e = Op_writev out vs (of_nat q)" by (simp add: pair(8))
    have "w' = w \<or> w' = file_write out q (take (nat res) (piece q l src)) w"
      using answer_head(5) 2(3) by (cases "res < 0") (simp_all add: result_of_def op pair(5))
    then show ?thesis
    proof
      assume "w' = w"
      then show ?thesis using inv' 2(2) by (intro result) (simp_all add: vec_part_def)
    next
      assume w': "w' = file_write out q (take (nat res) (piece q l src)) w"
      show ?thesis
        using inv' 2(2) pair(3,7) partial_copy_write [OF _ pair(4)]
        by (intro result) (auto simp: w' vec_part_def)
    qed
  qed
  with answer_head(2) show ?thesis by simp
qed

text \<open>When no context is outstanding, every pair is over.\<close>

lemma vec_part_over:
  assumes ready: "vec_setup inp outs src ws prs" and inv: "vec_part_inv inp outs src ws prs files0 (cs, w)"
    and none: "\<And>p. Some p \<notin> set (map sq_data (concat cs))"
  shows "all_run cs"
proof -
  have "cs ! i = []" if i: "i < length cs" for i
  proof (rule ccontr)
    assume some: "cs ! i \<noteq> []"
    have i': "i < length prs" using inv i by (simp add: vec_part_inv_def)
    obtain vs p a b where "prs ! i = [\<lparr>sq_op = a, sq_link = True, sq_data = None\<rparr>,
        \<lparr>sq_op = b, sq_link = False, sq_data = Some p\<rparr>]"
      by (rule vec_setup_pair [OF ready i'])
    moreover have "vec_part src w (ws ! i) (prs ! i) (cs ! i)" using inv i' by (simp add: vec_part_inv_def)
    ultimately have "Some p \<in> sq_data ` set (cs ! i)" using some by (auto simp: vec_part_def)
    moreover have "set (cs ! i) \<subseteq> set (concat cs)" using nth_mem [OF i] by auto
    ultimately show False using none [of p] by auto
  qed
  then show ?thesis by (auto simp: all_run_def in_set_conv_nth)
qed

text \<open>
  Mode 2 writes nothing wrong. Whatever the kernel answers to each request -- all of it,
  less, an error --, whatever that cancels, and in whatever order the pairs are worked on, the
  vectored broadcast returns, and each output then holds at every position a byte of the
  input or what it held before (a zero where the file has been extended over a hole); every
  other file is unchanged.
\<close>
lemma uring_broadcast_partial:
  assumes "uring_laws ur view" "init_succeeds ur" "submits_all ur view" "waits_succeed ur"
    and link: "link_laws pipe_of cap ur view lk"
    and "memalign_law px files mem live" "free_law px files live" "alloc_succeeds px"
    and "get_file_size fstat blk inp = of_nat (length src)" "length src < 9223372036854775808"
    and "length outs * length (plan 8388608 (length src) 0) < 18446744073709551616"
    and "vs_ctxs st = Map.empty"
    and "wd_files (lv_world (lk (vs_ring st))) inp = src" "distinct outs" "inp \<notin> set outs"
  shows "\<exists>n st'. perform_uring_broadcast ur px fstat blk inp outs st = Some (Inr n, st') \<and>
    (\<forall>out \<in> set outs. partial_copy src (wd_files (lv_world (lk (vs_ring st))) out)
       (wd_files (lv_world (lk (vs_ring st'))) out)) \<and>
    (\<forall>g. g \<notin> set outs \<longrightarrow> wd_files (lv_world (lk (vs_ring st'))) g = wd_files (lv_world (lk (vs_ring st))) g)"
proof -
  let ?w = "lv_world (lk (vs_ring st))" and ?ws = "all_windows outs (length src)"
  have sz: "unat (of_nat (length src) :: size_t) = length src" "0 \<le>s (of_nat (length src) :: size_t)"
    using assms(10) by (simp_all add: unat_of_nat take_bit_eq_mod nonneg_iff_unat64)
  obtain r r1 st1 st2 n bs prs where i: "ur_init ur 1024 (vs_ring st) = (r, r1)" "0 \<le> r"
    and run: "vec_submit_all ur px fstat blk inp outs (st\<lparr>vs_ring := r1\<rparr>) = (Inr (), st1)"
      "vec_reap ur px (windows_per_file (of_nat (length src)) * of_nat (length outs)) 0 0 st1 = Some (Inr n, st2)"
      "perform_uring_broadcast ur px fstat blk inp outs st =
        Some (Inr n, st2\<lparr>vs_ring := ur_exit ur (vs_ring st2)\<rparr>)"
    and none: "\<forall>p. Some p \<notin># rv_outstanding (view (vs_ring st2))"
    and batches: "rv_batches (view r1) = rv_batches (view (vs_ring st))"
      "rv_batches (view (vs_ring st2)) = rv_batches (view (vs_ring st)) @ bs"
    and prs: "\<forall>b \<in> set bs. link_pairs b" "concat bs = concat prs" "list_all2 (vec_pair inp) ?ws prs"
      "distinct (trace_bases prs)"
    by (rule uring_broadcast_stages [OF assms(1-4,6-9) sz(2) _ assms(12), of outs, unfolded sz(1), OF assms(11)]) blast
  note rel = link_relation [OF assms(1) link]
  have "link_related pipe_of cap view lk r1 (vs_ring st2)"
    using ring_relation.trans [OF rel ring_relation.submit_all_rel [OF rel run(1)] ring_relation.reap_rel [OF rel run(2)]]
    by simp
  then obtain h where h: "link_path pipe_of cap h (lk r1) (lk (vs_ring st2))" "map fst h = bs"
    using batches by (auto simp: link_related_def)
  note start = link_lawsD(1) [OF link i]
  note ready = all_windows_setup [OF prs(3,4) assms(14,15,10)]
  have "concat (map (link_chains \<circ> fst) h) = prs"
    using batches_are_pairs [OF prs(1-3)] h(2) by (simp flip: map_map)
  then have steps: "(answer_step pipe_of cap)\<^sup>*\<^sup>* (prs, ?w) (lv_chains (lk (vs_ring st2)), lv_world (lk (vs_ring st2)))"
    using link_path_answers [OF h(1)] start by simp
  let ?inv = "vec_part_inv inp outs src ?ws prs (wd_files ?w)"
  have sys: "invariant_system ?inv (answer_step pipe_of cap) ?inv"
    by unfold_locales (blast intro: vec_part_step [OF ready])+
  have "?inv (prs, ?w)"
    using assms(13) by (simp add: vec_part_inv_def vec_part_def partial_copy_refl)
  note inv = invariant_system.reachable_inv [OF sys this steps]
  have "set (map sq_data (concat (lv_chains (lk (vs_ring st2))))) \<subseteq> set_mset (rv_outstanding (view (vs_ring st2)))"
    unfolding link_lawsD(10) [OF link] by auto
  then have "all_run (lv_chains (lk (vs_ring st2)))"
    using none by (intro vec_part_over [OF ready inv]) blast
  note link_lawsD(9) [OF link this]
  with run(3) inv show ?thesis by (auto simp: vec_part_inv_def)
qed

text \<open>A kernel that writes at most two bytes at a time.\<close>

definition two_bytes :: "pipe_ends \<Rightarrow> nat \<Rightarrow> uring_op \<Rightarrow> world \<Rightarrow> int" where
  "two_bytes pipe_of cap op w =
     (case op of Op_writev fd vs off \<Rightarrow> int (min 2 (iov_total vs)) | _ \<Rightarrow> most pipe_of cap op w)"

lemma two_bytes_result:
  "result_of pipe_of cap op (two_bytes pipe_of cap op w) w (res_effect pipe_of op (two_bytes pipe_of cap op w) w)"
proof (cases op)
  case (Op_writev fd vs off)
  then show ?thesis by (simp add: two_bytes_def result_of_def res_effect_def)
qed (use most_result [of pipe_of cap op w] in \<open>simp_all add: two_bytes_def\<close>)

lemma uring_broadcast_partial_witness:
  "\<exists>n st'. perform_uring_broadcast (link_uring Map.empty (two_bytes Map.empty 0)) mem_os (fixed_fstat 3) Map.empty 3 [5, 6]
      \<lparr>vs_ring = link_start three_bytes, vs_mem = demo_os, vs_ctxs = Map.empty, vs_next = 0\<rparr> = Some (Inr n, st') \<and>
    partial_copy [7, 8, 9] [] (wd_files (lr_world (vs_ring st')) 5) \<and> wd_files (lr_world (vs_ring st')) 3 = [7, 8, 9]"
proof -
  let ?st = "\<lparr>vs_ring = link_start three_bytes, vs_mem = demo_os, vs_ctxs = Map.empty, vs_next = 0\<rparr> ::
    ((ptr option) link_ring, mem_state) vec_state"
  have laws: "memalign_law mem_os ms_files ms_mem mem_live" "free_law mem_os ms_files mem_live"
    using mem_os_laws [of UNIV] by (simp_all add: posix_laws_def)
  have link: "link_laws Map.empty 0 (link_uring Map.empty (two_bytes Map.empty 0)) link_sim_view link_sim_lk"
    by (rule link_uring_link_laws) (rule two_bytes_result)
  have p: "plan 8388608 3 0 = [(0, 3)]" by (simp add: plan_step)
  have len: "length [7, 8, 9 :: byte] = 3" by simp
  have sz: "get_file_size (fixed_fstat 3) Map.empty 3 = of_nat (length [7, 8, 9 :: byte])"
    "length [7, 8, 9 :: byte] < 9223372036854775808"
    using fixed_fstat_size [of 3 Map.empty 3] by simp_all
  have few: "length [5, 6 :: c_int] * length (plan 8388608 (length [7, 8, 9 :: byte]) 0) < 18446744073709551616"
    unfolding len p by simp
  have w: "vs_ctxs ?st = Map.empty" "wd_files (lv_world (link_sim_lk (vs_ring ?st))) 3 = [7, 8, 9]"
    "distinct [5, 6 :: c_int]" "3 \<notin> set [5, 6 :: c_int]"
    by (simp_all add: link_sim_lk_def link_start_def three_bytes_def)
  from uring_broadcast_partial [OF link_uring_laws link_uring_ok link laws mem_os_alloc sz few w]
  show ?thesis by (auto simp: link_sim_lk_def link_start_def three_bytes_def)
qed

end
