(* ===== verification/Readv_Faults.thy ===== *)
theory Readv_Faults
  imports Readv_Broadcast "HOL-Library.Sublist"
begin

text \<open>
  Mode 1 when system calls fail or fall short. \<open>fail_stop\<close> is the environment in which the
  error handling of \<open>source/IOuring/readv_broadcaster.hpp\<close> is right: an allocation may fail,
  a transfer may fail, but a transfer that does not fail is complete. There every output
  holds a cut of the input at a window boundary, and the total tells whether all of them are
  whole. A transfer that falls short is outside it, since the code compares the answers with
  0 only: the last section shows what a short read writes.
\<close>

section \<open>Calls that succeed or stop\<close>

text \<open>
  An error of \<open>preadv\<close> or \<open>pwritev\<close> is documented to mean that nothing was transferred; an
  allocation may fail at any time.
\<close>

definition fail_stop :: "'s posix \<Rightarrow> c_int set \<Rightarrow> ('s \<Rightarrow> c_int \<Rightarrow> byte list) \<Rightarrow> bool" where
  "fail_stop px F files \<longleftrightarrow>
     (\<forall>fd vs off s r s'. fd \<in> F \<longrightarrow>
        (px_preadv px fd vs off s = (r, s') \<longrightarrow>
           r < 0 \<or> r = int (min (iov_total vs) (length (files s fd) - unat off))) \<and>
        (px_pwritev px fd vs off s = (r, s') \<longrightarrow>
           r < 0 \<and> files s' fd = files s fd \<or> r = int (iov_total vs)))"

lemma fail_stop_read:
  assumes "fail_stop px F files" "fd \<in> F" "px_preadv px fd vs off s = (r, s')" "\<not> r < 0"
  shows "r = int (min (iov_total vs) (length (files s fd) - unat off))"
  using assms unfolding fail_stop_def by blast

lemma fail_stop_write:
  assumes "fail_stop px F files" "fd \<in> F" "px_pwritev px fd vs off s = (r, s')"
  shows "r < 0 \<Longrightarrow> files s' fd = files s fd" and "\<not> r < 0 \<Longrightarrow> r = int (iov_total vs)"
  using assms unfolding fail_stop_def by (metis of_nat_less_0_iff, metis)

text \<open>The prefixes a copy that stops early can leave: whole windows, or everything.\<close>

definition window_cut :: "byte list \<Rightarrow> byte list \<Rightarrow> bool" where
  "window_cut src d \<longleftrightarrow> prefix d src \<and> (67108864 dvd length d \<or> d = src)"

lemma window_cutI: "n \<le> length src \<Longrightarrow> 67108864 dvd n \<or> n = length src \<Longrightarrow> window_cut src (take n src)"
  by (auto simp: window_cut_def take_is_prefix)

lemma window_cut_refl [simp]: "window_cut src src"
  by (simp add: window_cut_def)

lemma window_cut_Nil [simp]: "window_cut src []"
  by (simp add: window_cut_def)

lemma window_cut_trans: "window_cut src d \<Longrightarrow> window_cut d e \<Longrightarrow> window_cut src e"
  by (auto simp: window_cut_def intro: prefix_order.trans)

lemma window_cut_length: "window_cut src d \<Longrightarrow> length d \<le> length src"
  by (simp add: window_cut_def prefix_length_le)

lemma window_cut_whole: "window_cut src d \<Longrightarrow> length d = length src \<longleftrightarrow> d = src"
  by (metis less_irrefl prefix_length_less prefix_order.le_neq_trans window_cut_def)

text \<open>Files of at most one window are copied whole or not at all.\<close>

lemma window_cut_small:
  assumes "window_cut src d" "length src \<le> 67108864"
  shows "d = [] \<or> d = src"
proof (rule ccontr)
  assume c: "\<not> (d = [] \<or> d = src)"
  then have "67108864 dvd length d" "length d < length src"
    using assms(1) window_cut_length [OF assms(1)] window_cut_whole [OF assms(1)]
    by (auto simp: window_cut_def)
  moreover have "0 < length d" using c by simp
  ultimately have "67108864 \<le> length d" by (intro dvd_imp_le)
  with \<open>length d < length src\<close> assms(2) show False by simp
qed

section \<open>One copy\<close>

text \<open>A failed write: the window is freed and no file has changed.\<close>

lemma failed_write:
  assumes laws: "posix_laws px F files mem live" and fds: "ifd \<in> F" "ofd \<in> F"
    and stop: "fail_stop px F files" and cw: "unat cw \<le> 67108864"
    and a: "alloc_iovecs px cw 0 (unat (readv_blocks cw)) s = (Some vs, s1)"
    and r: "px_preadv px ifd vs off s1 = (r, s2)" "0 \<le> r"
    and w: "px_pwritev px ofd vs off s2 = (w, s3)" "w < 0"
  shows "live (free_iovecs px vs s3) = live s \<and> files (free_iovecs px vs s3) = files s"
proof -
  have l: "memalign_law px files mem live" "free_law px files live" "preadv_law px F files mem live"
    "pwritev_law px F files mem live"
    using laws by (auto simp: posix_laws_def)
  note al = alloc_iovecs_Some [OF l(1) a] and ok = window_iov [OF l(1) a cw]
  have p: "files s2 = files s1" "live s2 = live s1"
    "mem s2 = scatter (take (nat r) (drop (unat off) (files s1 ifd))) vs (mem s1)"
    using l(3) [unfolded preadv_law_def, rule_format, OF fds(1) ok(1) r(1)] r(2) by simp_all
  have "iov_ok (mem s2) (live s2) vs" using iov_ok_scatter [OF ok(1)] p(2,3) by simp
  from l(4) [unfolded pwritev_law_def, rule_format, OF fds(2) this w(1)]
  have q: "live s3 = live s2" "\<And>g. g \<noteq> ofd \<Longrightarrow> files s3 g = files s2 g" by simp_all
  have "iov_base ` set vs \<subseteq> live s3" using al p(2) q(1) by auto
  then have "files (free_iovecs px vs s3) = files s3"
    using al free_iovecs_live [OF l(2), of vs s3] by simp
  moreover have "files s3 g = files s g" for g
    using q(2) fail_stop_write(1) [OF stop fds(2) w] p(1) al by (cases "g = ofd") auto
  ultimately show ?thesis using window_pass(1) [OF laws fds cw a r w(1)] by (simp add: fun_eq_iff)
qed

text \<open>The loop, from a window boundary on.\<close>

lemma readv_loop_fail_stop:
  assumes laws: "posix_laws px F files mem live" and fds: "ifd \<in> F" "ofd \<in> F" "ifd \<noteq> ofd"
    and stop: "fail_stop px F files" and sz: "0 \<le>s sz" and len: "length src = unat sz"
  shows "unat t \<le> unat sz \<Longrightarrow> 67108864 dvd unat t \<or> t = sz \<Longrightarrow> files s ifd = src \<Longrightarrow>
    files s ofd = take (unat t) src @ drop (unat t) old \<Longrightarrow>
    \<exists>ret n s'. readv_loop px ifd ofd 0 sz t s = (ret, s') \<and>
      (ret = sz \<and> n = length src \<or> ret = -1 \<and> n < length src \<and> 67108864 dvd n) \<and>
      files s' ofd = take n src @ drop n old \<and> live s \<subseteq> live s' \<and>
      (\<forall>g. g \<noteq> ofd \<longrightarrow> files s' g = files s g)"
proof (induction "unat (sz - t)" arbitrary: t s rule: less_induct)
  case less
  have t0: "0 \<le>s t" using less.prems(1) sz by (simp add: nonneg_iff_unat64)
  show ?case
  proof (cases "t <s sz")
    case False
    with t0 sz less.prems(1) have "t = sz" by (simp add: sless_unat64 word_unat_eq_iff)
    with False less.prems len show ?thesis
      by (intro exI [of _ sz] exI [of _ "unat sz"] exI [of _ s]) (simp add: readv_loop_done)
  next
    case True
    let ?cw = "readv_window sz t"
    from True sz t0 have lt: "unat t < unat sz" by (simp add: sless_unat64)
    have cw: "unat ?cw \<le> 67108864" using rw.step_le [OF lt] .
    have l: "memalign_law px files mem live" using laws by (simp add: posix_laws_def)
    have here: ?thesis if "readv_loop px ifd ofd 0 sz t s = (-1, s')" "files s' = files s"
      "live s \<subseteq> live s'" for s'
      using that less.prems(2,4) lt len by (intro exI [of _ "-1"] exI [of _ "unat t"]) auto
    obtain v s1 where v: "alloc_iovecs px ?cw 0 (unat (readv_blocks ?cw)) s = (v, s1)" by fastforce
    show ?thesis
    proof (cases v)
      case None
      then show ?thesis using alloc_iovecs_None [OF l v [unfolded None]] True v
        by (intro here [of s1]) (subst readv_loop.simps, simp_all add: Let_def)
    next
      case (Some vs)
      note a = v [unfolded Some]
      obtain r s2 where r: "px_preadv px ifd vs (0 + t) s1 = (r, s2)" by fastforce
      obtain w s3 where w: "px_pwritev px ofd vs (0 + t) s2 = (w, s3)" by fastforce
      let ?s = "free_iovecs px vs s3"
      consider "r < 0" | "0 \<le> r" "w < 0" | "0 \<le> r" "0 \<le> w" by linarith
      then show ?thesis
      proof cases
        case 1
        then show ?thesis using failed_read [OF laws fds(1) cw a r] True a r
          by (intro here [of "free_iovecs px vs s2"]) (subst readv_loop.simps, simp_all add: Let_def)
      next
        case 2
        then show ?thesis using failed_write [OF laws fds(1,2) stop cw a r _ w] True a r w
          by (intro here [of ?s]) (subst readv_loop.simps, simp_all add: Let_def)
      next
        case 3
        have tot: "iov_total vs = unat ?cw" using window_iov [OF l a cw] by simp
        have fit: "unat ?cw \<le> length src - unat t" using len by (simp add: rw.step [OF lt])
        have "files s1 ifd = src" using alloc_iovecs_Some [OF l a] less.prems(3) by simp
        then have r': "r = int (unat ?cw)"
          using fail_stop_read [OF stop fds(1) r] 3(1) tot fit by simp
        have w': "w = int (unat ?cw)" using fail_stop_write(2) [OF stop fds(2) w] 3(2) tot by simp
        note pass = window_pass [OF laws fds(1,2) cw a r _ w]
        have adv: "unat (t + ?cw) = unat t + unat ?cw"
          using rw.unat_advance [OF lt] rw.step [OF lt] by simp
        let ?d = "take (unat ?cw) (drop (unat t) src)"
        have "files ?s ofd = write_at (files s ofd) (unat t) ?d"
          using pass(3) r' w' less.prems(3) by simp
        also have "\<dots> = take (unat t + length ?d) src @ drop (unat t + length ?d) old"
          unfolding less.prems(4) using fit lt len by (intro write_at_overlay) simp_all
        finally have out: "files ?s ofd = take (unat (t + ?cw)) src @ drop (unat (t + ?cw)) old"
          using fit by (simp add: adv)
        have "67108864 dvd unat (t + ?cw) \<or> t + ?cw = sz"
        proof (cases "unat sz - unat t \<le> 67108864")
          case True
          then have "unat (t + ?cw) = unat sz" using lt adv by (simp add: rw.step [OF lt])
          then show ?thesis by (simp add: word_unat_eq_iff)
        next
          case False
          with less.prems(2) show ?thesis by (auto simp: adv rw.step [OF lt] lt)
        qed
        moreover have "files ?s ifd = src" using pass(2) r' fds(3) less.prems(3) by simp
        moreover have "unat (t + ?cw) \<le> unat sz" using rw.advance_le [OF lt] .
        ultimately obtain ret n s' where "readv_loop px ifd ofd 0 sz (t + ?cw) ?s = (ret, s')"
          "ret = sz \<and> n = length src \<or> ret = -1 \<and> n < length src \<and> 67108864 dvd n"
          "files s' ofd = take n src @ drop n old" "live ?s \<subseteq> live s'"
          "\<forall>g. g \<noteq> ofd \<longrightarrow> files s' g = files ?s g"
          using less.hyps [of "t + ?cw" ?s] readv_window_progress [OF True] out by blast
        moreover have "readv_loop px ifd ofd 0 sz t s = readv_loop px ifd ofd 0 sz (t + ?cw) ?s"
          using readv_loop_step [OF True a r _ w] r' w' by simp
        ultimately show ?thesis using pass(1,2) r'
          by (intro exI [of _ ret] exI [of _ n] exI [of _ s']) simp
      qed
    qed
  qed
qed

text \<open>The whole function, in the form the tree uses.\<close>

lemma submit_read_write_stops:
  assumes laws: "posix_laws px F files mem live" and fds: "input \<in> F" "output \<in> F" "input \<noteq> output"
    and stop: "fail_stop px F files" and size: "length (files s input) < 9223372036854775808"
  shows "\<exists>ret n s'. submit_read_write px input output 0 s = (ret, s') \<and>
    (ret = of_nat (length (files s input)) \<and> n = length (files s input) \<or>
     ret = -1 \<and> n < length (files s input) \<and> 67108864 dvd n) \<and>
    files s' output = take n (files s input) @ drop n (files s output) \<and> live s \<subseteq> live s' \<and>
    (\<forall>g. g \<noteq> output \<longrightarrow> files s' g = files s g)"
proof -
  let ?sz = "of_nat (length (files s input)) :: off_t"
  have gfs: "get_file_size (px_fstat px s) (px_blksize px s) input = ?sz"
    using laws fds(1) by (simp add: posix_laws_def fstat_law_def get_file_size_def)
  have u: "unat ?sz = length (files s input)"
    using size by (simp add: unat_of_nat take_bit_eq_mod)
  have nn: "0 \<le>s ?sz" using size by (simp add: nonneg_iff_unat64 u)
  show ?thesis
  proof (cases "?sz \<le>s 0")
    case True
    with nn have "unat ?sz = 0"
      using sless_unat64 [of 0 ?sz] by (simp add: signed.not_less [symmetric])
    with u True show ?thesis by (simp add: submit_read_write_def gfs)
  next
    case False
    then have "submit_read_write px input output 0 s = readv_loop px input output 0 ?sz 0 s"
      by (simp add: submit_read_write_def gfs)
    then show ?thesis
      using readv_loop_fail_stop [OF laws fds stop nn u [symmetric], of 0 s "files s output"] by simp
  qed
qed

section \<open>The tree\<close>

text \<open>
  The state of a tree in which calls fail: the outputs of \<open>H\<close> have been copied to, each by
  one copy that answered \<open>v k\<close>, the input's size exactly when the output is whole; the
  others are empty.
\<close>

definition fault_inv :: "('s \<Rightarrow> c_int \<Rightarrow> byte list) \<Rightarrow> ('s \<Rightarrow> ptr set) \<Rightarrow> c_int \<Rightarrow> c_int list \<Rightarrow>
    's \<Rightarrow> nat set \<Rightarrow> size_t \<Rightarrow> 's \<Rightarrow> bool" where
  "fault_inv files live inp outs s0 H d s \<longleftrightarrow>
     H \<subseteq> {1..length outs} \<and> live s0 \<subseteq> live s \<and>
     (\<forall>g. g \<notin> set outs \<longrightarrow> files s g = files s0 g) \<and>
     (\<forall>k \<le> length outs. window_cut (files s0 inp) (files s (node inp outs k))) \<and>
     (\<forall>k \<le> length outs. k \<noteq> 0 \<longrightarrow> k \<notin> H \<longrightarrow> files s (node inp outs k) = []) \<and>
     (\<exists>v :: nat \<Rightarrow> int. d = of_int (\<Sum>k\<in>H. v k) \<and>
        (\<forall>k \<in> H. -1 \<le> v k \<and> v k \<le> int (length (files s0 inp)) \<and>
           (v k = int (length (files s0 inp)) \<longleftrightarrow> files s (node inp outs k) = files s0 inp)))"

definition fault_ready :: "'s posix \<Rightarrow> c_int set \<Rightarrow> ('s \<Rightarrow> c_int \<Rightarrow> byte list) \<Rightarrow>
    ('s \<Rightarrow> ptr \<Rightarrow> byte list) \<Rightarrow> ('s \<Rightarrow> ptr set) \<Rightarrow> c_int \<Rightarrow> c_int list \<Rightarrow> 's \<Rightarrow> bool" where
  "fault_ready px F files mem live inp outs s0 \<longleftrightarrow>
     tree_ready px F files mem live inp outs s0 \<and> fail_stop px F files \<and>
     (\<forall>out \<in> set outs. files s0 out = [])"

lemma fault_inv_start:
  "fault_ready px F files mem live inp outs s \<Longrightarrow> fault_inv files live inp outs s {} 0 s"
  by (auto simp: fault_ready_def fault_inv_def nth_Cons')

text \<open>What one copy answers, as the tree counts it.\<close>

lemma copy_answer:
  assumes x: "window_cut src x" and n: "n = length x \<or> n < length x \<and> 67108864 dvd n"
  defines "v \<equiv> if n = length x then int (length x) else -1"
  shows "window_cut src (take n x)" and "-1 \<le> v" and "v \<le> int (length src)"
    and "v = int (length src) \<longleftrightarrow> take n x = src"
proof -
  have "window_cut x (take n x)" using n by (intro window_cutI) auto
  with x show "window_cut src (take n x)" by (rule window_cut_trans)
  show "-1 \<le> v" by (simp add: v_def)
  show "v \<le> int (length src)" using window_cut_length [OF x] by (simp add: v_def)
  show "v = int (length src) \<longleftrightarrow> take n x = src"
  proof (cases "n = length x")
    case True
    then show ?thesis using window_cut_whole [OF x] by (simp add: v_def)
  next
    case False
    with n have "length (take n x) < length src" using window_cut_length [OF x] by auto
    then have "take n x \<noteq> src" by auto
    with False show ?thesis by (simp add: v_def)
  qed
qed

lemma tree_copy_stops:
  assumes ready: "fault_ready px F files mem live inp outs s0"
    and inv: "fault_inv files live inp outs s0 H d s"
    and i: "i < stride" "i + stride \<le> length outs" "i + stride \<notin> H"
  shows "\<exists>r s'. tree_copy px inp outs (Suc (length outs)) stride i s = (Inr r, s') \<and>
    fault_inv files live inp outs s0 (insert (i + stride) H) (d + r) s'"
proof -
  let ?j = "i + stride" and ?S = "files s0 inp"
  let ?a = "node inp outs i" and ?b = "node inp outs ?j"
  have le: "i \<le> length outs" and j0: "?j \<noteq> 0" using i by simp_all
  have H: "H \<subseteq> {1..length outs}" using inv by (simp add: fault_inv_def)
  then have fin: "finite H" by (rule finite_subset) simp
  have tr: "tree_ready px F files mem live inp outs s0" and stop: "fail_stop px F files"
    using ready by (simp_all add: fault_ready_def)
  then have laws: "posix_laws px F files mem live" and size: "length ?S < 9223372036854775808"
    by (simp_all add: tree_ready_def)
  have other: "node inp outs k \<noteq> ?b" if "k \<le> length outs" "k \<noteq> ?j" for k
    using tree_ready_node_eq [OF tr that(1) i(2)] that(2) by simp
  have cut: "window_cut ?S (files s (node inp outs k))" if "k \<le> length outs" for k
    using inv that by (simp add: fault_inv_def)
  let ?x = "files s ?a"
  have "length ?x < 9223372036854775808" using window_cut_length [OF cut [OF le]] size by simp
  from submit_read_write_stops [OF laws tree_ready_node(1) [OF tr le] tree_ready_node(1) [OF tr i(2)]
      other [OF le] stop this]
  obtain ret n s' where s': "submit_read_write px ?a ?b 0 s = (ret, s')"
    "ret = of_nat (length ?x) \<and> n = length ?x \<or> ret = -1 \<and> n < length ?x \<and> 67108864 dvd n"
    "files s' ?b = take n ?x @ drop n (files s ?b)" "live s \<subseteq> live s'"
    "\<And>g. g \<noteq> ?b \<Longrightarrow> files s' g = files s g" using i(1) by auto
  have b: "files s' ?b = take n ?x" using s'(3) inv i j0 by (simp add: fault_inv_def)
  let ?v = "if n = length ?x then int (length ?x) else -1"
  have "n = length ?x \<or> n < length ?x \<and> 67108864 dvd n" using s'(2) by blast
  note ans = copy_answer [OF cut [OF le] this]
  have ret: "ret = of_int ?v" using s'(2) by auto
  obtain v :: "nat \<Rightarrow> int" where v: "d = of_int (\<Sum>k\<in>H. v k)"
    "\<And>k. k \<in> H \<Longrightarrow> -1 \<le> v k \<and> v k \<le> int (length ?S) \<and>
       (v k = int (length ?S) \<longleftrightarrow> files s (node inp outs k) = ?S)"
    using inv by (auto simp: fault_inv_def)
  have "fault_inv files live inp outs s0 (insert ?j H) (d + ret) s'"
    unfolding fault_inv_def
  proof (intro conjI allI impI exI [of _ "v(?j := ?v)"] ballI)
    show "insert ?j H \<subseteq> {1..length outs}" using H i(2) j0 by auto
    show "live s0 \<subseteq> live s'" using inv s'(4) by (auto simp: fault_inv_def)
    show "files s' g = files s0 g" if "g \<notin> set outs" for g
    proof -
      have "?b \<in> set outs" using i(1,2) by (auto simp: nth_Cons' intro!: nth_mem)
      with that have "g \<noteq> ?b" by blast
      with s'(5) inv that show ?thesis by (simp add: fault_inv_def)
    qed
    show "window_cut ?S (files s' (node inp outs k))" if "k \<le> length outs" for k
      using ans(1) b cut [OF that] s'(5) [OF other [OF that]] by (cases "k = ?j") simp_all
    show "files s' (node inp outs k) = []" if "k \<le> length outs" "k \<noteq> 0" "k \<notin> insert ?j H" for k
      using s'(5) [OF other [OF that(1)]] that inv by (simp add: fault_inv_def)
    have "(\<Sum>k\<in>H. (v(?j := ?v)) k) = (\<Sum>k\<in>H. v k)" using i(3) by (intro sum.cong) auto
    then have "(\<Sum>k\<in>insert ?j H. (v(?j := ?v)) k) = (\<Sum>k\<in>H. v k) + ?v"
      using sum.insert [OF fin i(3), of "v(?j := ?v)"] by (simp only: fun_upd_same add.commute)
    then show "d + ret = of_int (\<Sum>k\<in>insert ?j H. (v(?j := ?v)) k)"
      by (simp only: ret v(1) of_int_add)
  next
    fix k assume k: "k \<in> insert ?j H"
    show "-1 \<le> (v(?j := ?v)) k" "(v(?j := ?v)) k \<le> int (length ?S)"
      using ans(2,3) v(2) [of k] k by auto
    have "files s' (node inp outs k) = files s (node inp outs k)" if "k \<noteq> ?j"
      using s'(5) [OF other [OF _ that]] k H i(2) by auto
    then show "(v(?j := ?v)) k = int (length ?S) \<longleftrightarrow> files s' (node inp outs k) = ?S"
      using ans(4) b v(2) [of k] k by (cases "k = ?j") simp_all
  qed
  moreover have "tree_copy px inp outs (Suc (length outs)) stride i s = (Inr ret, s')"
    by (simp only: tree_copy_nodes [OF i(1)] s'(1) i(2) if_True prod.case)
  ultimately show ?thesis by blast
qed


text \<open>A round, in any order of its iterations, and the rounds.\<close>

lemma tree_round_stops:
  assumes ready: "fault_ready px F files mem live inp outs s0"
  shows "fault_inv files live inp outs s0 H d s \<Longrightarrow> distinct is \<Longrightarrow>
    \<forall>i \<in> set is. i < stride \<and> i + stride \<notin> H \<Longrightarrow>
    \<exists>d' s'. tree_round px inp outs (Suc (length outs)) stride is d s = (Inr d', s') \<and>
      fault_inv files live inp outs s0 (H \<union> {i + stride |i. i \<in> set is \<and> i + stride \<le> length outs}) d' s'"
proof (induction "is" arbitrary: H d s)
  case (Cons i "is")
  let ?E = "{j + stride |j. j \<in> set is \<and> j + stride \<le> length outs}"
  show ?case
  proof (cases "i + stride \<le> length outs")
    case True
    from tree_copy_stops [OF ready Cons.prems(1) _ True] Cons.prems(3) obtain r s1 where
      s1: "tree_copy px inp outs (Suc (length outs)) stride i s = (Inr r, s1)"
        "fault_inv files live inp outs s0 (insert (i + stride) H) (d + r) s1" by auto
    have "insert (i + stride) H \<union> ?E =
        H \<union> {j + stride |j. j \<in> set (i # is) \<and> j + stride \<le> length outs}" using True by auto
    with Cons.IH [OF s1(2)] Cons.prems(2,3) s1(1) show ?thesis by fastforce
  next
    case False
    then have "tree_copy px inp outs (Suc (length outs)) stride i s = (Inr 0, s)"
      using Cons.prems(3) by (simp add: tree_copy_nodes)
    moreover have "{j + stride |j. j \<in> set (i # is) \<and> j + stride \<le> length outs} = ?E" using False by auto
    ultimately show ?thesis using Cons.IH [OF Cons.prems(1), of] Cons.prems(2,3) by simp
  qed
qed simp

lemma tree_rounds_stop:
  assumes ready: "fault_ready px F files mem live inp outs s0" and sched: "omp_schedule sched"
  shows "fault_inv files live inp outs s0 ({1..<2 ^ r} \<inter> {1..length outs}) d s \<Longrightarrow>
    \<exists>d' s'. tree_rounds px inp outs (Suc (length outs)) sched r k d s = (Inr d', s') \<and>
      fault_inv files live inp outs s0 ({1..<2 ^ (r + k)} \<inter> {1..length outs}) d' s'"
proof (induction k arbitrary: r d s)
  case (Suc k)
  let ?n = "length outs"
  have set: "set (sched r) = {0..<2 ^ r}" "distinct (sched r)"
    using omp_scheduleD [OF sched] by blast+
  then have "\<forall>i \<in> set (sched r). i < 2 ^ r \<and> i + 2 ^ r \<notin> {1..<2 ^ r} \<inter> {1..?n}" by simp
  from tree_round_stops [OF ready Suc.prems set(2) this] obtain d1 s1 where
    s1: "tree_round px inp outs (Suc ?n) (2 ^ r) (sched r) d s = (Inr d1, s1)"
      "fault_inv files live inp outs s0 ({1..<2 ^ r} \<inter> {1..?n} \<union>
         {i + 2 ^ r |i. i \<in> set (sched r) \<and> i + 2 ^ r \<le> ?n}) d1 s1" by blast
  have "k \<in> {1..<2 ^ r} \<inter> {1..?n} \<union> {i + 2 ^ r |i. i \<in> set (sched r) \<and> i + 2 ^ r \<le> ?n} \<longleftrightarrow>
      k \<in> {1..<2 ^ Suc r} \<inter> {1..?n}" for k
  proof (cases "k < 2 ^ r")
    case False
    moreover have "1 \<le> (2 :: nat) ^ r" by simp
    ultimately have "k = k - 2 ^ r + 2 ^ r" "1 \<le> k" by linarith+
    with False show ?thesis unfolding set by auto
  qed auto
  then have "{1..<2 ^ r} \<inter> {1..?n} \<union> {i + 2 ^ r |i. i \<in> set (sched r) \<and> i + 2 ^ r \<le> ?n} =
      {1..<2 ^ Suc r} \<inter> {1..?n}" by (rule set_eqI)
  with Suc.IH [of "Suc r" d1 s1] s1 show ?case by simp
qed simp

lemma readv_broadcast_stops:
  assumes ready: "fault_ready px F files mem live inp outs s" and sched: "omp_schedule sched"
  shows "\<exists>d s'. perform_readv_broadcast px sched inp outs s = (Inr d, s') \<and>
    fault_inv files live inp outs s {1..length outs} d s'"
proof -
  let ?R = "total_rounds (Suc (length outs))"
  have "{1..<2 ^ (0 + ?R)} \<inter> {1..length outs} = {1..length outs}"
    using total_rounds_cover [of "Suc (length outs)"] by auto
  with tree_rounds_stop [OF ready sched, of 0 0 s ?R] fault_inv_start [OF ready]
  show ?thesis by (simp add: perform_readv_broadcast_def)
qed


section \<open>A read that falls short\<close>

lemma write_at_0_front: "write_at bs 0 d = d @ drop (length d) bs"
  by (simp add: write_at_def)

text \<open>The window of a file of one block, and a transfer through one buffer.\<close>

lemma one_block:
  assumes "0 < unat sz" "unat sz \<le> 65536"
  shows "readv_window sz 0 = sz" "unat (readv_blocks sz) = 1" "block_len sz 0 = sz"
proof -
  show "readv_window sz 0 = sz"
    using rw.step [of 0 sz] assms by (simp add: word_unat_eq_iff)
  have "(unat sz + 65535) div 65536 = 1" using assms by (intro div_nat_eqI) simp_all
  then show "unat (readv_blocks sz) = 1" using unat_readv_blocks [of sz] assms by simp
  show "block_len sz 0 = sz" using unat_block_len [of sz 0] assms by (simp add: word_unat_eq_iff)
qed

lemma gather_partial:
  assumes "length d \<le> n" "n \<le> length (m p)" "n = unat l"
  shows "gather (scatter d [\<lparr>iov_base = p, iov_len = l\<rparr>] m) [\<lparr>iov_base = p, iov_len = l\<rparr>] =
    d @ take (n - length d) (drop (length d) (m p))"
  using assms by (simp add: write_at_def)

lemma one_pass:
  assumes "0 < unat sz" "unat sz \<le> 65536" and pos: "0 <s sz"
    and gfs: "get_file_size (px_fstat px s) (px_blksize px s) input = sz"
    and al: "px_memalign px 4096 CHUNK_SIZE s = (Some p, s1)"
    and r: "px_preadv px input [\<lparr>iov_base = p, iov_len = sz\<rparr>] 0 s1 = (r, s2)" "0 \<le> r"
    and w: "px_pwritev px output [\<lparr>iov_base = p, iov_len = sz\<rparr>] 0 s2 = (w, s3)" "0 \<le> w"
  shows "submit_read_write px input output 0 s = (sz, px_free px p s3)"
proof -
  note b = one_block [OF assms(1,2)]
  let ?vs = "[\<lparr>iov_base = p, iov_len = sz\<rparr>]"
  have al': "alloc_iovecs px (readv_window sz 0) 0 (unat (readv_blocks (readv_window sz 0))) s = (Some ?vs, s1)"
    unfolding b(1) b(2) One_nat_def using al b(3) by simp
  have r': "px_preadv px input ?vs (0 + 0) s1 = (r, s2)"
    and w': "px_pwritev px output ?vs (0 + 0) s2 = (w, s3)"
    using r(1) w(1) by simp_all
  have "readv_loop px input output 0 sz 0 s = readv_loop px input output 0 sz sz (px_free px p s3)"
    using readv_loop_step [OF pos al' r' r(2) w' w(2)] b(1) by simp
  also have "\<dots> = (sz, px_free px p s3)" by (rule readv_loop_done) simp
  finally show ?thesis using pos gfs by (auto simp: submit_read_write_def)
qed

section \<open>Properties\<close>

text \<open>
  C25: what one copy does, on every path. If transfers are complete or fail, and whether or
  not allocations succeed, \<open>submit_read_write\<close> either returns the size of the input, the
  output then holding all of it, or returns -1, the output then holding a shorter prefix of
  it that ends at a multiple of 64 MiB. What the output held beyond that point is kept and no
  other file changes; if nothing fails it is the first of the two; and if no allocation fails
  every block is freed.
\<close>

theorem submit_read_write_fail_stop:
  assumes "posix_laws px F files mem live" and "input \<in> F" "output \<in> F" "input \<noteq> output"
    and "fail_stop px F files" and "length (files s input) < 9223372036854775808"
  shows "\<exists>ret n s'. submit_read_write px input output 0 s = (ret, s') \<and>
    (ret = of_nat (length (files s input)) \<and> n = length (files s input) \<or>
     ret = -1 \<and> n < length (files s input) \<and> 67108864 dvd n) \<and>
    files s' output = take n (files s input) @ drop n (files s output) \<and>
    (\<forall>g. g \<noteq> output \<longrightarrow> files s' g = files s g) \<and>
    (alloc_succeeds px \<and> transfers_succeed px \<longrightarrow> n = length (files s input)) \<and>
    (alloc_succeeds px \<longrightarrow> live s' = live s)"
proof -
  obtain ret n s' where s': "submit_read_write px input output 0 s = (ret, s')"
    "ret = of_nat (length (files s input)) \<and> n = length (files s input) \<or>
     ret = -1 \<and> n < length (files s input) \<and> 67108864 dvd n"
    "files s' output = take n (files s input) @ drop n (files s output)"
    "\<forall>g. g \<noteq> output \<longrightarrow> files s' g = files s g"
    using submit_read_write_stops [OF assms] by blast
  have minus_one_neg: "\<not> (0 :: off_t) <s -1" by code_simp
  have "ret \<noteq> -1" if "alloc_succeeds px" "transfers_succeed px"
  proof -
    let ?sz = "get_file_size (px_fstat px s) (px_blksize px s) input"
    have "?sz \<le>s 0 \<and> ret = 0 \<or> 0 <s ?sz \<and> ret = ?sz"
      using submit_read_write_result [of px s input "output" 0] that s'(1) by (simp add: Let_def)
    moreover have "(0 :: off_t) \<noteq> -1" by simp
    ultimately show ?thesis using minus_one_neg by metis
  qed
  moreover have "live s' = live s" if "alloc_succeeds px"
    using submit_read_write_keeps [OF assms(1-3) that, of 0 s] s'(1) by simp
  ultimately show ?thesis using s' by (intro exI [of _ ret] exI [of _ n] exI [of _ s']) blast
qed

text \<open>An implementation on which writing to descriptor 6 fails.\<close>

definition flaky_os :: "mem_state posix" where
  "flaky_os = mem_os\<lparr>px_pwritev := (\<lambda>fd vs off s.
     if fd = 6 then (-1, s) else px_pwritev mem_os fd vs off s)\<rparr>"

lemma flaky_os_laws: "posix_laws flaky_os F ms_files ms_mem mem_live"
proof -
  have "fstat_law flaky_os F ms_files = fstat_law mem_os F ms_files"
    "memalign_law flaky_os ms_files ms_mem mem_live = memalign_law mem_os ms_files ms_mem mem_live"
    "free_law flaky_os ms_files mem_live = free_law mem_os ms_files mem_live"
    "preadv_law flaky_os F ms_files ms_mem mem_live = preadv_law mem_os F ms_files ms_mem mem_live"
    by (simp_all add: fstat_law_def memalign_law_def free_law_def preadv_law_def flaky_os_def)
  moreover have "pwritev_law flaky_os F ms_files ms_mem mem_live"
    by (auto simp: pwritev_law_def flaky_os_def mem_os_def Let_def split: if_splits)
  ultimately show ?thesis using mem_os_laws [of F] by (simp add: posix_laws_def)
qed

lemma flaky_os_stops: "fail_stop flaky_os F ms_files"
  by (auto simp: fail_stop_def flaky_os_def mem_os_def Let_def)

theorem submit_read_write_fail_stop_witness:
  "\<exists>ret s'. submit_read_write flaky_os 3 6 0 demo_os = (ret, s') \<and>
     (ret = 3 \<and> ms_files s' 6 = [1, 2, 3] \<or> ret = -1 \<and> ms_files s' 6 = []) \<and>
     ms_files s' 4 = [9, 9, 9, 9, 9]"
proof -
  have d: "ms_files demo_os 3 = [1, 2, 3]" "ms_files demo_os 6 = []" "ms_files demo_os 4 = [9, 9, 9, 9, 9]"
    by (simp_all add: demo_os_def)
  have "(3 :: c_int) \<noteq> 6" "length (ms_files demo_os 3) < 9223372036854775808" by (simp_all add: d)
  from submit_read_write_fail_stop [OF flaky_os_laws UNIV_I UNIV_I this(1) flaky_os_stops this(2)]
  obtain ret n s' where s': "submit_read_write flaky_os 3 6 0 demo_os = (ret, s')"
    "ret = of_nat (length (ms_files demo_os 3)) \<and> n = length (ms_files demo_os 3) \<or>
     ret = -1 \<and> n < length (ms_files demo_os 3) \<and> 67108864 dvd n"
    "ms_files s' 6 = take n (ms_files demo_os 3) @ drop n (ms_files demo_os 6)"
    "\<And>g. g \<noteq> 6 \<Longrightarrow> ms_files s' g = ms_files demo_os g"
    by blast
  have "n = 0" if "n < 3" "67108864 dvd n" using that dvd_imp_le [of 67108864 n] by linarith
  with s' show ?thesis by (intro exI [of _ ret] exI [of _ s']) (auto simp: d)
qed

text \<open>
  No output of the tree is ever torn: each (created empty) ends up holding a prefix of the
  input that is the whole of it or ends at a window boundary.
\<close>

lemma readv_broadcast_cuts:
  assumes ready: "fault_ready px F files mem live inp outs s" and sched: "omp_schedule sched"
  shows "\<exists>d s'. perform_readv_broadcast px sched inp outs s = (Inr d, s') \<and>
    (\<forall>out \<in> set outs. window_cut (files s inp) (files s' out)) \<and>
    (\<forall>g. g \<notin> set outs \<longrightarrow> files s' g = files s g)"
proof -
  obtain d s' where s': "perform_readv_broadcast px sched inp outs s = (Inr d, s')"
    "fault_inv files live inp outs s {1..length outs} d s'"
    using readv_broadcast_stops [OF assms] by blast
  have "window_cut (files s inp) (files s' out)" if "out \<in> set outs" for out
  proof -
    from that obtain k where "k < length outs" "out = outs ! k" by (auto simp: in_set_conv_nth)
    with s'(2) show ?thesis by (auto simp: fault_inv_def dest: spec [of _ "Suc k"])
  qed
  with s' show ?thesis by (auto simp: fault_inv_def)
qed

lemma flaky_ready: "fault_ready flaky_os UNIV ms_files ms_mem mem_live 3 [5, 6, 7] demo_os"
  using flaky_os_laws [of UNIV] flaky_os_stops by (simp add: fault_ready_def tree_ready_def demo_os_def)

text \<open>
  C13: the total certifies the outputs. If every call of the engine succeeds completely or
  fails, and the outputs were created empty, then, whatever fails and in whatever order the
  OpenMP team works, the total that mode 1 returns is the number of outputs times the size
  of the input exactly when every output holds the whole input: the -1 a failed copy adds,
  and the short answers of the copies made from its output, cannot add up to it.
\<close>

theorem readv_total_certifies:
  assumes ready: "fault_ready px F files mem live inp outs s" and sched: "omp_schedule sched"
    and fits: "length outs * Suc (length (files s inp)) < 18446744073709551616"
  shows "\<exists>d s'. perform_readv_broadcast px sched inp outs s = (Inr d, s') \<and>
    (d = of_nat (length outs * length (files s inp)) \<longleftrightarrow>
       (\<forall>out \<in> set outs. files s' out = files s inp))"
proof -
  let ?n = "length outs" and ?L = "int (length (files s inp))"
  obtain d s' where s': "perform_readv_broadcast px sched inp outs s = (Inr d, s')"
    "fault_inv files live inp outs s {1..?n} d s'"
    using readv_broadcast_stops [OF ready sched] by blast
  then obtain v :: "nat \<Rightarrow> int" where v: "d = of_int (\<Sum>k\<in>{1..?n}. v k)"
    "\<And>k. k \<in> {1..?n} \<Longrightarrow> -1 \<le> v k \<and> v k \<le> ?L \<and> (v k = ?L \<longleftrightarrow> files s' (outs ! (k - 1)) = files s inp)"
    by (auto simp: fault_inv_def)
  let ?gap = "\<Sum>k\<in>{1..?n}. ?L - v k"
  have gap: "(\<Sum>k\<in>{1..?n}. v k) = int (?n * length (files s inp)) - ?gap"
    by (simp add: sum_subtractf)
  have "0 \<le> ?gap" using v(2) by (intro sum_nonneg) simp
  have "?gap \<le> (\<Sum>k\<in>{1..?n}. ?L + 1)" using v(2) by (intro sum_mono) force
  also have "\<dots> = int (?n * Suc (length (files s inp)))" by (simp add: algebra_simps)
  also have "\<dots> < int 18446744073709551616" using fits by (simp only: of_nat_less_iff)
  also have "\<dots> = 2 ^ 64" by simp
  finally have "?gap < 2 ^ 64" .
  have small: "(of_int g :: size_t) = 0 \<longleftrightarrow> g = 0" if "0 \<le> g" "g < 2 ^ 64" for g
    using that by (auto simp: word_of_int_eq_0_iff dest: zdvd_imp_le)
  have "d = of_nat (?n * length (files s inp)) \<longleftrightarrow> (of_int ?gap :: size_t) = 0"
    unfolding v(1) gap by (simp del: of_nat_mult)
  also have "\<dots> \<longleftrightarrow> ?gap = 0"
    by (rule small [OF \<open>0 \<le> ?gap\<close> \<open>?gap < 2 ^ 64\<close>])
  also have "\<dots> \<longleftrightarrow> (\<forall>k\<in>{1..?n}. files s' (outs ! (k - 1)) = files s inp)"
    using v(2) by (subst sum_nonneg_eq_0_iff) auto
  also have "\<dots> \<longleftrightarrow> (\<forall>out \<in> set outs. files s' out = files s inp)"
    unfolding image_Suc_lessThan [symmetric] by (auto simp: all_set_conv_all_nth)
  finally show ?thesis using s'(1) by blast
qed

theorem readv_total_certifies_witness:
  "\<exists>d s'. perform_readv_broadcast flaky_os seq_sched 3 [5, 6, 7] demo_os = (Inr d, s') \<and>
     (d = 9 \<longleftrightarrow> (\<forall>out \<in> {5, 6, 7}. ms_files s' out = [1, 2, 3]))"
  using readv_total_certifies [OF flaky_ready seq_sched_ok] by (simp add: demo_os_def)

text \<open>
  C26: a short read writes whatever the buffer held. \<open>preadv\<close>'s answer is compared with 0
  only, so if it delivers \<open>n\<close> bytes of a file of up to 64 KiB, \<open>submit_read_write\<close> still
  reports the whole size, and the output holds those \<open>n\<close> bytes, then the bytes the freshly
  allocated (and never cleared) block held beyond them.
\<close>

theorem short_read_writes_buffer:
  assumes laws: "posix_laws px F files mem live" and fds: "input \<in> F" "output \<in> F" "input \<noteq> output"
    and src: "files s input \<noteq> []" "length (files s input) \<le> 65536"
    and al: "px_memalign px 4096 CHUNK_SIZE s = (Some p, s1)"
    and vs: "vs = [\<lparr>iov_base = p, iov_len = of_nat (length (files s input))\<rparr>]"
    and r: "px_preadv px input vs 0 s1 = (int n, s2)"
    and w: "px_pwritev px output vs 0 s2 = (int (length (files s input)), s3)"
  shows "\<exists>s'. submit_read_write px input output 0 s = (of_nat (length (files s input)), s') \<and>
    files s' output = take n (files s input) @
      take (length (files s input) - n) (drop n (mem s1 p)) @
      drop (length (files s input)) (files s output)"
proof -
  let ?src = "files s input"
  let ?sz = "of_nat (length ?src) :: size_t"
  have l: "memalign_law px files mem live" "free_law px files live" "preadv_law px F files mem live"
    "pwritev_law px F files mem live"
    using laws by (auto simp: posix_laws_def)
  have u: "unat ?sz = length ?src" using src(2) by (simp add: unat_of_nat take_bit_eq_mod)
  have pos: "0 < unat ?sz" "unat ?sz \<le> 65536" unfolding u using src by simp_all
  have "0 \<le>s ?sz" using src(2) by (simp add: nonneg_iff_unat64 u)
  then have "0 <s ?sz" using pos(1) by (simp only: sless_unat64 [OF signed.order_refl]) simp
  moreover have "get_file_size (px_fstat px s) (px_blksize px s) input = ?sz"
    using laws fds(1) by (simp add: posix_laws_def fstat_law_def get_file_size_def)
  ultimately have run: "submit_read_write px input output 0 s = (?sz, px_free px p s3)"
    using one_pass [OF pos _ _ al r [unfolded vs] _ w [unfolded vs]] by simp
  note a = memalign_SomeD [OF l(1) al]
  have ok: "iov_ok (mem s1) (live s1) vs"
    using a src(2) by (simp add: vs iov_ok_def u unat_consts)
  have p: "files s2 = files s1" "live s2 = live s1" "n \<le> length ?src"
    "mem s2 = scatter (take n ?src) vs (mem s1)"
    using l(3) [unfolded preadv_law_def, rule_format, OF fds(1) ok r] a by simp_all
  have ok2: "iov_ok (mem s2) (live s2) vs" using iov_ok_scatter [OF ok] p(2,4) by simp
  have g: "gather (mem s2) vs = take n ?src @ take (length ?src - n) (drop n (mem s1 p))"
    unfolding p(4) vs using p(3) a src(2) u
    by (subst gather_partial [where n = "length ?src"]) (simp_all add: min_def unat_consts)
  have "files s3 output = write_at (files s2 output) 0 (take (length ?src) (gather (mem s2) vs))"
    "live s3 = live s2"
    using l(4) [unfolded pwritev_law_def, rule_format, OF fds(2) ok2 w] by simp_all
  moreover have "files (px_free px p s3) = files s3"
    using l(2) a p(2) calculation(2) by (simp add: free_law_def)
  ultimately have "files (px_free px p s3) output = write_at (files s output) 0
      (take n ?src @ take (length ?src - n) (drop n (mem s1 p)))"
    using p(1,3) a src(2) by (simp add: g unat_consts)
  moreover have "length (take n ?src @ take (length ?src - n) (drop n (mem s1 p))) = length ?src"
    using p(3) a src(2) by (simp add: unat_consts)
  ultimately have "files (px_free px p s3) output =
      take n ?src @ take (length ?src - n) (drop n (mem s1 p)) @ drop (length ?src) (files s output)"
    by (simp only: write_at_0_front append_assoc)
  with run show ?thesis by simp
qed

text \<open>Blocks come with stale bytes, and reads stop one byte early.\<close>

definition stale_os :: "mem_state posix" where
  "stale_os = mem_os\<lparr>
     px_memalign := (\<lambda>al n s. let p = Suc (sum_list (ms_live s)) in
       (Some p, s\<lparr>ms_mem := (ms_mem s)(p := replicate (unat n) 7), ms_live := p # ms_live s\<rparr>)),
     px_preadv := (\<lambda>fd vs off s.
       let n = min (iov_total vs) (length (ms_files s fd) - unat off) - 1 in
       (int n, s\<lparr>ms_mem := scatter (take n (drop (unat off) (ms_files s fd))) vs (ms_mem s)\<rparr>))\<rparr>"

lemma stale_os_laws: "posix_laws stale_os F ms_files ms_mem mem_live"
proof -
  have fresh: "Suc (sum_list (ps :: nat list)) \<notin> set ps" for ps
    using member_le_sum_list [of "Suc (sum_list ps)" ps] by auto
  have "fstat_law stale_os F ms_files = fstat_law mem_os F ms_files"
    "free_law stale_os ms_files mem_live = free_law mem_os ms_files mem_live"
    "pwritev_law stale_os F ms_files ms_mem mem_live = pwritev_law mem_os F ms_files ms_mem mem_live"
    by (simp_all add: fstat_law_def free_law_def pwritev_law_def stale_os_def)
  moreover have "memalign_law stale_os ms_files ms_mem mem_live"
    using fresh by (auto simp: memalign_law_def stale_os_def Let_def)
  moreover have "preadv_law stale_os F ms_files ms_mem mem_live"
    by (auto simp: preadv_law_def stale_os_def Let_def)
  ultimately show ?thesis using mem_os_laws [of F] by (simp add: posix_laws_def)
qed

theorem short_read_writes_buffer_witness:
  "\<exists>s'. submit_read_write stale_os 3 4 0 demo_os = (3, s') \<and> ms_files s' 4 = [1, 2, 7, 9, 9]"
proof -
  let ?vs = "[\<lparr>iov_base = 1, iov_len = 3\<rparr>]"
  obtain s1 where s1: "px_memalign stale_os 4096 CHUNK_SIZE demo_os = (Some 1, s1)"
    "ms_mem s1 1 = replicate 65536 7" "ms_files s1 = ms_files demo_os"
    by (simp add: stale_os_def demo_os_def Let_def unat_consts)
  obtain s2 where s2: "px_preadv stale_os 3 ?vs 0 s1 = (int 2, s2)"
    using s1(3) by (simp add: stale_os_def demo_os_def Let_def)
  obtain s3 where s3: "px_pwritev stale_os 4 ?vs 0 s2 = (int 3, s3)"
    by (simp add: stale_os_def mem_os_def)
  from short_read_writes_buffer [OF stale_os_laws [of UNIV], of 3 4 demo_os 1 s1 ?vs 2 s2 s3] s1 s2 s3
  show ?thesis by (simp add: demo_os_def)
qed

end
