(* ===== verification/Splice_Faults.thy ===== *)
theory Splice_Faults
  imports Splice_Answers Uring_Vec_Answers
begin

text \<open>
  The splice mode on a file of one piece, whatever the requests answer. A splice into a pipe
  that is not full cancels the splice out of it, and one out of it that is short writes the
  beginning of what the pipe holds, which is then the whole file: each output ends with a
  prefix of the input written over it. With more pieces this is lost, since what a short
  splice leaves in a pipe goes into the output first the next time.
\<close>

section \<open>The pair of one output\<close>

text \<open>Not started, the file in the pipe, or over, with a part of it written.\<close>

definition splice_part :: "(c_int \<Rightarrow> byte list) \<Rightarrow> byte list \<Rightarrow> nat \<Rightarrow> c_int \<Rightarrow> world \<Rightarrow>
    uintptr sqe list \<Rightarrow> uintptr sqe list \<Rightarrow> bool" where
  "splice_part files0 d p out w es c \<longleftrightarrow>
     (c = es \<and> wd_pipes w p = [] \<and> wd_files w out = files0 out) \<or>
     (c = tl es \<and> wd_pipes w p = d \<and> wd_files w out = files0 out) \<or>
     (c = [] \<and> (\<exists>k. wd_files w out = write_at (files0 out) 0 (take k d)))"

lemma splice_part_cut: "wd_files w out = files0 out \<Longrightarrow> splice_part files0 d p out w es []"
  by (auto simp: splice_part_def intro: exI [of _ 0])

definition splice_part_inv :: "pipe_ends \<Rightarrow> c_int list \<Rightarrow> c_int list \<Rightarrow> (c_int \<Rightarrow> byte list) \<Rightarrow>
    byte list \<Rightarrow> uintptr sqe list list \<Rightarrow> uintptr sqe list list \<times> world \<Rightarrow> bool" where
  "splice_part_inv pipe_of outs dws files0 d prs s \<longleftrightarrow>
     (case s of (cs, w) \<Rightarrow>
        length cs = length outs \<and> (\<forall>g. g \<notin> set outs \<longrightarrow> wd_files w g = files0 g) \<and>
        (\<forall>i < length outs. splice_part files0 d (own_pipe pipe_of dws i) (outs ! i) w (prs ! i) (cs ! i)))"

lemma splice_part_step:
  assumes wired: "splice_wired pipe_of src outs dws drs"
    and d: "d = files0 src" "length d \<le> 262144"
    and prs: "prs = splice_pairs src outs dws drs 0 (of_nat (length d))"
    and inv: "splice_part_inv pipe_of outs dws files0 d prs s" and step: "answer_step pipe_of cap s s'"
  shows "splice_part_inv pipe_of outs dws files0 d prs s'"
  using step
proof cases
  case (answer_head i cs e es res w w')
  let ?p = "own_pipe pipe_of dws"
  have inv': "length cs = length outs" "\<forall>g. g \<notin> set outs \<longrightarrow> wd_files w g = files0 g"
    "\<forall>i < length outs. splice_part files0 d (?p i) (outs ! i) w (prs ! i) (cs ! i)"
    using inv unfolding answer_head(1) by (simp_all add: splice_part_inv_def)
  have i: "i < length outs" using inv'(1) answer_head(3) by simp
  obtain p where ends: "pipe_of src = None" "pipe_of (dws ! i) = Some p" "pipe_of (drs ! i) = Some p"
    "pipe_of (outs ! i) = None" "src \<noteq> outs ! i" "src \<notin> set outs"
    using wired i unfolding splice_wired_def by fastforce
  then have p: "?p i = p" by simp
  have other: "?p j \<noteq> p \<and> outs ! j \<noteq> outs ! i" if j: "j < length outs" "j \<noteq> i" for j
  proof -
    have "pipe_of (dws ! j) \<noteq> pipe_of (dws ! i)" "pipe_of (dws ! j) \<noteq> None" "distinct outs"
      using wired i j unfolding splice_wired_def by blast+
    then show ?thesis using ends(2) i j by (auto simp: nth_eq_iff_index_eq)
  qed
  have n: "unat (ucast (of_nat (length d) :: size_t) :: 32 word) = length d"
    using d(2) by (simp add: unsigned_ucast_eq unat_of_nat take_bit_eq_mod)
  have src: "wd_files w src = d" using inv'(2) ends(6) d(1) by blast
  let ?in = "splice_read src (dws ! i) 0 (of_nat (length d))"
  let ?out = "splice_write (drs ! i) (outs ! i) 0 (of_nat (length d))"
  have pair: "prs ! i = [?in, ?out]" using i by (simp add: prs splice_pairs_def)
  have cut: "splice_part files0 d p (outs ! i) u (prs ! i) []" if "wd_files u (outs ! i) = files0 (outs ! i)" for u
    using that by (rule splice_part_cut)
  let ?c = "if severs e res then [] else es"
  have result: "splice_part_inv pipe_of outs dws files0 d prs (cs[i := ?c], w')"
    if w': "\<forall>g. g \<noteq> outs ! i \<longrightarrow> wd_files w' g = wd_files w g" "\<forall>q. q \<noteq> p \<longrightarrow> wd_pipes w' q = wd_pipes w q"
      "splice_part files0 d p (outs ! i) w' (prs ! i) ?c"
  proof -
    have "splice_part files0 d (?p j) (outs ! j) w' (prs ! j) (cs ! j)" if j: "j < length outs" "j \<noteq> i" for j
      using inv'(3) other [OF j] w'(1,2) j(1) by (simp add: splice_part_def)
    moreover have "wd_files w' g = files0 g" if "g \<notin> set outs" for g
      using w'(1) inv'(2) that i by (metis nth_mem)
    ultimately show ?thesis using inv'(1) w'(3) i p by (auto simp: splice_part_inv_def nth_list_update)
  qed
  have "splice_part files0 d p (outs ! i) w (prs ! i) (e # es)"
    using inv'(3) i answer_head(4) p by metis
  then consider "e = ?in" "es = [?out]" "wd_pipes w p = []" "wd_files w (outs ! i) = files0 (outs ! i)"
    | "e = ?out" "es = []" "wd_pipes w p = d" "wd_files w (outs ! i) = files0 (outs ! i)"
    by (auto simp: splice_part_def pair)
  then have "splice_part_inv pipe_of outs dws files0 d prs (cs[i := ?c], w')"
  proof cases
    case 1
    then have sever: "severs e res \<longleftrightarrow> res \<noteq> int (length d)" by (simp add: severs_def splice_read_def n)
    show ?thesis
    proof (cases "res < 0")
      case True
      with answer_head(5) have "w' = w" by (simp add: result_of_def)
      moreover have "severs e res" using True sever by simp
      ultimately show ?thesis using cut [of w] 1(4) by (intro result) simp_all
    next
      case False
      then have w': "w' = pipe_put p (piece 0 (nat res) d) w"
        using answer_head(5) src by (simp add: result_of_def 1(1) splice_read_def ends)
      have "splice_part files0 d p (outs ! i) w' (prs ! i) ?c"
      proof (cases "severs e res")
        case True
        then show ?thesis using cut [of w'] 1(4) by (simp add: w')
      next
        case False
        then have "nat res = length d" using sever by simp
        then show ?thesis using False 1 by (simp add: splice_part_def w' pair piece_def)
      qed
      then show ?thesis by (intro result) (simp_all add: w')
    qed
  next
    case 2
    have "splice_part files0 d p (outs ! i) w' (prs ! i) [] \<and>
        (\<forall>g. g \<noteq> outs ! i \<longrightarrow> wd_files w' g = wd_files w g) \<and> (\<forall>q. q \<noteq> p \<longrightarrow> wd_pipes w' q = wd_pipes w q)"
    proof (cases "res < 0")
      case True
      with answer_head(5) have "w' = w" by (simp add: result_of_def)
      then show ?thesis using cut [of w] 2(4) by simp
    next
      case False
      then have "w' = pipe_drop p (nat res) (file_write (outs ! i) 0 (take (nat res) d) w)"
        using answer_head(5) 2(3) by (simp add: result_of_def 2(1) splice_write_def ends)
      then show ?thesis using 2(4) by (auto simp: splice_part_def)
    qed
    then show ?thesis using 2(2) by (intro result) simp_all
  qed
  with answer_head(2) show ?thesis by simp
qed

section \<open>The engine\<close>

lemma answer_steps_none: "(answer_step pipe_of cap)\<^sup>*\<^sup>* ([], w) (cs, w') \<Longrightarrow> w' = w"
  by (erule converse_rtranclpE) (auto elim: answer_step.cases)

lemma splice_broadcast_partial:
  assumes laws: "uring_laws ur view" "init_succeeds ur" "submits_all ur view" "waits_succeed ur"
    and link: "link_laws pipe_of cap ur view lk" and ports: "splice_ports outs dws drs" "length outs \<le> 256"
    and size: "get_file_size fstat blk src = of_nat (length bytes)" "length bytes \<le> 262144"
    and wired: "splice_wired pipe_of src outs dws drs"
    and w: "wd_files (lv_world (lk s)) src = bytes" "splice_empty pipe_of outs dws (lv_world (lk s))"
  obtains g s' where "perform_splice_broadcast ur fstat blk src outs dws drs s = (Inr g, s')"
    "\<forall>out \<in> set outs. \<exists>k. wd_files (lv_world (lk s')) out =
       write_at (wd_files (lv_world (lk s)) out) 0 (take k bytes)"
    "\<forall>g. g \<notin> set outs \<longrightarrow> wd_files (lv_world (lk s')) g = wd_files (lv_world (lk s)) g"
proof -
  let ?sz = "of_nat (length bytes) :: off_t" and ?w = "lv_world (lk s)"
  have sz: "unat ?sz = length bytes" "0 \<le>s ?sz"
    using size(2) by (simp_all add: unat_of_nat take_bit_eq_mod nonneg_iff_unat64)
  let ?pss = "splice_pieces src outs dws drs (length bytes) 0"
  let ?h = "map (\<lambda>b. (b, True)) (map concat ?pss)"
  have "length ?pss \<le> 1" using size(2) by (simp add: length_splice_pieces)
  then have flushes: "splice_flushes [] ?pss = ?pss"
    using ports(2) by (intro splice_flushes_pieces [OF splice_pieces_len]) simp
  obtain s' v where r: "perform_splice_broadcast ur fstat blk src outs dws drs s = (Inr (of_nat (paid (lv_log v))), s')"
    and path: "link_path pipe_of cap ?h (link_fresh ?w) v"
    and fin: "all_run (lv_chains v)" "lv_world (lk s') = lv_world v"
    by (rule splice_broadcast_link [OF laws link ports(1) sz(2) size(1), of s, unfolded sz(1) flushes]) (rule that)
  let ?prs = "splice_pairs src outs dws drs 0 (of_nat (length bytes))"
  have end_state: "\<exists>k. wd_files (lv_world v) out = write_at (wd_files ?w out) 0 (take k bytes)"
      "\<And>g. g \<notin> set outs \<Longrightarrow> wd_files (lv_world v) g = wd_files ?w g"
    if out: "out \<in> set outs" and steps: "(answer_step pipe_of cap)\<^sup>*\<^sup>* (?prs, ?w) (lv_chains v, lv_world v)" for out
  proof -
    let ?inv = "splice_part_inv pipe_of outs dws (wd_files ?w) bytes ?prs"
    have sys: "invariant_system ?inv (answer_step pipe_of cap) ?inv"
      by unfold_locales (use splice_part_step [where ?files0.0 = "wd_files ?w", OF wired w(1) [symmetric] size(2) refl] in blast)+
    have "?inv (?prs, ?w)"
      using w(2) by (simp add: splice_part_inv_def splice_part_def splice_empty_def splice_pairs_def)
    note inv = invariant_system.reachable_inv [OF sys this steps]
    then show "wd_files (lv_world v) g = wd_files ?w g" if "g \<notin> set outs" for g
      using that by (simp add: splice_part_inv_def)
    from out obtain i where i: "i < length outs" "out = outs ! i" by (auto simp: in_set_conv_nth)
    have "lv_chains v ! i = []"
      using fin(1) inv i(1) by (auto simp: splice_part_inv_def all_run_def)
    with inv i show "\<exists>k. wd_files (lv_world v) out = write_at (wd_files ?w out) 0 (take k bytes)"
      by (auto simp: splice_part_inv_def splice_part_def splice_pairs_def)
  qed
  have all: "(answer_step pipe_of cap)\<^sup>*\<^sup>* (concat (map (link_chains \<circ> fst) ?h), ?w) (lv_chains v, lv_world v)"
    using link_path_answers [OF path] by (simp add: link_fresh_def)
  show thesis
  proof (cases "bytes = []")
    case True
    then have "concat (map (link_chains \<circ> fst) ?h) = []" by (simp add: splice_pieces_def)
    then have "lv_world v = ?w" using all answer_steps_none by metis
    then show thesis using fin(2) by (intro that [OF r]) (auto intro: exI [of _ 0])
  next
    case False
    then have "plan 262144 (length bytes) 0 = [(0, length bytes)]" using size(2) by (simp add: plan_step)
    then have pss: "?pss = [?prs]" by (simp add: splice_pieces_def)
    have "link_chains (concat ?prs) = ?prs" by (rule chains_concat) (auto intro: linked_splice_pairs)
    then have steps: "(answer_step pipe_of cap)\<^sup>*\<^sup>* (?prs, ?w) (lv_chains v, lv_world v)"
      using all unfolding pss by simp
    have "outs \<noteq> []" using ports(1) by (simp add: splice_ports_def)
    then obtain out where "out \<in> set outs" by (meson last_in_set)
    then show thesis using end_state steps fin(2) by (intro that [OF r]) auto
  qed
qed

end
