(* ===== verification/Tee_Faults.thy ===== *)
theory Tee_Faults
  imports Tee_Answers Tee_Run Uring_Vec_Answers
begin

text \<open>
  The tee mode on a file of one piece, whatever the requests answer. The piece is one linked
  chain: its first request that is not full cancels all the later ones, so each output ends
  with the piece, with a beginning of it (the one the short splice wrote to), or as it was.
\<close>

section \<open>What a chain has done so far\<close>

definition tee_safe :: "c_int list \<Rightarrow> (c_int \<Rightarrow> byte list) \<Rightarrow> byte list \<Rightarrow> world \<Rightarrow> bool" where
  "tee_safe outs files0 d w \<longleftrightarrow>
     (\<forall>g. g \<notin> set outs \<longrightarrow> wd_files w g = files0 g) \<and>
     (\<forall>out \<in> set outs. \<exists>k. wd_files w out = write_at (files0 out) 0 (take k d))"

text \<open>The requests of the outputs from number \<open>m\<close> on, and the world when it is their turn.\<close>

definition tee_rest :: "c_int \<Rightarrow> c_int list \<Rightarrow> c_int list \<Rightarrow> c_int list \<Rightarrow> size_t \<Rightarrow> nat \<Rightarrow> uintptr sqe list" where
  "tee_rest src_r outs dws drs p m =
     concat (map (tee_branch src_r outs dws drs 0 p) [m..<length outs - 1]) @
     [\<lparr>sq_op = Op_splice src_r (-1) (last outs) 0 (ucast p) SPLICE_F_MORE, sq_link = False, sq_data = p\<rparr>]"

definition tee_world :: "nat \<Rightarrow> c_int list \<Rightarrow> byte list \<Rightarrow> world \<Rightarrow> nat \<Rightarrow> world" where
  "tee_world p0 outs d w0 m = pipe_put p0 d (write_all (take m outs) 0 d w0)"

lemma tee_rest_branch:
  "m < length outs - 1 \<Longrightarrow>
   tee_rest src_r outs dws drs p m = tee_branch src_r outs dws drs 0 p m @ tee_rest src_r outs dws drs p (Suc m)"
  by (simp add: tee_rest_def upt_conv_Cons)

text \<open>The stages: nothing done, the outputs below \<open>m\<close> served, the pipe of \<open>m\<close> filled, or over.\<close>

definition tee_stage :: "pipe_ends \<Rightarrow> nat \<Rightarrow> c_int \<Rightarrow> c_int \<Rightarrow> c_int \<Rightarrow> c_int list \<Rightarrow> c_int list \<Rightarrow> c_int list \<Rightarrow>
    byte list \<Rightarrow> world \<Rightarrow> uintptr sqe list list \<times> world \<Rightarrow> bool" where
  "tee_stage pipe_of p0 src src_w src_r outs dws drs d w0 s \<longleftrightarrow>
     (let p = of_nat (length d) in
      s = ([tee_chain src src_w src_r outs dws drs 0 p], w0) \<or>
      (\<exists>m \<le> length outs - 1. s = ([tee_rest src_r outs dws drs p m], tee_world p0 outs d w0 m)) \<or>
      (\<exists>m < length outs - 1.
         s = ([tl (tee_branch src_r outs dws drs 0 p m) @ tee_rest src_r outs dws drs p (Suc m)],
              pipe_put (the (pipe_of (dws ! m))) d (tee_world p0 outs d w0 m))) \<or>
      (fst s = [[]] \<and> tee_safe outs (wd_files w0) d (snd s)))"

lemma tee_world_files:
  assumes "distinct outs"
  shows "wd_files (tee_world p0 outs d w0 m) g =
    (if g \<in> set (take m outs) then write_at (wd_files w0 g) 0 d else wd_files w0 g)"
  using assms by (simp add: tee_world_def write_all_files)

lemma tee_world_safe:
  assumes "distinct outs"
  shows "tee_safe outs (wd_files w0) d (tee_world p0 outs d w0 m)"
proof -
  have "\<exists>k. wd_files (tee_world p0 outs d w0 m) out = write_at (wd_files w0 out) 0 (take k d)" for out
    by (cases "out \<in> set (take m outs)")
       (auto simp: tee_world_files [OF assms] intro: exI [of _ "length d"] exI [of _ 0])
  then show ?thesis by (auto simp: tee_safe_def tee_world_files [OF assms] dest: in_set_takeD)
qed

text \<open>A part of the piece, written to the output whose turn it is.\<close>

lemma tee_write_safe:
  assumes outs: "distinct outs" "m < length outs"
    and files: "wd_files w = (wd_files (tee_world p0 outs d w0 m))
      (outs ! m := write_at (wd_files w0 (outs ! m)) 0 (take k d))"
  shows "tee_safe outs (wd_files w0) d w"
proof -
  note safe = tee_world_safe [OF outs(1), of w0 d p0 m]
  show ?thesis
    using safe outs(2) unfolding tee_safe_def files by (auto simp: nth_mem)
qed

lemma tee_write_fresh:
  assumes "distinct outs" "m < length outs"
  shows "wd_files (tee_world p0 outs d w0 m) (outs ! m) = wd_files w0 (outs ! m)"
proof -
  have "outs ! m \<notin> set (take m outs)"
    using assms by (auto simp: in_set_conv_nth nth_eq_iff_index_eq)
  then show ?thesis by (simp add: tee_world_files [OF assms(1)])
qed

lemma tee_world_Suc:
  assumes m: "m < length outs" and empty: "wd_pipes (tee_world p0 outs d w0 m) q = []"
  shows "pipe_drop q (length d) (file_write (outs ! m) 0 d (pipe_put q d (tee_world p0 outs d w0 m))) =
    tee_world p0 outs d w0 (Suc m)"
proof -
  have "pipe_drop q (length d) (file_write (outs ! m) 0 d (pipe_put q d (tee_world p0 outs d w0 m))) =
      file_write (outs ! m) 0 d (tee_world p0 outs d w0 m)"
    using empty by (simp add: pipe_drop_def file_write_def pipe_put_def fun_upd_idem)
  also have "\<dots> = tee_world p0 outs d w0 (Suc m)"
    using m by (simp add: tee_world_def file_write_pipe_put write_all_def take_Suc_conv_app_nth)
  finally show ?thesis .
qed

lemma tee_stage_step:
  assumes wired: "tee_wired pipe_of p0 src src_w src_r outs dws drs" and ne: "outs \<noteq> []"
    and d: "d = wd_files w0 src" "length d \<le> 262144" and empty: "tee_empty pipe_of p0 outs dws w0"
    and stage: "tee_stage pipe_of p0 src src_w src_r outs dws drs d w0 s"
    and step: "answer_step pipe_of cap s s'"
  shows "tee_stage pipe_of p0 src src_w src_r outs dws drs d w0 s'"
  using step
proof cases
  case (answer_head i cs e es res w w')
  let ?p = "of_nat (length d) :: size_t" and ?W = "tee_world p0 outs d w0"
  let ?c = "if severs e res then [] else es"
  have dist: "distinct outs" and ends: "pipe_of src = None" "pipe_of src_w = Some p0" "pipe_of src_r = Some p0"
    "pipe_of (last outs) = None"
    using wired ne by (auto simp: tee_wired_def)
  note n = unat_piece_len [OF d(2)]
  have p0: "wd_pipes (?W m) p0 = d" for m using empty by (simp add: tee_world_def tee_empty_def)
  have over: "tee_stage pipe_of p0 src src_w src_r outs dws drs d w0 ([[]], w1)"
    if "tee_safe outs (wd_files w0) d w1" for w1
    using that by (simp add: tee_stage_def)
  have at_turn: "tee_stage pipe_of p0 src src_w src_r outs dws drs d w0 ([tee_rest src_r outs dws drs ?p m], ?W m)"
    if "m \<le> length outs - 1" for m
    unfolding tee_stage_def Let_def using that by blast
  have at_filled: "tee_stage pipe_of p0 src src_w src_r outs dws drs d w0
      ([tl (tee_branch src_r outs dws drs 0 ?p m) @ tee_rest src_r outs dws drs ?p (Suc m)], pipe_put q d (?W m))"
    if "m < length outs - 1" "pipe_of (dws ! m) = Some q" for m q
    unfolding tee_stage_def Let_def using that by (intro disjI2 disjI1 exI [of _ m]) simp
  have safe_like: "tee_safe outs (wd_files w0) d w1" if "wd_files w1 = wd_files (?W m)" for w1 m
    using tee_world_safe [OF dist, of w0 d p0 m] that by (simp add: tee_safe_def)
  have safe0: "tee_safe outs (wd_files w0) d w1" if "wd_files w1 = wd_files w0" for w1
  proof -
    have "wd_files (?W 0) = wd_files w0" by (rule ext) (simp add: tee_world_files [OF dist])
    with safe_like [of w1 0] that show ?thesis by metis
  qed
  from stage consider (start) "cs = [tee_chain src src_w src_r outs dws drs 0 ?p]" "w = w0"
    | (turn) m where "m < length outs - 1" "cs = [tee_rest src_r outs dws drs ?p m]" "w = ?W m"
    | (filled) m where "m < length outs - 1"
        "cs = [tl (tee_branch src_r outs dws drs 0 ?p m) @ tee_rest src_r outs dws drs ?p (Suc m)]"
        "w = pipe_put (the (pipe_of (dws ! m))) d (?W m)"
    | (final) "cs = [tee_rest src_r outs dws drs ?p (length outs - 1)]" "w = ?W (length outs - 1)"
    | (over_already) "cs = [[]]"
    unfolding tee_stage_def answer_head(1) Let_def by (fastforce simp: le_less)
  then have "tee_stage pipe_of p0 src src_w src_r outs dws drs d w0 (cs[i := ?c], w')"
  proof cases
    case start
    have e: "i = 0" "e = hd (tee_chain src src_w src_r outs dws drs 0 ?p)" "es = tee_rest src_r outs dws drs ?p 0"
      using answer_head(3,4) start(1) by (simp_all add: tee_chain_def tee_rest_def)
    then have op: "sq_op e = Op_splice src 0 src_w (-1) (ucast ?p) SPLICE_F_MORE" "sq_link e"
      by (simp_all add: tee_chain_def)
    show ?thesis
    proof (cases "severs e res")
      case True
      have "wd_files w' = wd_files w0"
        using answer_head(5) start(2) by (auto simp: result_of_def op ends split: if_splits)
      from over [OF safe0 [OF this]] show ?thesis using True e(1) start(1) by simp
    next
      case False
      then have "res = int (length d)" using op n by (simp add: severs_def)
      then have "w' = ?W 0"
        using answer_head(5) start(2) d(1) by (simp add: result_of_def op ends tee_world_def write_all_def piece_def)
      then show ?thesis using at_turn [of 0] False e start(1) by simp
    qed
  next
    case turn
    obtain q where q: "pipe_of (dws ! m) = Some q" "q \<noteq> p0" using wired turn(1) unfolding tee_wired_def by fastforce
    have e: "i = 0" "e = hd (tee_branch src_r outs dws drs 0 ?p m)"
      "es = tl (tee_branch src_r outs dws drs 0 ?p m) @ tee_rest src_r outs dws drs ?p (Suc m)"
      using answer_head(3,4) turn(1,2) by (simp_all add: tee_rest_branch tee_branch_def)
    then have op: "sq_op e = Op_tee src_r (dws ! m) (ucast ?p) 0" "sq_link e"
      by (simp_all add: tee_branch_def)
    show ?thesis
    proof (cases "severs e res")
      case True
      have "wd_files w' = wd_files (?W m)"
        using answer_head(5) turn(3) by (auto simp: result_of_def op ends q split: if_splits)
      from over [OF safe_like [OF this]] show ?thesis using True e(1) turn(2) by simp
    next
      case False
      then have "res = int (length d)" using op n by (simp add: severs_def)
      then have "w' = pipe_put q d (?W m)"
        using answer_head(5) turn(3) by (simp add: result_of_def op ends q p0)
      then show ?thesis using at_filled [OF turn(1) q(1)] False e turn(2) by simp
    qed
  next
    case filled
    have m: "m < length outs" using filled(1) by simp
    obtain q where q: "pipe_of (dws ! m) = Some q" "q \<noteq> p0" "pipe_of (drs ! m) = Some q"
      using wired filled(1) unfolding tee_wired_def by fastforce
    have out: "pipe_of (outs ! m) = None" using wired m by (simp add: tee_wired_def)
    have qe: "wd_pipes (?W m) q = []" using empty filled(1) q by (auto simp: tee_empty_def tee_world_def)
    have w: "w = pipe_put q d (?W m)" "wd_pipes w q = d" using filled(3) q(1) qe by simp_all
    have e: "i = 0" "e = last (tee_branch src_r outs dws drs 0 ?p m)" "es = tee_rest src_r outs dws drs ?p (Suc m)"
      using answer_head(3,4) filled(2) by (simp_all add: tee_branch_def)
    then have op: "sq_op e = Op_splice (drs ! m) (-1) (outs ! m) 0 (ucast ?p) SPLICE_F_MORE" "sq_link e"
      by (simp_all add: tee_branch_def)
    show ?thesis
    proof (cases "res < 0")
      case True
      then have "severs e res" "wd_files w' = wd_files (?W m)"
        using answer_head(5) op w(1) by (simp_all add: severs_def result_of_def n del: of_nat_unat)
      with over [OF safe_like [of w' m]] show ?thesis using e(1) filled(2) by simp
    next
      case False
      then have w': "w' = pipe_drop q (nat res) (file_write (outs ! m) 0 (take (nat res) d) w)"
        using answer_head(5) w(2) by (simp add: result_of_def op q out)
      show ?thesis
      proof (cases "severs e res")
        case True
        have "tee_safe outs (wd_files w0) d w'"
          by (rule tee_write_safe [OF dist m, where k = "nat res" and ?p0.0 = p0])
            (simp add: w' w(1) tee_write_fresh [OF dist m])
        from over [OF this] show ?thesis using True e(1) filled(2) by simp
      next
        case False
        then have "res = int (length d)" using op n by (simp add: severs_def)
        then have "w' = ?W (Suc m)" using tee_world_Suc [OF m qe] by (simp add: w' w(1))
        then show ?thesis using at_turn [of "Suc m"] False e filled(1,2) by simp
      qed
    qed
  next
    case final
    let ?m = "length outs - 1"
    have m: "?m < length outs" "last outs = outs ! ?m" using ne by (simp_all add: last_conv_nth)
    have e: "i = 0" "es = []" "sq_op e = Op_splice src_r (-1) (last outs) 0 (ucast ?p) SPLICE_F_MORE"
      using answer_head(3,4) final(1) by (auto simp: tee_rest_def)
    have "tee_safe outs (wd_files w0) d w'"
    proof (cases "res < 0")
      case True
      then show ?thesis using answer_head(5) final(2) safe_like [of w' ?m] by (simp add: result_of_def)
    next
      case False
      then have w': "w' = pipe_drop p0 (nat res) (file_write (outs ! ?m) 0 (take (nat res) d) w)"
        using answer_head(5) final(2) p0 ends(4) by (simp add: result_of_def e(3) ends m(2))
      show ?thesis
        using tee_write_fresh [OF dist m(1), of p0 d w0]
        by (intro tee_write_safe [OF dist m(1), where k = "nat res" and ?p0.0 = p0])
          (simp add: w' final(2))
    qed
    from over [OF this] show ?thesis using e(1,2) final(1) by simp
  next
    case over_already
    with answer_head(3,4) show ?thesis by simp
  qed
  with answer_head(2) show ?thesis by simp
qed

section \<open>The engine\<close>

text \<open>
  One pass of the loop on any ring: the chain is submitted and all its answers, those of
  cancelled requests too, are waited for and consumed.
\<close>

lemma push_list_link:
  assumes link: "link_laws pipe_of cap ur view lk"
  shows "push_list ur es s = (x, s') \<Longrightarrow> lk s' = lk s"
  by (induction es arbitrary: s)
     (auto simp: push_unchecked_def push_sqe_def link_lawsD(3) [OF link] dest: link_lawsD(2) [OF link]
       split: prod.splits sum.splits bool.splits)

lemma tee_reap_seen: "snd (tee_reap cs m k) = k + length cs"
  by (induction cs arbitrary: m k) simp_all

lemma tee_pass_link:
  assumes laws: "uring_laws ur view" "submits_all ur view" and link: "link_laws pipe_of cap ur view lk"
    and ports: "tee_ports outs dws drs" and room: "2 * length outs \<le> N" and idle: "ring_idle N view s"
    and chain: "lv_chains (lk s) = []"
  obtains s1 r s2 m' s3 where
    "tee_chunk ur src src_w src_r outs dws drs t p s = (Inr (2 * length outs), s1)"
    "ur_submit_and_wait ur (2 * length outs) s1 = (r, s2)"
    "tee_reap (ur_ready ur s2) m 0 = (m', length (ur_ready ur s2))"
    "s3 = ur_cq_advance ur (length (ur_ready ur s2)) s2" "all_run (lv_chains (lk s3))"
    "(answer_step pipe_of cap)\<^sup>*\<^sup>* ([tee_chain src src_w src_r outs dws drs t p], lv_world (lk s))
       (lv_chains (lk s3), lv_world (lk s3))"
proof (rule tee_pass_ring [OF laws ports room idle, of src src_w src_r t p])
  fix s1 r s2
  let ?ch = "tee_chain src src_w src_r outs dws drs t p" and ?cs = "ur_ready ur s2"
  let ?s3 = "ur_cq_advance ur (length ?cs) s2"
  assume push: "push_list ur ?ch s = (Inr (), s1)" "view s1 = view_push ?ch (view s)"
    and pass: "tee_chunk ur src src_w src_r outs dws drs t p s = (Inr (2 * length outs), s1)"
      "ur_submit_and_wait ur (2 * length outs) s1 = (r, s2)"
    and idle3: "ring_idle N view ?s3"
  have pend: "rv_pending (view s1) = ?ch" using push(2) idle by (simp add: ring_idle_def)
  have "nat r = length ?ch"
    using laws(2) pass(2) pend unfolding submits_all_def by (metis fst_conv nat_int)
  then have "(link_step pipe_of cap)\<^sup>*\<^sup>* (link_submit ?ch (lk s)) (lk s2)"
    using link_lawsD(5) [OF link pass(2)] push_list_link [OF link push(1)] pend by simp
  then have "link_path pipe_of cap [] (link_submit ?ch (lk s)) (lk s2)" by (rule link_path_steps)
  from link_path_answers [OF this]
  have steps: "(answer_step pipe_of cap)\<^sup>*\<^sup>* ([?ch], lv_world (lk s)) (lv_chains (lk s2), lv_world (lk s2))"
    using chain chains_concat [of "[?ch]"] linked_tee_chain by (simp add: link_submit_def)
  have seen: "lv_chains (lk ?s3) = lv_chains (lk s2)" "lv_world (lk ?s3) = lv_world (lk s2)"
    using link_lawsD(8) [OF link, of s2] by (auto simp: link_seen_def)
  have "rv_outstanding (view ?s3) = {#}" using idle3 by (simp add: ring_idle_def)
  from link_idle(1) [OF link this] have "all_run (lv_chains (lk ?s3))" .
  moreover have "tee_reap ?cs m 0 = (fst (tee_reap ?cs m 0), length ?cs)"
    using tee_reap_seen [of ?cs m 0] by (metis add_0 prod.collapse)
  ultimately show thesis using steps seen by (intro that [OF pass _ refl]) simp_all
qed

lemma tee_broadcast_partial:
  assumes laws: "uring_laws ur view" "init_succeeds ur" "submits_all ur view"
    and link: "link_laws pipe_of cap ur view lk" and ports: "tee_ports outs dws drs" "length outs \<le> 512"
    and size: "get_file_size fstat blk src = of_nat (length bytes)" "length bytes \<le> 262144"
    and wired: "tee_wired pipe_of p0 src src_w src_r outs dws drs"
    and w: "wd_files (lv_world (lk s)) src = bytes" "tee_empty pipe_of p0 outs dws (lv_world (lk s))"
  obtains g s' where "perform_tee_broadcast ur fstat blk src src_w src_r outs dws drs s = (Inr g, s')"
    "tee_safe outs (wd_files (lv_world (lk s))) bytes (lv_world (lk s'))"
proof -
  let ?sz = "of_nat (length bytes) :: size_t" and ?w = "lv_world (lk s)"
  have sz: "unat ?sz = length bytes" using size(2) by (simp add: unat_of_nat take_bit_eq_mod)
  have ne: "outs \<noteq> []" using ports by (simp add: tee_ports_def)
  obtain r s1 where i: "ur_init ur 1024 s = (r, s1)" "0 \<le> r" and idle: "ring_idle 1024 view s1"
    using init_idle [OF laws(1,2), of 10 s, simplified] by blast
  note start = link_lawsD(1) [OF link i]
  have stop: "tee_loop ur src src_w src_r outs dws drs ?sz ?sz m u = (Inr m, u)" for m u
    by (subst tee_loop.simps) simp
  show thesis
  proof (cases "bytes = []")
    case True
    then have "perform_tee_broadcast ur fstat blk src src_w src_r outs dws drs s = (Inr 0, ur_exit ur s1)"
      using i size(1) stop [of 0 s1] by (simp add: perform_tee_broadcast_def)
    moreover have "lv_world (lk (ur_exit ur s1)) = ?w"
      using link_lawsD(9) [OF link, of s1] start by (simp add: all_run_def)
    ultimately show thesis using True
      by (intro that) (auto simp: tee_safe_def write_at_def intro: exI [of _ 0])
  next
    case False
    then have lt: "0 < ?sz" using sz by (simp add: word_less_unat)
    have all: "tee_to_process ?sz 0 = ?sz"
      using sz size(2) by (simp add: tee_to_process_def NET_CHUNK_SIZE_def min_def word_le_unat)
    have "2 * length outs \<le> 1024" "lv_chains (lk s1) = []" using ports(2) start by simp_all
    from tee_pass_link [OF laws(1,3) link ports(1) this(1) idle this(2)] obtain u1 r' u2 m' s3 where
      pass: "tee_chunk ur src src_w src_r outs dws drs 0 ?sz s1 = (Inr (2 * length outs), u1)"
      "ur_submit_and_wait ur (2 * length outs) u1 = (r', u2)"
      "tee_reap (ur_ready ur u2) 0 0 = (m', length (ur_ready ur u2))"
      and s3: "s3 = ur_cq_advance ur (length (ur_ready ur u2)) u2" "all_run (lv_chains (lk s3))"
      and steps: "(answer_step pipe_of cap)\<^sup>*\<^sup>* ([tee_chain src src_w src_r outs dws drs 0 ?sz], ?w)
         (lv_chains (lk s3), lv_world (lk s3))"
      using start by (metis link_view.select_convs(4))
    have "tee_loop ur src src_w src_r outs dws drs ?sz 0 0 s1 = (Inr m', s3)"
      using lt pass s3(1) stop [of m' s3] by (subst tee_loop.simps) (simp add: Let_def all)
    then have run: "perform_tee_broadcast ur fstat blk src src_w src_r outs dws drs s = (Inr m', ur_exit ur s3)"
      using i size(1) by (simp add: perform_tee_broadcast_def)
    let ?inv = "tee_stage pipe_of p0 src src_w src_r outs dws drs bytes ?w"
    have sys: "invariant_system ?inv (answer_step pipe_of cap) ?inv"
      by unfold_locales
        (use tee_stage_step [where ?w0.0 = ?w, OF wired ne w(1) [symmetric] size(2) w(2)] in blast)+
    have "?inv ([tee_chain src src_w src_r outs dws drs 0 ?sz], ?w)" by (simp add: tee_stage_def Let_def)
    from invariant_system.reachable_inv [OF sys this steps] s3(2)
    have "tee_safe outs (wd_files ?w) bytes (lv_world (lk s3))"
      by (auto simp: tee_stage_def Let_def all_run_def tee_chain_def tee_rest_def)
    with link_lawsD(9) [OF link s3(2)] show thesis by (intro that [OF run]) (simp add: tee_safe_def)
  qed
qed

end
