(* ===== verification/Main_Faults.thy ===== *)
theory Main_Faults
  imports Splice_Faults Readv_Faults Tee_Faults
begin

text \<open>
  \<open>main\<close> when calls of its engines fail or fall short, where what is written stays right:
  in mode 1 an output is cut at a window boundary, in mode 2 it holds input bytes in their
  places, in mode 3 and from 4 on it is a prefix of a file of one piece. In all of them
  \<open>main\<close> returns 0: it prints the total and does not compare it with anything.
\<close>

section \<open>Mode 2 on a ring that answers as it likes\<close>

text \<open>
  The engine in \<open>main\<close>; the files are those of the kernel's world, which the ring's state
  holds, and what \<open>main\<close>'s own calls leave alone is the table of contexts.
\<close>

definition vec_link_machine :: "(ptr option, 's) uring \<Rightarrow> 'm posix \<Rightarrow> ('s \<Rightarrow> (ptr option) link_view) \<Rightarrow>
    (world \<Rightarrow> c_int \<Rightarrow> stat option) \<Rightarrow> c_int \<Rightarrow> c_int list \<Rightarrow> ('s, 'm) vec_state \<Rightarrow>
    (cpp_error + size_t) \<times> ('s, 'm) vec_state" where
  "vec_link_machine ur px lk fstat src outs st =
     (case perform_uring_broadcast ur px (fstat (lv_world (lk (vs_ring st)))) Map.empty src outs st of
        None \<Rightarrow> (Inl Blocks, st)
      | Some r \<Rightarrow> r)"

abbreviation vec_link_files :: "('s \<Rightarrow> (ptr option) link_view) \<Rightarrow> ('s, 'm) vec_state \<Rightarrow> c_int \<Rightarrow> byte list" where
  "vec_link_files lk st \<equiv> wd_files (lv_world (lk (vs_ring st)))"

text \<open>The tee engine in \<open>main\<close> on such a ring.\<close>

definition tee_link_machine :: "(uintptr, 's) uring \<Rightarrow> ('s \<Rightarrow> uintptr link_view) \<Rightarrow> (world \<Rightarrow> c_int \<Rightarrow> stat option) \<Rightarrow>
    c_int \<Rightarrow> c_int \<Rightarrow> c_int \<Rightarrow> c_int list \<Rightarrow> c_int list \<Rightarrow> c_int list \<Rightarrow> 's \<Rightarrow> (cpp_error + size_t) \<times> 's" where
  "tee_link_machine ur lk fstat src w r outs ws rs s =
     perform_tee_broadcast ur (fstat (lv_world (lk s))) Map.empty src w r outs ws rs s"

section \<open>Properties\<close>

text \<open>
  C5: the program in mode 1 never tears a file. If every system call of the engine succeeds
  completely or fails, then however many of them fail, and in whatever order the OpenMP team
  works, \<open>main\<close> returns 0 and the file of each output's name holds a prefix of what the input
  held: all of it, or a part that ends at a multiple of 64 MiB. Every other file is unchanged.
\<close>

theorem main_stops_cleanly:
  assumes "main_file_laws mc ino files live" "calls_succeed mc"
    and "4 \<le> length argv" "atoi (argv ! 1) = 1" "0 \<le> atoi (argv ! 3)"
    and "en_readv en = on_files (perform_readv_broadcast px sched)" "omp_schedule sched"
    and "posix_laws px F files mem live" "fail_stop px F files"
    and "set (ino (argv ! 2) # out_files ino argv) \<subseteq> F" "distinct (ino (argv ! 2) # out_files ino argv)"
    and "length (files k (ino (argv ! 2))) < 9223372036854775808"
  shows "\<exists>t' k'. main mc en argv (t, k) = (Inr 0, t', k') \<and>
    (\<forall>out \<in> set (out_files ino argv). window_cut (files k (ino (argv ! 2))) (files k' out)) \<and>
    (\<forall>g. g \<notin> set (out_files ino argv) \<longrightarrow> files k' g = files k g)"
proof -
  obtain k1 where k1: "\<And>g. files k1 g = (if g \<in> set (out_files ino argv) then [] else files k g)"
    and main: "\<And>n k2. perform_readv_broadcast px sched (ino (argv ! 2)) (out_files ino argv) k1 = (Inr n, k2) \<Longrightarrow>
      \<exists>t' k'. main mc en argv (t, k) = (Inr 0, t', k') \<and> files k' = files k2 \<and> live k' = live k2"
    by (rule main_files_run [OF assms(1-3,5), of en "perform_readv_broadcast px sched" k t])
      (use assms(4,6) in blast)+
  have "fault_ready px F files mem live (ino (argv ! 2)) (out_files ino argv) k1"
    using assms(8-12) k1 by (simp add: fault_ready_def tree_ready_def)
  from readv_broadcast_cuts [OF this assms(7)] obtain n k2 where
    run: "perform_readv_broadcast px sched (ino (argv ! 2)) (out_files ino argv) k1 = (Inr n, k2)"
      "\<forall>out \<in> set (out_files ino argv). window_cut (files k1 (ino (argv ! 2))) (files k2 out)"
      "\<forall>g. g \<notin> set (out_files ino argv) \<longrightarrow> files k2 g = files k1 g" by blast
  have "files k1 (ino (argv ! 2)) = files k (ino (argv ! 2))" using assms(11) k1 by simp
  moreover obtain t' k' where "main mc en argv (t, k) = (Inr 0, t', k')" "files k' = files k2"
    using main [OF run(1)] by blast
  ultimately show ?thesis using run(2,3) k1 by (intro exI [of _ t'] exI [of _ k']) simp
qed

text \<open>Writing to the second of three outputs fails; its copy, and only it, is empty.\<close>

definition three_names :: "string \<Rightarrow> c_int" where
  "three_names p =
     (if p = ''in.txt'' then 3
      else if p = ''./resource/1/Multi/output_0.txt'' then 5
      else if p = ''./resource/1/Multi/output_1.txt'' then 6 else 7)"

lemma three_names_files: "out_files three_names [''b'', ''1'', ''in.txt'', ''3''] = [5, 6, 7]" "atoi ''3'' = 3"
  by code_simp+

theorem main_stops_cleanly_witness:
  "\<exists>t' k'. main (run_main mem_empty three_names)
      ((run_engines seq_sched)\<lparr>en_readv := on_files (perform_readv_broadcast flaky_os seq_sched)\<rparr>)
      [''b'', ''1'', ''in.txt'', ''3''] ([], demo_os) = (Inr 0, t', k') \<and>
    (\<forall>out \<in> {5, 6, 7}. ms_files k' out \<in> {[], [1, 2, 3]}) \<and> ms_files k' 3 = [1, 2, 3]"
proof -
  let ?argv = "[''b'', ''1'', ''in.txt'', ''3'']"
  let ?en = "(run_engines seq_sched)\<lparr>en_readv := on_files (perform_readv_broadcast flaky_os seq_sched)\<rparr>"
  have argv: "4 \<le> length ?argv" "atoi (?argv ! 1) = 1" "0 \<le> atoi (?argv ! 3)"
    by (simp_all add: two_names_files three_names_files)
  have en: "en_readv ?en = on_files (perform_readv_broadcast flaky_os seq_sched)" by simp
  have ino: "three_names (?argv ! 2) = 3" by (simp add: three_names_def)
  have src: "ms_files demo_os 3 = [1, 2, 3]" by (simp add: demo_os_def)
  have small: "d \<in> {[], [1, 2, 3]}" if "window_cut [1, 2, 3] d" for d
    using window_cut_small [OF that] by simp
  from main_stops_cleanly [OF mem_main_laws run_main_succeeds argv en seq_sched_ok flaky_os_laws [of UNIV] flaky_os_stops,
      of three_names demo_os "[]", unfolded ino three_names_files(1) src]
  obtain t' k' where "main (run_main mem_empty three_names) ?en ?argv ([], demo_os) = (Inr 0, t', k')"
    "\<forall>out \<in> set [5, 6, 7]. window_cut [1, 2, 3] (ms_files k' out)"
    "\<forall>g. g \<notin> set [5, 6, 7] \<longrightarrow> ms_files k' g = ms_files demo_os g" by auto
  with small show ?thesis by (intro exI [of _ t'] exI [of _ k']) (simp add: src)
qed

text \<open>
  C6: the program in mode 2 writes nothing wrong. Whatever the kernel answers to each request
  of the engine -- all of it, less, an error --, whatever that cancels, and in whatever order
  the requests are worked on, \<open>main\<close> returns 0, and then the file of each output's name holds
  at every position a byte the input has there, or the zero of a hole; every other file is
  unchanged.
\<close>

theorem main_vectors_nothing_wrong:
  assumes "main_file_laws mc ino (vec_link_files lk) vs_ctxs" "calls_succeed mc"
    and "4 \<le> length argv" "atoi (argv ! 1) = 2" "0 \<le> atoi (argv ! 3)"
    and "en_uring en = on_files (vec_link_machine ur px lk fstat)"
    and "uring_laws ur view" "init_succeeds ur" "submits_all ur view" "waits_succeed ur"
    and "link_laws pipe_of cap ur view lk" "stat_law fstat (\<lambda>w. w) pipe_of"
    and "memalign_law px files mem live" "free_law px files live" "alloc_succeeds px" "vs_ctxs st = Map.empty"
    and "distinct (ino (argv ! 2) # out_files ino argv)" "pipe_of (ino (argv ! 2)) = None"
    and "length (vec_link_files lk st (ino (argv ! 2))) < 9223372036854775808"
    and "nat (atoi (argv ! 3)) * length (plan 8388608 (length (vec_link_files lk st (ino (argv ! 2)))) 0)
      < 18446744073709551616"
  shows "\<exists>t' st'. main mc en argv (t, st) = (Inr 0, t', st') \<and>
    (\<forall>out \<in> set (out_files ino argv). \<forall>i < length (vec_link_files lk st' out).
       i < length (vec_link_files lk st (ino (argv ! 2))) \<and>
         vec_link_files lk st' out ! i = vec_link_files lk st (ino (argv ! 2)) ! i \<or>
       vec_link_files lk st' out ! i = 0) \<and>
    (\<forall>g. g \<notin> set (out_files ino argv) \<longrightarrow> vec_link_files lk st' g = vec_link_files lk st g)"
proof -
  let ?in = "ino (argv ! 2)" and ?outs = "out_files ino argv"
  let ?files = "vec_link_files lk" and ?m = "vec_link_machine ur px lk fstat"
  have mode: "atoi (argv ! 1) = 1 \<and> en_readv en = on_files ?m \<or> atoi (argv ! 1) = 2 \<and> en_uring en = on_files ?m"
    using assms(4,6) by blast
  obtain st1 where st1: "\<And>g. ?files st1 g = (if g \<in> set ?outs then [] else ?files st g)" "vs_ctxs st1 = vs_ctxs st"
    and main: "\<And>n st2. ?m ?in ?outs st1 = (Inr n, st2) \<Longrightarrow>
      \<exists>t' st'. main mc en argv (t, st) = (Inr 0, t', st') \<and> ?files st' = ?files st2 \<and> vs_ctxs st' = vs_ctxs st2"
    by (rule main_files_run [OF assms(1-3,5) mode, of st t]) blast
  have names: "distinct ?outs" "?in \<notin> set ?outs" using assms(17) by simp_all
  have bytes: "?files st1 ?in = ?files st ?in" using st1(1) names(2) by simp
  have size: "get_file_size (fstat (lv_world (lk (vs_ring st1)))) Map.empty ?in = of_nat (length (?files st ?in))"
    using stat_law_size [OF assms(12,18)] by (simp add: bytes)
  have few: "length ?outs * length (plan 8388608 (length (?files st ?in)) 0) < 18446744073709551616"
    using assms(20) by (simp add: run_lengths)
  have ctx: "vs_ctxs st1 = Map.empty" using st1(2) assms(16) by simp
  from uring_broadcast_partial [OF assms(7-11,13-15) size assms(19) few ctx bytes names] obtain n st2 where
    r: "perform_uring_broadcast ur px (fstat (lv_world (lk (vs_ring st1)))) Map.empty ?in ?outs st1 = Some (Inr n, st2)"
      "\<forall>out \<in> set ?outs. partial_copy (?files st ?in) (?files st1 out) (?files st2 out)"
      "\<forall>g. g \<notin> set ?outs \<longrightarrow> ?files st2 g = ?files st1 g" by blast
  have "?m ?in ?outs st1 = (Inr n, st2)" by (simp add: vec_link_machine_def r(1))
  from main [OF this] obtain t' st' where
    "main mc en argv (t, st) = (Inr 0, t', st')" "?files st' = ?files st2" by blast
  moreover have "partial_copy (?files st ?in) [] (?files st2 out)" if "out \<in> set ?outs" for out
    using r(2) st1(1) that by metis
  ultimately show ?thesis
    using r(3) st1(1) by (intro exI [of _ t'] exI [of _ st']) (auto simp: partial_copy_def)
qed

text \<open>A kernel that writes at most two bytes at a time.\<close>

definition vec_link_empty :: "c_int \<Rightarrow> ((ptr option) link_ring, 'm) vec_state \<Rightarrow> ((ptr option) link_ring, 'm) vec_state" where
  "vec_link_empty f st = st\<lparr>vs_ring := (vs_ring st)\<lparr>lr_world := (lr_world (vs_ring st))
     \<lparr>wd_files := (wd_files (lr_world (vs_ring st)))(f := [])\<rparr>\<rparr>\<rparr>"

definition vec_link_demo :: "((ptr option) link_ring, mem_state) vec_state" where
  "vec_link_demo = \<lparr>vs_ring = link_start ring_world, vs_mem = demo_os, vs_ctxs = Map.empty, vs_next = 0\<rparr>"

definition short_engines :: "(fd_table \<times> ((ptr option) link_ring, mem_state) vec_state) engines" where
  "short_engines =
     \<lparr>en_readv = (\<lambda>i os s. (Inr 0, s)),
      en_uring = on_files (vec_link_machine (link_uring ring_pipes (two_bytes ring_pipes 0)) mem_os link_sim_lk ring_stat),
      en_splice = (\<lambda>i os ws rs s. (Inr 0, s)), en_tee = (\<lambda>i w r os ws rs s. (Inr 0, s))\<rparr>"

theorem main_vectors_nothing_wrong_witness:
  "\<exists>t' st'. main (run_main vec_link_empty ring_names) short_engines (ring_args ''2'') ([], vec_link_demo) =
      (Inr 0, t', st') \<and>
    partial_copy [7, 8, 9] [] (wd_files (lr_world (vs_ring st')) 4) \<and>
    wd_files (lr_world (vs_ring st')) 3 = [7, 8, 9]"
proof -
  let ?ur = "link_uring ring_pipes (two_bytes ring_pipes 0) :: (ptr option, (ptr option) link_ring) uring"
  have laws: "main_file_laws (run_main vec_link_empty ring_names) ring_names (vec_link_files link_sim_lk) vs_ctxs"
    by (rule run_main_laws) (simp_all add: vec_link_empty_def link_sim_lk_def)
  have argv: "atoi (ring_args ''2'' ! 1) = 2" "0 \<le> atoi (ring_args ''2'' ! 3)"
    unfolding ring_args_nth ring_run_names by simp_all
  have en: "en_uring short_engines = on_files (vec_link_machine ?ur mem_os link_sim_lk ring_stat)"
    by (simp add: short_engines_def)
  have link: "link_laws ring_pipes 0 ?ur link_sim_view link_sim_lk"
    by (rule link_uring_link_laws) (rule two_bytes_result)
  have px: "memalign_law mem_os ms_files ms_mem mem_live" "free_law mem_os ms_files mem_live"
    using mem_os_laws [of UNIV] by (simp_all add: posix_laws_def)
  have src: "vec_link_files link_sim_lk vec_link_demo 3 = [7, 8, 9]" "vs_ctxs vec_link_demo = Map.empty"
    by (simp_all add: vec_link_demo_def link_sim_lk_def link_start_def ring_world_def)
  have names: "distinct (ring_names (ring_args ''2'' ! 2) # out_files ring_names (ring_args ''2''))"
    "ring_pipes (ring_names (ring_args ''2'' ! 2)) = None"
    unfolding ring_args_nth ring_run_names by (simp_all add: ring_pipes_def)
  have len: "length (vec_link_files link_sim_lk vec_link_demo (ring_names (ring_args ''2'' ! 2))) = 3"
    by (simp only: ring_args_nth src) simp
  have "plan 8388608 3 0 = [(0, 3)]" by (simp add: plan_step)
  then have few: "length (vec_link_files link_sim_lk vec_link_demo (ring_names (ring_args ''2'' ! 2))) < 9223372036854775808"
    "nat (atoi (ring_args ''2'' ! 3)) *
      length (plan 8388608 (length (vec_link_files link_sim_lk vec_link_demo (ring_names (ring_args ''2'' ! 2)))) 0) <
      18446744073709551616"
    unfolding len by (simp_all only: ring_args_nth ring_run_names) simp_all
  from main_vectors_nothing_wrong [OF laws run_main_succeeds ring_args_nth(4) argv en link_uring_laws link_uring_ok link
      ring_stat_law px mem_os_alloc src(2) names few, of "[]"]
  show ?thesis unfolding ring_run_names ring_args_nth src
    by (auto simp: partial_copy_def link_sim_lk_def vec_link_demo_def link_start_def ring_world_def)
qed

text \<open>
  C7: the program in mode 3 on a file of one piece. With empty pipes of its own and at most
  256 outputs, whatever the kernel answers to each splice, \<open>main\<close> returns 0 and the file of
  each output's name holds a prefix of the input, which may be empty and need not be the same
  for all of them; every other file is unchanged.
\<close>

theorem main_splices_prefixes:
  assumes "main_file_laws mc ino (link_files lk) (\<lambda>s. wd_pipes (lv_world (lk s)))" "calls_succeed mc"
    and "4 \<le> length argv" "atoi (argv ! 1) = 3" "0 < atoi (argv ! 3)" "atoi (argv ! 3) \<le> 256"
    and "en_splice en = splice_on_files (link_machine ur lk fstat)"
    and "uring_laws ur view" "init_succeeds ur" "submits_all ur view" "waits_succeed ur"
    and "link_laws pipe_of cap ur view lk" "stat_law fstat (\<lambda>w. w) pipe_of" "run_names ino pipe_of argv"
    and "run_pipes_empty ino pipe_of argv (wd_pipes (lv_world (lk s)))"
    and "length (link_files lk s (ino (argv ! 2))) \<le> 262144"
  shows "\<exists>t' s'. main mc en argv (t, s) = (Inr 0, t', s') \<and>
    (\<forall>out \<in> set (out_files ino argv). prefix (link_files lk s' out) (link_files lk s (ino (argv ! 2)))) \<and>
    (\<forall>g. g \<notin> set (out_files ino argv) \<longrightarrow> link_files lk s' g = link_files lk s g)"
proof -
  let ?in = "ino (argv ! 2)" and ?outs = "out_files ino argv" and ?ps = "pipe_files ino argv"
  obtain s1 where s1: "\<And>g. link_files lk s1 g = (if g \<in> set ?outs then [] else link_files lk s g)"
      "wd_pipes (lv_world (lk s1)) = wd_pipes (lv_world (lk s))"
    and main: "\<And>n s2. link_machine ur lk fstat ?in ?outs ?ps ?ps s1 = (Inr n, s2) \<Longrightarrow>
      \<exists>t' s'. main mc en argv (t, s) = (Inr 0, t', s') \<and> link_files lk s' = link_files lk s2"
    by (rule main_splice_run [OF assms(1-5,7), of s t]) blast
  have names: "?in \<notin> set ?outs" "pipe_of ?in = None" using assms(14) by (simp_all add: run_names_def)
  have ports: "splice_ports ?outs ?ps ?ps" "length ?outs \<le> 256"
    using assms(5,6) by (simp_all add: splice_ports_def run_lengths length_0_conv [symmetric] del: length_0_conv)
  have bytes: "link_files lk s1 ?in = link_files lk s ?in" using s1(1) names(1) by simp
  have size: "get_file_size (fstat (lv_world (lk s1))) Map.empty ?in = of_nat (length (link_files lk s ?in))"
    using stat_law_size [OF assms(13) names(2)] bytes by simp
  have empty: "splice_empty pipe_of ?outs ?ps (lv_world (lk s1))"
    using assms(15) s1(2) by (intro run_pipes_empty_splice) simp
  obtain n s2 where s2: "perform_splice_broadcast ur (fstat (lv_world (lk s1))) Map.empty ?in ?outs ?ps ?ps s1 = (Inr n, s2)"
    "\<forall>out \<in> set ?outs. \<exists>k. link_files lk s2 out = write_at (link_files lk s1 out) 0 (take k (link_files lk s ?in))"
    "\<forall>g. g \<notin> set ?outs \<longrightarrow> link_files lk s2 g = link_files lk s1 g"
    by (rule splice_broadcast_partial [OF assms(8-12) ports size assms(16) run_names_splice [OF assms(14)] bytes empty])
  have "prefix (link_files lk s2 out) (link_files lk s ?in)" if "out \<in> set ?outs" for out
    using s2(2) s1(1) that by (auto simp: write_at_0_front take_is_prefix)
  with main [of n s2] s2(1,3) s1(1) show ?thesis by (auto simp: link_machine_def)
qed

text \<open>A kernel whose splices into files move at most one byte.\<close>

theorem main_splices_prefixes_witness:
  "\<exists>t' s'. main (run_main link_empty ring_names)
      (ring_engines\<lparr>en_splice := splice_on_files
        (link_machine (link_uring ring_pipes (slow_output ring_pipes 262144 1)) link_sim_lk ring_stat)\<rparr>)
      (ring_args ''3'') ([], link_start ring_world) = (Inr 0, t', s') \<and>
    prefix (wd_files (lr_world s') 4) [7, 8, 9] \<and> prefix (wd_files (lr_world s') 5) [7, 8, 9] \<and>
    wd_files (lr_world s') 3 = [7, 8, 9]"
proof -
  let ?ur = "link_uring ring_pipes (slow_output ring_pipes 262144 1) :: (uintptr, uintptr link_ring) uring"
  let ?en = "ring_engines\<lparr>en_splice := splice_on_files (link_machine ?ur link_sim_lk ring_stat)\<rparr>"
  have argv: "atoi (ring_args ''3'' ! 1) = 3" "0 < atoi (ring_args ''3'' ! 3)" "atoi (ring_args ''3'' ! 3) \<le> 256"
    unfolding ring_args_nth ring_run_names by simp_all
  have en: "en_splice ?en = splice_on_files (link_machine ?ur link_sim_lk ring_stat)" by simp
  have size: "length (link_files link_sim_lk (link_start ring_world) (ring_names (ring_args ''3'' ! 2))) \<le> 262144"
    unfolding ring_args_nth by (simp add: link_sim_lk_def link_start_def ring_world_def)
  from main_splices_prefixes [OF link_main_laws run_main_succeeds ring_args_nth(4) argv en link_uring_laws link_uring_ok
      slow_link_laws ring_stat_law ring_names_ok(1) link_pipes_ok size, of "[]"]
  show ?thesis unfolding ring_run_names ring_args_nth
    by (auto simp: link_sim_lk_def link_start_def ring_world_def)
qed

text \<open>
  C8: the program in the modes from 4 on, on a file of one piece. With empty pipes of its
  own and at most 512 outputs, whatever the kernel answers to each tee and splice of the one
  chain, and whatever that cancels, \<open>main\<close> returns 0 and the file of each output's name holds
  a prefix of the input; every other file is unchanged.
\<close>

theorem main_tees_prefixes:
  assumes "main_file_laws mc ino (link_files lk) (\<lambda>s. wd_pipes (lv_world (lk s)))" "calls_succeed mc"
    and "4 \<le> length argv" "3 < atoi (argv ! 1)" "0 < atoi (argv ! 3)" "atoi (argv ! 3) \<le> 512"
    and "en_tee en = tee_on_files (tee_link_machine ur lk fstat)"
    and "uring_laws ur view" "init_succeeds ur" "submits_all ur view"
    and "link_laws pipe_of cap ur view lk" "stat_law fstat (\<lambda>w. w) pipe_of" "run_names ino pipe_of argv"
    and "run_pipes_empty ino pipe_of argv (wd_pipes (lv_world (lk s)))"
    and "length (link_files lk s (ino (argv ! 2))) \<le> 262144"
  shows "\<exists>t' s'. main mc en argv (t, s) = (Inr 0, t', s') \<and>
    (\<forall>out \<in> set (out_files ino argv). prefix (link_files lk s' out) (link_files lk s (ino (argv ! 2)))) \<and>
    (\<forall>g. g \<notin> set (out_files ino argv) \<longrightarrow> link_files lk s' g = link_files lk s g)"
proof -
  let ?in = "ino (argv ! 2)" and ?outs = "out_files ino argv" and ?ps = "pipe_files ino argv"
  let ?p = "ino (pipe_path (run_dir argv) 0)"
  obtain s1 where s1: "\<And>g. link_files lk s1 g = (if g \<in> set ?outs then [] else link_files lk s g)"
      "wd_pipes (lv_world (lk s1)) = wd_pipes (lv_world (lk s))"
    and main: "\<And>n s2. tee_link_machine ur lk fstat ?in ?p ?p ?outs ?ps ?ps s1 = (Inr n, s2) \<Longrightarrow>
      \<exists>t' s'. main mc en argv (t, s) = (Inr 0, t', s') \<and> link_files lk s' = link_files lk s2"
    by (rule main_tee_run [OF assms(1-5,7), of s t]) blast
  have names: "?in \<notin> set ?outs" "pipe_of ?in = None" using assms(13) by (simp_all add: run_names_def)
  have ports: "tee_ports ?outs ?ps ?ps" "length ?outs \<le> 512"
    using assms(5,6) by (simp_all add: tee_ports_def run_lengths length_0_conv [symmetric] del: length_0_conv)
  have bytes: "link_files lk s1 ?in = link_files lk s ?in" using s1(1) names(1) by simp
  have size: "get_file_size (fstat (lv_world (lk s1))) Map.empty ?in = of_nat (length (link_files lk s ?in))"
    using stat_law_size [OF assms(12) names(2)] bytes by simp
  note empty = run_pipes_empty_tee [OF assms(14) [folded s1(2)]]
  obtain n s2 where s2: "perform_tee_broadcast ur (fstat (lv_world (lk s1))) Map.empty ?in ?p ?p ?outs ?ps ?ps s1 = (Inr n, s2)"
    "tee_safe ?outs (link_files lk s1) (link_files lk s ?in) (lv_world (lk s2))"
    by (rule tee_broadcast_partial [OF assms(8-11) ports size assms(15) run_names_tee [OF assms(13)] bytes empty])
  have "prefix (link_files lk s2 out) (link_files lk s ?in)" if "out \<in> set ?outs" for out
    using s2(2) s1(1) that by (auto simp: tee_safe_def write_at_0_front take_is_prefix)
  moreover have "link_files lk s2 g = link_files lk s g" if "g \<notin> set ?outs" for g
    using s2(2) s1(1) that by (simp add: tee_safe_def)
  moreover obtain t' s' where "main mc en argv (t, s) = (Inr 0, t', s')" "link_files lk s' = link_files lk s2"
    using main [of n s2] s2(1) by (auto simp: tee_link_machine_def)
  ultimately show ?thesis by (intro exI [of _ t'] exI [of _ s']) simp
qed

theorem main_tees_prefixes_witness:
  "\<exists>t' s'. main (run_main link_empty ring_names)
      (ring_engines\<lparr>en_tee := tee_on_files
        (tee_link_machine (link_uring ring_pipes (slow_output ring_pipes 262144 1)) link_sim_lk ring_stat)\<rparr>)
      (ring_args ''4'') ([], link_start ring_world) = (Inr 0, t', s') \<and>
    prefix (wd_files (lr_world s') 4) [7, 8, 9] \<and> prefix (wd_files (lr_world s') 5) [7, 8, 9] \<and>
    wd_files (lr_world s') 3 = [7, 8, 9]"
proof -
  let ?ur = "link_uring ring_pipes (slow_output ring_pipes 262144 1) :: (uintptr, uintptr link_ring) uring"
  let ?en = "ring_engines\<lparr>en_tee := tee_on_files (tee_link_machine ?ur link_sim_lk ring_stat)\<rparr>"
  have argv: "3 < atoi (ring_args ''4'' ! 1)" "0 < atoi (ring_args ''4'' ! 3)" "atoi (ring_args ''4'' ! 3) \<le> 512"
    unfolding ring_args_nth ring_run_names by simp_all
  have en: "en_tee ?en = tee_on_files (tee_link_machine ?ur link_sim_lk ring_stat)" by simp
  have size: "length (link_files link_sim_lk (link_start ring_world) (ring_names (ring_args ''4'' ! 2))) \<le> 262144"
    unfolding ring_args_nth by (simp add: link_sim_lk_def link_start_def ring_world_def)
  from main_tees_prefixes [OF link_main_laws run_main_succeeds ring_args_nth(4) argv en link_uring_laws link_uring_ok(1,2)
      slow_link_laws ring_stat_law ring_names_ok(2) link_pipes_ok size, of "[]"]
  show ?thesis unfolding ring_run_names ring_args_nth
    by (auto simp: link_sim_lk_def link_start_def ring_world_def)
qed

end
