(* ===== verification/Main_Cleanup.thy ===== *)
theory Main_Cleanup
  imports Main_Driver Readv_Broadcast Splice Tee Uring_Vec_Answers
begin

text \<open>
  What a run of the whole program, its engines included, leaves behind in the tables of the
  kernel. A ring is a descriptor as well: \<open>io_uring_queue_init\<close> opens it and
  \<open>io_uring_queue_exit\<close> closes it. Each engine that comes back has closed the one it opened.
\<close>

section \<open>The descriptor of a ring\<close>

record kernel_table =
  kt_open :: "c_int set"
  kt_fifos :: "string set"
  kt_ring :: c_int  \<comment> \<open>the descriptor of the ring of the process\<close>

text \<open>
  The documented behaviour of liburing on it. Requests may succeed or fail and move what they
  like, but no request of the engines opens or closes a descriptor.
\<close>

definition ring_table_laws :: "('d, 's) uring \<Rightarrow> ('s \<Rightarrow> kernel_table) \<Rightarrow> bool" where
  "ring_table_laws ur tab \<longleftrightarrow>
     (\<forall>n s r s'. ur_init ur n s = (r, s') \<longrightarrow>
        kt_fifos (tab s') = kt_fifos (tab s) \<and>
        (if r < 0 then kt_open (tab s') = kt_open (tab s)
         else kt_ring (tab s') \<notin> kt_open (tab s) \<and>
           kt_open (tab s') = insert (kt_ring (tab s')) (kt_open (tab s)))) \<and>
     (\<forall>s. kt_fifos (tab (ur_exit ur s)) = kt_fifos (tab s) \<and>
        kt_open (tab (ur_exit ur s)) = kt_open (tab s) - {kt_ring (tab s)}) \<and>
     (\<forall>s. tab (snd (ur_get_sqe ur s)) = tab s \<and> (\<forall>e. tab (ur_prep ur e s) = tab s)) \<and>
     (\<forall>s. tab (snd (ur_submit ur s)) = tab s \<and> (\<forall>n. tab (snd (ur_submit_and_wait ur n s)) = tab s)) \<and>
     (\<forall>s. tab (snd (ur_wait_cqe ur s)) = tab s \<and> (\<forall>c. tab (ur_cqe_seen ur c s) = tab s) \<and>
        (\<forall>n. tab (ur_cq_advance ur n s) = tab s))"

lemma ring_table_lawsD:
  assumes "ring_table_laws ur tab"
  shows "ur_get_sqe ur s = (b, s1) \<Longrightarrow> tab s1 = tab s" "tab (ur_prep ur e s) = tab s"
    "ur_submit ur s = (r, s1) \<Longrightarrow> tab s1 = tab s"
    "ur_submit_and_wait ur n s = (r, s1) \<Longrightarrow> tab s1 = tab s"
    "ur_wait_cqe ur s = (x, s1) \<Longrightarrow> tab s1 = tab s" "tab (ur_cqe_seen ur c s) = tab s"
    "tab (ur_cq_advance ur n s) = tab s"
  using assms unfolding ring_table_laws_def by (metis snd_conv)+

lemma push_sqe_tab: "ring_table_laws ur tab \<Longrightarrow> push_sqe ur e s = (b, s1) \<Longrightarrow> tab s1 = tab s"
  by (auto simp: push_sqe_def ring_table_lawsD(2) dest: ring_table_lawsD(1) split: prod.splits bool.splits)

lemma push_unchecked_tab:
  "ring_table_laws ur tab \<Longrightarrow> push_unchecked ur e s = (x, s1) \<Longrightarrow>
    tab s1 = tab s \<and> (\<forall>err. x = Inl err \<longrightarrow> err = Null_deref)"
  by (auto simp: push_unchecked_def dest: push_sqe_tab split: prod.splits bool.splits)

text \<open>A ring that has been set up and torn down, with nothing opened or closed in between.\<close>

lemma ring_session_tab:
  assumes "ring_table_laws ur tab" "ur_init ur n s = (r, s1)" "0 \<le> r" "tab s2 = tab s1"
  shows "kt_open (tab (ur_exit ur s2)) = kt_open (tab s)" "kt_fifos (tab (ur_exit ur s2)) = kt_fifos (tab s)"
proof -
  have i: "kt_fifos (tab s1) = kt_fifos (tab s)" "kt_ring (tab s1) \<notin> kt_open (tab s)"
    "kt_open (tab s1) = insert (kt_ring (tab s1)) (kt_open (tab s))"
    using assms(1) [unfolded ring_table_laws_def, THEN conjunct1, rule_format, OF assms(2)] assms(3) by auto
  note e = assms(1) [unfolded ring_table_laws_def, THEN conjunct2, THEN conjunct1, rule_format, of s2]
  show "kt_open (tab (ur_exit ur s2)) = kt_open (tab s)" "kt_fifos (tab (ur_exit ur s2)) = kt_fifos (tab s)"
    using e i unfolding assms(4) by auto
qed

lemma no_ring_tab:
  assumes "ring_table_laws ur tab" "ur_init ur n s = (r, s1)" "r < 0"
  shows "kt_open (tab s1) = kt_open (tab s)" "kt_fifos (tab s1) = kt_fifos (tab s)"
  using assms(1) [unfolded ring_table_laws_def, THEN conjunct1, rule_format, OF assms(2)] assms(3) by auto

section \<open>Mode 3\<close>

lemma index_at_error: "index_at xs i = Inl e \<Longrightarrow> e = Out_of_bounds"
  by (auto simp: index_at_def split: if_splits)

lemma splice_outputs_tab:
  assumes "ring_table_laws ur tab"
  shows "splice_outputs ur src outs dws drs t p n k s = (x, s') \<Longrightarrow>
    tab s' = tab s \<and> (\<forall>e. x = Inl e \<longrightarrow> e = Out_of_bounds)"
proof (induction n arbitrary: k s)
  case (Suc n)
  from Suc.prems show ?case
    by (auto simp: Let_def ring_table_lawsD(2) [OF assms] dest!: ring_table_lawsD(1) [OF assms] Suc.IH index_at_error
        split: prod.splits bool.splits sum.splits)
qed auto

lemma splice_reap_tab:
  assumes "ring_table_laws ur tab"
  shows "splice_reap ur k v s = (x, s') \<Longrightarrow> tab s' = tab s \<and> (\<forall>e. x = Inl e \<longrightarrow> e = Blocks)"
proof (induction k arbitrary: v s)
  case (Suc k)
  from Suc.prems show ?case
    by (auto simp: ring_table_lawsD(6) [OF assms] dest!: ring_table_lawsD(5) [OF assms] Suc.IH
        split: prod.splits option.splits sum.splits)
qed auto

lemma splice_loop_tab:
  assumes "ring_table_laws ur tab"
  shows "splice_loop ur src outs dws drs sz t v k s = (x, s') \<Longrightarrow>
    tab s' = tab s \<and> (\<forall>e. x = Inl e \<longrightarrow> e = Out_of_bounds \<or> e = Blocks)"
proof (induction "unat (sz - t)" arbitrary: t v k s rule: less_induct)
  case less
  let ?p = "splice_step sz t"
  show ?case
  proof (cases "t <s sz")
    case False
    with less.prems show ?thesis by (subst (asm) splice_loop.simps) auto
  next
    case True
    note IH = less.hyps [OF splice_progress [OF True]]
    obtain y s1 where y: "splice_outputs ur src outs dws drs t ?p (length outs) k s = (y, s1)" by fastforce
    note t1 = splice_outputs_tab [OF assms y]
    obtain r s2 where s2: "ur_submit ur s1 = (r, s2)" by fastforce
    note t2 = ring_table_lawsD(3) [OF assms s2]
    show ?thesis
    proof (cases y)
      case (Inl e)
      with less.prems True y t1 show ?thesis by (subst (asm) splice_loop.simps) (auto simp: Let_def)
    next
      case (Inr m)
      obtain z s3 where z: "splice_reap ur m v s2 = (z, s3)" by fastforce
      note t3 = splice_reap_tab [OF assms z]
      have "splice_loop ur src outs dws drs sz t v k s =
          (if 512 \<le> m \<or> \<not> t + ?p <s sz
           then (case z of Inl e \<Rightarrow> (Inl e, s3)
                 | Inr (l, w) \<Rightarrow> splice_loop ur src outs dws drs sz (t + ?p) w l s3)
           else splice_loop ur src outs dws drs sz (t + ?p) v m s1)"
        using True y Inr s2 z by (subst splice_loop.simps) (simp add: Let_def)
      with less.prems t1 t2 t3 show ?thesis by (auto dest!: IH split: if_splits sum.splits)
    qed
  qed
qed

lemma splice_gives_back:
  assumes "ring_table_laws ur tab" "perform_splice_broadcast ur fstat blk src outs dws drs s = (x, s')" "caught x"
  shows "kt_open (tab s') = kt_open (tab s)" "kt_fifos (tab s') = kt_fifos (tab s)"
proof -
  obtain r s1 where i: "ur_init ur 512 s = (r, s1)" by fastforce
  obtain y s2 where y: "splice_loop ur src outs dws drs (get_file_size fstat blk src) 0 0 0 s1 = (y, s2)" by fastforce
  note t = splice_loop_tab [OF assms(1) y]
  have "r < 0 \<and> s' = s1 \<or> 0 \<le> r \<and> s' = ur_exit ur s2"
    using assms(2,3) i y t by (auto simp: perform_splice_broadcast_def caught_def split: if_splits sum.splits)
  then show "kt_open (tab s') = kt_open (tab s)" "kt_fifos (tab s') = kt_fifos (tab s)"
    using no_ring_tab [OF assms(1) i] ring_session_tab [OF assms(1) i] t by auto
qed

section \<open>The modes from 4 on\<close>

lemma tee_branches_tab:
  assumes "ring_table_laws ur tab"
  shows "tee_branches ur src_r outs dws drs t p i k s = (x, s') \<Longrightarrow>
    tab s' = tab s \<and> (\<forall>e. x = Inl e \<longrightarrow> e = Out_of_bounds \<or> e = Null_deref)"
proof (induction "unat ((of_nat (length outs) - 1 :: size_t) - i)" arbitrary: i k s rule: less_induct)
  case less
  show ?case
  proof (cases "i < of_nat (length outs) - 1")
    case False
    with less.prems show ?thesis by (subst (asm) tee_branches.simps) auto
  next
    case True
    note IH = less.hyps [OF branches_progress [OF True]]
    from less.prems True show ?thesis
      by (subst (asm) tee_branches.simps)
        (auto dest!: IH index_at_error push_unchecked_tab [OF assms]
          split: sum.splits prod.splits)
  qed
qed

lemma tee_chunk_tab:
  assumes "ring_table_laws ur tab" "tee_chunk ur src src_w src_r outs dws drs t p s = (x, s')"
  shows "tab s' = tab s \<and> (\<forall>e. x = Inl e \<longrightarrow> e = Out_of_bounds \<or> e = Null_deref)"
  using assms(2)
  by (auto simp: tee_chunk_def dest!: tee_branches_tab [OF assms(1)] push_unchecked_tab [OF assms(1)]
      split: sum.splits prod.splits if_splits)

lemma tee_loop_tab:
  assumes "ring_table_laws ur tab"
  shows "tee_loop ur src src_w src_r outs dws drs sz t m s = (x, s') \<Longrightarrow>
    tab s' = tab s \<and> (\<forall>e. x = Inl e \<longrightarrow> e = Out_of_bounds \<or> e = Null_deref)"
proof (induction "unat (sz - t)" arbitrary: t m s rule: less_induct)
  case less
  let ?p = "tee_to_process sz t"
  show ?case
  proof (cases "t < sz")
    case False
    with less.prems show ?thesis by (subst (asm) tee_loop.simps) auto
  next
    case True
    note IH = less.hyps [OF tee_progress [OF True]]
    obtain y s1 where y: "tee_chunk ur src src_w src_r outs dws drs t ?p s = (y, s1)" by fastforce
    note t1 = tee_chunk_tab [OF assms y]
    show ?thesis
    proof (cases y)
      case (Inl e)
      with less.prems True y t1 show ?thesis by (subst (asm) tee_loop.simps) (auto simp: Let_def)
    next
      case (Inr k)
      obtain r s2 where s2: "ur_submit_and_wait ur k s1 = (r, s2)" by fastforce
      obtain m' n where n: "tee_reap (ur_ready ur s2) m 0 = (m', n)" by fastforce
      have "tee_loop ur src src_w src_r outs dws drs sz (t + ?p) m' (ur_cq_advance ur n s2) = (x, s')"
        using less.prems True y Inr s2 n by (subst (asm) tee_loop.simps) (simp add: Let_def)
      from IH [OF this] t1 ring_table_lawsD(4) [OF assms s2] ring_table_lawsD(7) [OF assms]
      show ?thesis by simp
    qed
  qed
qed

lemma tee_gives_back:
  assumes "ring_table_laws ur tab" "caught x"
    and "perform_tee_broadcast ur fstat blk src src_w src_r outs dws drs s = (x, s')"
  shows "kt_open (tab s') = kt_open (tab s)" "kt_fifos (tab s') = kt_fifos (tab s)"
proof -
  obtain r s1 where i: "ur_init ur 1024 s = (r, s1)" by fastforce
  obtain y s2 where y: "tee_loop ur src src_w src_r outs dws drs (get_file_size fstat blk src) 0 0 s1 = (y, s2)"
    by fastforce
  note t = tee_loop_tab [OF assms(1) y]
  have "0 \<le> r \<and> s' = ur_exit ur s2"
    using assms(2,3) i y t by (auto simp: perform_tee_broadcast_def caught_def split: if_splits sum.splits)
  then show "kt_open (tab s') = kt_open (tab s)" "kt_fifos (tab s') = kt_fifos (tab s)"
    using ring_session_tab [OF assms(1) i] t by auto
qed

section \<open>Mode 2\<close>

text \<open>Staying in one table is a relation in the sense of \<open>ring_relation\<close>.\<close>

lemma table_relation: "ring_table_laws ur tab \<Longrightarrow> ring_relation ur (\<lambda>s s'. tab s' = tab s)"
  by unfold_locales (auto dest: push_sqe_tab ring_table_lawsD(3,5) simp: ring_table_lawsD(6))

lemma vec_gives_back:
  assumes laws: "ring_table_laws ur tab"
    and run: "perform_uring_broadcast ur px fstat blk inp outs st = Some (Inr n, st')"
  shows "kt_open (tab (vs_ring st')) = kt_open (tab (vs_ring st))"
    "kt_fifos (tab (vs_ring st')) = kt_fifos (tab (vs_ring st))"
proof -
  note rel = table_relation [OF laws]
  obtain r s1 where i: "ur_init ur 1024 (vs_ring st) = (r, s1)" by fastforce
  let ?N = "windows_per_file (get_file_size fstat blk inp) * of_nat (length outs)"
  obtain y st1 where y: "vec_submit_all ur px fstat blk inp outs (st\<lparr>vs_ring := s1\<rparr>) = (y, st1)" by fastforce
  show "kt_open (tab (vs_ring st')) = kt_open (tab (vs_ring st))"
    "kt_fifos (tab (vs_ring st')) = kt_fifos (tab (vs_ring st))"
  proof (atomize (full), cases "r < 0")
    case True
    then have "vs_ring st' = s1" using run i by (auto simp: perform_uring_broadcast_def)
    then show "kt_open (tab (vs_ring st')) = kt_open (tab (vs_ring st)) \<and>
        kt_fifos (tab (vs_ring st')) = kt_fifos (tab (vs_ring st))"
      using no_ring_tab [OF laws i True] by simp
  next
    case False
    then have go: "(case y of Inl e \<Rightarrow> Some (Inl e, st1)
      | Inr _ \<Rightarrow> (case vec_reap ur px ?N 0 0 st1 of None \<Rightarrow> None | Some (Inl e, st2) \<Rightarrow> Some (Inl e, st2)
        | Some (Inr m, st2) \<Rightarrow> Some (Inr m, st2\<lparr>vs_ring := ur_exit ur (vs_ring st2)\<rparr>))) = Some (Inr n, st')"
      using run i y by (simp add: perform_uring_broadcast_def Let_def)
    then have u: "y = Inr ()" by (cases y) simp_all
    with go obtain m st2 where st2: "vec_reap ur px ?N 0 0 st1 = Some (Inr m, st2)"
      "vs_ring st' = ur_exit ur (vs_ring st2)" by (auto split: option.splits sum.splits)
    have "tab (vs_ring st2) = tab s1"
      using ring_relation.submit_all_rel [OF rel y [unfolded u]] ring_relation.reap_rel [OF rel st2(1)] by simp
    then show "kt_open (tab (vs_ring st')) = kt_open (tab (vs_ring st)) \<and>
        kt_fifos (tab (vs_ring st')) = kt_fifos (tab (vs_ring st))"
      using ring_session_tab [OF laws i, of "vs_ring st2"] False st2(2) by simp
  qed
qed

section \<open>The program with its engines\<close>

text \<open>
  The engines of the program in the places of \<open>main\<close>'s record. The state is the kernel, with
  the ring in it, the memory and the objects the vectored engine makes with \<open>new\<close>. Memory and
  transfer calls (\<open>px\<close>) work on the memory; a wait that never returns ends the program.
\<close>

definition program_engines :: "(ptr option, 's) uring \<Rightarrow> (uintptr, 's) uring \<Rightarrow> 'm posix \<Rightarrow> (nat \<Rightarrow> nat list) \<Rightarrow>
    ('s \<Rightarrow> c_int \<Rightarrow> stat option) \<Rightarrow> (c_int \<Rightarrow> 64 word option) \<Rightarrow> ('s, 'm) vec_state engines" where
  "program_engines vur ur px sched fstat blk =
     \<lparr>en_readv = (\<lambda>i os st. case perform_readv_broadcast px sched i os (vs_mem st) of (x, m) \<Rightarrow> (x, st\<lparr>vs_mem := m\<rparr>)),
      en_uring = (\<lambda>i os st. case perform_uring_broadcast vur px (fstat (vs_ring st)) blk i os st of
                              None \<Rightarrow> (Inl Blocks, st) | Some r \<Rightarrow> r),
      en_splice = (\<lambda>i os ws rs st. case perform_splice_broadcast ur (fstat (vs_ring st)) blk i os ws rs (vs_ring st) of
                                     (x, r) \<Rightarrow> (x, st\<lparr>vs_ring := r\<rparr>)),
      en_tee = (\<lambda>i w r os ws rs st. case perform_tee_broadcast ur (fstat (vs_ring st)) blk i w r os ws rs (vs_ring st) of
                                      (x, r) \<Rightarrow> (x, st\<lparr>vs_ring := r\<rparr>))\<rparr>"

abbreviation table_open :: "('s \<Rightarrow> kernel_table) \<Rightarrow> ('s, 'm) vec_state \<Rightarrow> c_int set" where
  "table_open tab st \<equiv> kt_open (tab (vs_ring st))"

abbreviation table_fifos :: "('s \<Rightarrow> kernel_table) \<Rightarrow> ('s, 'm) vec_state \<Rightarrow> string set" where
  "table_fifos tab st \<equiv> kt_fifos (tab (vs_ring st))"

lemma program_engines_law:
  assumes "ring_table_laws vur tab" "ring_table_laws ur tab"
  shows "engines_law (program_engines vur ur px sched fstat blk) (table_open tab) (table_fifos tab)"
  unfolding engines_law_def gives_back_def program_engines_def
  by (auto split: prod.splits option.splits
      dest: vec_gives_back [OF assms(1)] splice_gives_back [OF assms(2)] tee_gives_back [OF assms(2)])

section \<open>Properties\<close>

text \<open>
  C27: nothing is left behind. Let \<open>main\<close> run with the engines of the program, in any mode
  and on any input, whatever its calls, the allocator and the requests answer, success,
  failure or short: if it returns an exit code, the open descriptors are those that were open
  when it started -- files, ends of pipes and rings are all closed --, and every FIFO it
  made is unlinked. Assumed is only which calls open and close what: the calls of \<open>main\<close>
  (\<open>main_laws\<close>) and those of liburing (\<open>ring_table_laws\<close>).
\<close>

theorem main_cleans_up:
  assumes "main_laws mc (table_open tab) (table_fifos tab)"
    and "ring_table_laws vur tab" "ring_table_laws ur tab"
    and "main mc (program_engines vur ur px sched fstat blk) argv st = (Inr code, st')"
  shows "table_open tab st' = table_open tab st \<and> table_fifos tab st' \<subseteq> table_fifos tab st"
  by (rule main_restores [OF assms(1) program_engines_law [OF assms(2,3)] assms(4)])

text \<open>
  A kernel: the lists of open descriptors and of FIFOs, and the ring's descriptor. Its calls
  succeed, but its rings have no room for a request.
\<close>

type_synonym small_kernel = "(c_int list \<times> string list) \<times> c_int"

definition small_table :: "small_kernel \<Rightarrow> kernel_table" where
  "small_table k = \<lparr>kt_open = set (fst (fst k)), kt_fifos = set (snd (fst k)), kt_ring = snd k\<rparr>"

definition small_ring :: "('d, small_kernel) uring" where
  "small_ring =
     \<lparr>ur_init = (\<lambda>n k. case sim_open (fst k) of (fd, t) \<Rightarrow> (0, t, fd)),
      ur_get_sqe = (\<lambda>k. (False, k)), ur_prep = (\<lambda>e k. k), ur_submit = (\<lambda>k. (0, k)),
      ur_submit_and_wait = (\<lambda>n k. (0, k)), ur_wait_cqe = (\<lambda>k. (Some (Inl (-4)), k)),
      ur_cqe_seen = (\<lambda>c k. k), ur_ready = (\<lambda>k. []), ur_cq_advance = (\<lambda>n k. k),
      ur_exit = (\<lambda>k. ((filter (\<lambda>g. g \<noteq> snd k) (fst (fst k)), snd (fst k)), snd k))\<rparr>"

definition on_table :: "(c_int list \<times> string list \<Rightarrow> 'a \<times> c_int list \<times> string list) \<Rightarrow>
    (small_kernel, 'm) vec_state \<Rightarrow> 'a \<times> (small_kernel, 'm) vec_state" where
  "on_table f st = (case f (fst (vs_ring st)) of (x, t) \<Rightarrow> (x, st\<lparr>vs_ring := (t, snd (vs_ring st))\<rparr>))"

definition small_main :: "(small_kernel, 'm) vec_state main_calls" where
  "small_main =
     \<lparr>mc_open = (\<lambda>p m. on_table (mc_open sim_main p m)), mc_close = (\<lambda>fd st. snd (on_table (\<lambda>t. ((), mc_close sim_main fd t)) st)),
      mc_dup = (\<lambda>fd. on_table (mc_dup sim_main fd)), mc_setpipe_sz = (\<lambda>fd n st. st),
      mc_create_directories = (\<lambda>p st. (None, st)),
      mc_mkfifo = (\<lambda>p. on_table (mc_mkfifo sim_main p)),
      mc_unlink = (\<lambda>p st. snd (on_table (\<lambda>t. ((), mc_unlink sim_main p t)) st))\<rparr>"

lemma small_ring_laws: "ring_table_laws small_ring small_table"
  using sim_open_fresh
  by (auto simp: ring_table_laws_def small_ring_def small_table_def sim_open_def Let_def)

lemma on_table_simps:
  "fst (on_table f st) = fst (f (fst (vs_ring st)))"
  "vs_ring (snd (on_table f st)) = (snd (f (fst (vs_ring st))), snd (vs_ring st))"
  by (simp_all add: on_table_def case_prod_beta)

lemma small_main_laws: "main_laws small_main (table_open small_table) (table_fifos small_table)"
proof -
  have "1 + sum_list (map abs fds) \<notin> set fds \<and> 0 < 1 + sum_list (map abs fds)" for fds :: "c_int list"
    using sim_open_fresh [of "(fds, [])"] by (simp add: sim_open_def Let_def)
  moreover from this have "\<not> 1 + sum_list (map abs fds) < 0" for fds :: "c_int list"
    by (meson less_asym)
  ultimately show ?thesis
    by (simp add: main_laws_def small_main_def sim_main_def fresh_or_failed_def on_table_simps small_table_def
        sim_open_def Let_def set_diff_eq)
qed

definition small_start :: "(small_kernel, mem_state) vec_state" where
  "small_start = \<lparr>vs_ring = (([5], [''old'']), 0), vs_mem = demo_os, vs_ctxs = Map.empty, vs_next = 0\<rparr>"

text \<open>The splice engine on such a ring, with a file of three bytes: it makes a ring and closes it.\<close>

lemma small_splice:
  "perform_splice_broadcast small_ring (fixed_fstat 3) Map.empty src outs ws rs k =
     (case sim_open (fst k) of (fd, t) \<Rightarrow> (Inr 0, (filter (\<lambda>g. g \<noteq> fd) (fst t), snd t), fd))"
proof -
  have full: "splice_outputs small_ring src outs ws rs t p n m k = (Inr m, k)" for t p n m k
    by (cases n) (simp_all add: small_ring_def)
  have size: "get_file_size (fixed_fstat 3) Map.empty src = 3"
    using fixed_fstat_size [of 3 Map.empty src] by simp
  have sub: "ur_submit small_ring k = (0, k)" for k :: small_kernel by (simp add: small_ring_def)
  have step: "splice_step 3 0 = 3" by (simp add: splice_step_def SPLICE_CHUNK_SIZE_def)
  have "splice_loop small_ring src outs ws rs 3 0 0 0 k = (Inr 0, k)" for k
    by (subst splice_loop.simps) (simp add: full step sub Let_def splice_loop.simps word_sless_alt)
  then show ?thesis
    by (simp add: perform_splice_broadcast_def size) (simp add: small_ring_def split: prod.splits)
qed

theorem main_cleans_up_witness:
  "\<exists>st'. main small_main (program_engines small_ring small_ring mem_os seq_sched (\<lambda>k. fixed_fstat 3) Map.empty)
      [''b'', ''3'', ''in.txt'', ''2''] small_start = (Inr 0, st') \<and>
    set (fst (fst (vs_ring st'))) = {5} \<and> set (snd (fst (vs_ring st'))) \<subseteq> {''old''}"
proof -
  let ?en = "program_engines small_ring small_ring mem_os seq_sched (\<lambda>k. fixed_fstat 3) Map.empty"
  let ?argv = "[''b'', ''3'', ''in.txt'', ''2'']"
  have args: "atoi ''3'' = 3" "atoi ''2'' = 2" by code_simp+
  have en: "en_splice ?en src outs ws rs st =
      (case sim_open (fst (vs_ring st)) of
         (fd, t) \<Rightarrow> (Inr 0, st\<lparr>vs_ring := ((filter (\<lambda>g. g \<noteq> fd) (fst t), snd t), fd)\<rparr>))" for src outs ws rs st
    by (simp add: program_engines_def small_splice split: prod.splits)
  have "fst (main small_main ?en ?argv small_start) = Inr 0"
    by (simp add: main_def main_modes_def pipe_modes_def new_ManagedPipe_def open_ends_def args en numeral_2_eq_2
        small_start_def small_main_def sim_main_def on_table_def sim_open_def Let_def del: One_nat_def)
  then obtain st' where run: "main small_main ?en ?argv small_start = (Inr 0, st')"
    by (cases "main small_main ?en ?argv small_start") simp
  from main_cleans_up [OF small_main_laws small_ring_laws small_ring_laws run] run show ?thesis
    by (simp add: small_table_def small_start_def)
qed

end
