(* ===== verification/Spec2Isabelle.thy ===== *)
theory Spec2Isabelle
  imports Prelude Chunking RingBuffer IO_Handle Request Manage_Pipe Posix Readv_Copy Readv_Broadcast Readv_Parallel Main_Run Main_Rings
    Uring Uring_Exec Tee Tee_Run Splice Splice_Run Uring_Vec Uring_Vec_Run Mpi_Broadcast Server Sender_Pipe Broadcaster Stream_Kernel Broadcaster_Run Broadcaster_Faults Main_Driver
    Link_Kernel Splice_Answers Tee_Answers Uring_Vec_Answers Readv_Faults Splice_Faults Tee_Faults Main_Faults Main_Cleanup
begin

text \<open>
  A model of the file broadcaster under \<open>src/source\<close>, and what makes it correct. The program
  copies one input file to any number of outputs; \<open>main.cpp\<close> opens the files (and, for two
  of the modes, named pipes), hands their descriptors to one of four engines and prints how
  many bytes the engine says it moved. Beside it the repository holds pieces that are not
  linked into \<open>main\<close>: a ring buffer, a request class, an event-loop broadcaster, a block
  reader, a socket helper and a broadcast over MPI.

  The theories, in the order they build on one another.

  \<^item> \<open>Prelude\<close>: machine types (\<open>size_t\<close>, \<open>off_t\<close> as 64-bit words, the signed reading by
    \<open>sint\<close> and \<open><s\<close>), \<open>cpp_error\<close> (every way a call ends other than by returning, undefined
    behaviour included), \<open>index_at\<close>, \<open>write_at\<close>, and the locale \<open>invariant_system\<close>.
  \<^item> \<open>Chunking\<close>: the cutting of a file into pieces, \<open>plan\<close>, and the locale \<open>chunk_loop\<close>: the
    contract of an expression \<open>min C (file_sz - total_processed)\<close> on words. Each engine
    interprets it on its own expression (\<open>rw\<close>, \<open>tee\<close>, \<open>sp\<close>, \<open>vw\<close>).
  \<^item> \<open>RingBuffer\<close> (\<open>IOuring/RingBuffer.hpp\<close>): the class with its 64-bit indices, and the
    locale \<open>bounded_fifo\<close>, interpreted on it: every session of calls is answered as by a
    bounded list that forgets its oldest element.
  \<^item> \<open>IO_Handle\<close> (\<open>file_system/IO_Handle.hpp\<close>, \<open>.cpp\<close>): handles live in a store, because the
    class keeps a reference to a string of another object; every special member function is
    an operation of the store and \<open>handle_step\<close> is a run of them. Also \<open>get_file_size\<close>.
  \<^item> \<open>Request\<close> (\<open>Network/Request.hpp\<close>, \<open>.cpp\<close>), \<open>Manage_Pipe\<close> (\<open>file_system/Manage_Pipe.hpp\<close>).
  \<^item> \<open>Posix\<close>: the system calls of the read/write engine as a record of functions over an
    abstract state, \<open>posix_laws\<close> with their documented behaviour, and \<open>mem_os\<close>, an
    implementation on which the laws are proved.
  \<^item> \<open>Readv_Copy\<close>, \<open>Readv_Broadcast\<close> (\<open>IOuring/readv_broadcaster.hpp\<close>): mode 1. One copy
    (\<open>submit_read_write\<close>: windows of 64 MiB, blocks, allocation, transfer, release), then the
    binomial tree of copies. A round's OpenMP loop is its iterations in any order
    (\<open>omp_schedule\<close>). The reference it is compared with is \<open>sequential_copies\<close>.
    \<open>Readv_Parallel\<close> takes a copy apart into its system calls (\<open>copy_step\<close>) and interleaves
    those of the copies of a round in any way (\<open>round_step\<close>), with a barrier between rounds.
  \<^item> \<open>Uring\<close>: what the code calls of liburing, in the same style: \<open>uring\<close>, \<open>uring_laws\<close> in
    terms of a \<open>ring_view\<close>, and \<open>sim_uring\<close>. Completions come in any order.
  \<^item> \<open>Uring_Vec\<close> (\<open>IOuring/uring_vec_broadcaster.hpp\<close>): mode 2, with the request contexts in
    an explicit store so that deleting one twice, or using one that is gone, is an error.
  \<^item> \<open>Splice\<close> (\<open>Network/broadcastSplice.hpp\<close>): mode 3. \<open>Tee\<close> (\<open>Network/broadcastTee.hpp\<close>): the
    modes from 4 on.
  \<^item> \<open>Uring_Exec\<close>: what the kernel does with what was submitted. \<open>effect\<close> is the documented
    effect of a request on files, pipes and buffers, \<open>exec_law\<close> the assumption that a request
    nothing hinders has it, \<open>kernel_step\<close> one request of any of the chains in flight, and
    \<open>runs_to\<close> the runs a submission history allows: linked requests in order, everything
    else in any order, a submission made after all completions were seen (\<open>rv_drained\<close>) after
    everything before it. \<open>Uring_Vec_Run\<close>, \<open>Tee_Run\<close> and \<open>Splice_Run\<close> put it under the
    engines and state what the files hold after any run.
  \<^item> \<open>Link_Kernel\<close>: the same kernel when it does not do all it is asked. \<open>moved\<close> is a request
    that moves so many bytes; one that is linked and falls short cancels the rest of its
    chain. \<open>link_laws\<close> couples that with the calls of a ring, and a path without a short
    answer is a run of \<open>Uring_Exec\<close>. \<open>Splice_Answers\<close> puts it under mode 3, through the locale
    \<open>splice_reaping\<close> of \<open>Splice\<close> (the contract of the piece loop with whatever accounts for
    its completions; interpreted on the ring with complete transfers and on this one),
    \<open>Tee_Answers\<close> under mode 4, and \<open>Uring_Vec_Answers\<close> under mode 2, through the locale
    \<open>ring_relation\<close> (a relation every call of the ring stays in is one the engine stays in).
    \<open>Splice_Faults\<close> follows the pair of each output through any answers in mode 3,
    \<open>Tee_Faults\<close> the one chain of a piece in mode 4.
  \<^item> \<open>Readv_Faults\<close>: mode 1 when calls fail. \<open>fail_stop\<close> is an environment in which a transfer
    is complete or fails (allocations may always fail); \<open>window_cut\<close> is what a copy that stops
    leaves, and \<open>fault_inv\<close> the tree of copies in terms of what each of them answered.
  \<^item> \<open>Sender_Pipe\<close> (\<open>Network/sender_pipe.h\<close>), \<open>Broadcaster\<close> (\<open>Network/broadcaster.hpp\<close>), whose
    event loop is the step relation \<open>bc_turn\<close>, with \<open>Stream_Kernel\<close> (streams, and a ring that
    moves bytes between them and shared buffers), \<open>Broadcaster_Run\<close> and \<open>Broadcaster_Faults\<close>
    (what the clients receive, and when it is wrong), \<open>Server\<close> (\<open>Network/Server.h\<close>),
    \<open>Mpi_Broadcast\<close> (\<open>mpi/broadcaster.cpp\<close>, \<open>mpi/comms.hpp\<close>).
  \<^item> \<open>Main_Driver\<close> (\<open>main.cpp\<close>): the command line, the files and pipes, the choice of the
    engine and every way out. \<open>Main_Run\<close> and \<open>Main_Rings\<close>: \<open>main\<close> with the models of
    its engines in their places, over a table of descriptors and files that may have several
    names; what goes in is the command line and what comes out the contents of the files.
    \<open>Main_Faults\<close>: the same when the calls of the engines fail or fall short. \<open>Main_Cleanup\<close>:
    what \<open>main\<close> with all four engines leaves in the kernel's tables of descriptors and FIFOs;
    a ring is a descriptor too (\<open>ring_table_laws\<close>).

  How the model corresponds to the code. A function of the code is a definition of the same
  name (a prefix is added where two files use one name, or where HOL has it); a \<open>while\<close> loop
  is a recursive function of its own over the loop's variables, a struct a record. A call
  that can fail, throw, exit, index out of range or use a dead object returns \<open>Inl\<close> of a
  \<open>cpp_error\<close>. Everything that is not under \<open>src\<close> is a parameter over an abstract state: the
  kernel's calls, the allocator, liburing and MPI. Theorems that need their behaviour say so by
  a hypothesis that names the law. The definition of \<open>main\<close> has its engines as a parameter
  because they work on states of different types; every property of \<open>main\<close> is about the
  model of an engine of the program in its place.

  What the groups of theorems show. The engines: for every file size, number of outputs and
  state, what is returned, what is written or submitted, that memory is given back, and the
  exact conditions under which an engine goes wrong (too many outputs for the ring, none at
  all, a failing transfer, an unknown size). The classes: single ownership of descriptors,
  refinement of a bounded queue, names and life of pipes. The event loop: an invariant of
  every reachable state, what every client receives (the input, in lockstep with the
  others) as long as no write is short or answered \<open>EAGAIN\<close>, and what happens if one is (a read
  under the tag of a write, among others). The block reader: every block is requested once,
  but a buffer may be read into twice at a time. \<open>main\<close>: on every return, whatever failed, all
  descriptors are closed and all FIFOs removed; in each of its modes, when everything works
  and within the bounds below, every output is a copy of the input; and if in mode 1 an
  output is the input, nothing is left of either.

  Delivery. For each engine, the bytes of the outputs after a run that ends: modes 1 and 2
  for every input, mode 4 for up to 512 outputs, mode 3 for files of one piece or exactly 256
  outputs; otherwise two pieces of one output may share its pipe, and
  \<open>splice_broadcast_scrambles\<close> is a run that exchanges them. When calls fail or fall
  short \<open>main\<close> still returns 0, and what is in the outputs depends on the mode. In mode 1 a
  failing call stops a copy at a multiple of 64 MiB (\<open>submit_read_write_fail_stop\<close>,
  \<open>main_stops_cleanly\<close>) and shows in the total (\<open>readv_total_certifies\<close>), but a short read does
  neither: it puts bytes of an uncleared buffer into the output (\<open>short_read_writes_buffer\<close>). In
  mode 2 nothing wrong is ever written (\<open>main_vectors_nothing_wrong\<close>). In mode 3 a file of one
  piece is cut to a prefix (\<open>main_splices_prefixes\<close>), to nothing if the pipes could not be
  enlarged (\<open>main_starves\<close>), and the total is full only if the copy is
  (\<open>splice_total_certifies\<close>). In mode 4 it is cut to a prefix too (\<open>main_tees_prefixes\<close>), but
  the total tells nothing (\<open>tee_total_overstates\<close>).

  Termination. Every loop whose end does not depend on the kernel is a total function; its
  measure is what is left of the file (\<open>unat (sz - t)\<close>), which every piece decreases. That no
  interleaving of a round runs for ever is \<open>parallel_broadcast_ends\<close>, by a multiset of ranks. The two
  loops that only the kernel can end, \<open>vec_reap\<close> and \<open>event_loop\<close>, are partial functions
  with value \<open>None\<close> for a run that does not end; that \<open>vec_reap\<close> ends, whatever the requests
  answer, is \<open>uring_broadcast_terminates\<close>. A wait that never returns is the error \<open>Blocks\<close>. There is no fuel.

  What is not modelled: printing and timing (\<open>print_stats\<close>), signals, and the two files
  \<open>IOuring/cat_uring_batch*.hpp\<close> and the batching variant at the end of
  \<open>broadcastTee.hpp\<close>, which are commented out. The file of the event loop constructs requests
  through an interface that no longer exists; its requests are a record of their own.
  A splice that would have to wait for a full pipe is answered in this model, with nothing
  moved or an error; the kernel may also leave it waiting.
\<close>

end
